(* ===== verification/Ox_Prelude.thy ===== *)
theory Ox_Prelude
  imports Main "HOL-Library.Word" "HOL-Library.Finite_Map" "HOL-Library.Stream"
    "HOL-Library.Multiset"
begin

text \<open>
  Shared vocabulary of the OxideQ development: machine integers, the result type of fallible
  operations, finite maps as used for the hash maps of the storage, sums over finite maps,
  streams of values supplied by the outside world, and the theorem collections the component
  theories fill.
\<close>

section \<open>Types\<close>

type_synonym byte = "8 word"
type_synonym u32 = "32 word"
type_synonym u64 = "64 word"

text \<open>Nanoseconds since the Unix epoch: a value of \<^verbatim>\<open>DateTime<Utc>\<close>.\<close>

type_synonym instant = int

text \<open>
  A Rust \<^verbatim>\<open>Result<T, String>\<close>-returning function either returns \<^verbatim>\<open>Ok\<close>,
  returns \<^verbatim>\<open>Err(message)\<close>, or unwinds with a panic. The first is \<open>Inr\<close>; the other
  two are the constructors of \<open>fault\<close>.
\<close>

datatype fault = Err string | Panic string

type_synonym 'a res = "fault + 'a"

definition is_ok :: "'e + 'a \<Rightarrow> bool" where
  "is_ok r = (case r of Inl _ \<Rightarrow> False | Inr _ \<Rightarrow> True)"

lemma is_ok_simps [simp]: "is_ok (Inr x)" "\<not> is_ok (Inl e)"
  by (simp_all add: is_ok_def)

text \<open>A single-quoted name, as the message formats of the storage write it.\<close>

definition quoted :: "string \<Rightarrow> string" where
  "quoted s = CHR 0x27 # s @ [CHR 0x27]"

text \<open>The number of a character.\<close>

definition code :: "char \<Rightarrow> nat" where
  "code c = of_char c"

text \<open>A number in decimal.\<close>

fun decimal :: "nat \<Rightarrow> string" where
  "decimal n = (let last_digit = [char_of (48 + n mod 10)] in
     if n < 10 then last_digit else decimal (n div 10) @ last_digit)"

declare decimal.simps [simp del]

section \<open>Theorem collections\<close>

named_theorems op_defs \<open>definitions of the storage operations\<close>
named_theorems step_defs \<open>definitions a step of a concurrent call is made of\<close>

section \<open>Finite maps\<close>

lemma fmdrop_absent: "fmlookup m k = None \<Longrightarrow> fmdrop k m = m"
  by (rule fmap_ext) auto

lemma fmdrop_update_same [simp]: "fmdrop k (fmupd k v m) = fmdrop k m"
  by (rule fmap_ext) auto

lemma fmupd_drop_same [simp]: "fmupd k v (fmdrop k m) = fmupd k v m"
  by (rule fmap_ext) auto

lemma fmupd_same: "fmlookup m k = Some v \<Longrightarrow> fmupd k v m = m"
  by (rule fmap_ext) auto

lemma fmdom_lookup: "k |\<in>| fmdom m \<longleftrightarrow> fmlookup m k \<noteq> None"
  by (auto intro: fmdomI simp: fmdom_notI)

lemma fmmap_upd [simp]: "fmmap f (fmupd k v m) = fmupd k (f v) (fmmap f m)"
  by (rule fmap_ext) auto

lemma fmdrop_upd_other [simp]: "a \<noteq> b \<Longrightarrow> fmdrop a (fmupd b v m) = fmupd b v (fmdrop a m)"
  by (rule fmap_ext) auto

text \<open>A sum over the entries of a finite map, in any commutative monoid.\<close>

definition fm_sum :: "('k \<Rightarrow> 'v \<Rightarrow> 'a::comm_monoid_add) \<Rightarrow> ('k, 'v) fmap \<Rightarrow> 'a" where
  "fm_sum g m = (\<Sum>k\<in>fset (fmdom m). g k (the (fmlookup m k)))"

lemma fm_sum_empty [simp]: "fm_sum g fmempty = 0"
  by (simp add: fm_sum_def)

lemma fm_sum_upd: "fm_sum g (fmupd k v m) = g k v + fm_sum g (fmdrop k m)"
proof -
  let ?h = "\<lambda>k'. g k' (the (fmlookup (fmupd k v m) k'))"
  have dom: "fset (fmdom (fmupd k v m)) = insert k (fset (fmdom (fmdrop k m)))"
    by auto
  have "sum ?h (insert k (fset (fmdom (fmdrop k m)))) = ?h k + sum ?h (fset (fmdom (fmdrop k m)))"
    by (rule sum.insert) auto
  also have "sum ?h (fset (fmdom (fmdrop k m))) = fm_sum g (fmdrop k m)"
    unfolding fm_sum_def by (rule sum.cong) auto
  finally show ?thesis by (simp add: fm_sum_def dom)
qed

lemma fm_sum_split: "fmlookup m k = Some v \<Longrightarrow> fm_sum g m = g k v + fm_sum g (fmdrop k m)"
  using fm_sum_upd [of g k v m] by (simp add: fmupd_same)

lemma fm_sum_add:
  "fm_sum (\<lambda>k v. g k v + h k v) m = fm_sum g m + fm_sum h m"
  by (simp add: fm_sum_def sum.distrib)

lemma fm_sum_fmmap: "fm_sum g (fmmap f m) = fm_sum (\<lambda>k v. g k (f v)) m"
  unfolding fm_sum_def by (rule sum.cong) (auto simp: fmdom_lookup)

lemma fm_sum_submap:
  fixes g :: "'k \<Rightarrow> 'v \<Rightarrow> 'a multiset"
  assumes "\<And>k v. fmlookup m k = Some v \<Longrightarrow> fmlookup n k = Some v"
  shows "fm_sum g m \<subseteq># fm_sum g n"
proof -
  have sub: "fset (fmdom m) \<subseteq> fset (fmdom n)"
    using assms by (auto simp: fmdom_lookup)
  have "(\<Sum>k\<in>fset (fmdom m). g k (the (fmlookup n k))) = fm_sum g m"
    unfolding fm_sum_def
  proof (rule sum.cong)
    fix k assume "k \<in> fset (fmdom m)"
    then obtain v where "fmlookup m k = Some v" by (auto simp: fmdom_lookup)
    with assms show "g k (the (fmlookup n k)) = g k (the (fmlookup m k))" by simp
  qed simp
  then have "fm_sum g n = (\<Sum>k\<in>fset (fmdom n) - fset (fmdom m). g k (the (fmlookup n k))) + fm_sum g m"
    unfolding fm_sum_def [of g n] using sum.subset_diff [OF sub finite_fset] by metis
  then show ?thesis by simp
qed

section \<open>Values supplied by the outside world\<close>

text \<open>
  Identifiers, clock readings and I/O outcomes come from outside the program. The model keeps,
  for each such source, the stream of values its future calls return; a call takes the head.
  A source never repeats when its stream is injective.
\<close>

definition unrepeated :: "'a stream \<Rightarrow> bool" where
  "unrepeated s \<longleftrightarrow> inj (snth s)"

lemma unrepeated_shd: "unrepeated s \<Longrightarrow> shd s \<notin> sset (stl s)"
proof
  assume u: "unrepeated s" and "shd s \<in> sset (stl s)"
  then obtain n where "stl s !! n = shd s"
    by (auto simp: sset_range)
  then have "s !! Suc n = s !! 0" by simp
  with u show False
    unfolding unrepeated_def by (blast dest: injD)
qed

lemma unrepeated_stl: "unrepeated s \<Longrightarrow> unrepeated (stl s)"
  unfolding unrepeated_def inj_def by (metis Suc_inject snth.simps(2))

lemma unrepeated_sdrop: "unrepeated s \<Longrightarrow> unrepeated (sdrop n s)"
  by (induction n arbitrary: s) (auto intro: unrepeated_stl)

lemma sset_stl_subset: "x \<in> sset (stl s) \<Longrightarrow> x \<in> sset s"
  by (metis stl_sset)

lemma sset_sdrop_subset: "x \<in> sset (sdrop n s) \<Longrightarrow> x \<in> sset s"
  by (induction n arbitrary: s) (auto dest: sset_stl_subset)

lemma set_stake_subset: "x \<in> set (stake n s) \<Longrightarrow> x \<in> sset s"
  by (induction n arbitrary: s) (auto dest: sset_stl_subset intro: shd_sset)

lemma unrepeated_stake:
  "unrepeated s \<Longrightarrow> distinct (stake n s) \<and> set (stake n s) \<inter> sset (sdrop n s) = {}"
proof (induction n arbitrary: s)
  case 0
  then show ?case by simp
next
  case (Suc n)
  have IH: "distinct (stake n (stl s)) \<and> set (stake n (stl s)) \<inter> sset (sdrop n (stl s)) = {}"
    using Suc.IH Suc.prems unrepeated_stl by blast
  have "shd s \<notin> sset (stl s)" using Suc.prems by (rule unrepeated_shd)
  with IH show ?case
    by (auto dest: set_stake_subset sset_sdrop_subset)
qed

text \<open>Sources that never repeat exist: names counted in unary.\<close>

definition numbered :: "string stream" where
  "numbered = smap (\<lambda>n. replicate n CHR ''i'') nats"

lemma unrepeated_numbered [simp]: "unrepeated numbered"
proof -
  have "replicate m c = replicate n c \<Longrightarrow> m = n" for m n :: nat and c :: char
    by (metis length_replicate)
  then show ?thesis by (auto simp: unrepeated_def numbered_def inj_def)
qed

section \<open>Lists\<close>

lemma zip_take_short: "length ys \<le> k \<Longrightarrow> zip ys (take k xs) = zip ys xs"
proof (induction ys arbitrary: k xs)
  case (Cons y ys)
  then show ?case by (cases k; cases xs) simp_all
qed simp

lemma mset_take_drop: "mset (take n xs) + mset (drop n xs) = mset xs"
  by (metis append_take_drop_id mset_append)

end
