(* ===== verification/Json.thy ===== *)
theory Json
  imports Ox_Prelude "HOL-Library.Countable"
begin

text \<open>
  JSON serialisation by \<^verbatim>\<open>serde_json\<close>, a library of the program, as a parameter of
  the model: a pair of functions and the law the code relies on. The codecs at the end exist only
  to show that the law can hold: values that can be counted are written as their number, in unary.
\<close>

section \<open>Codecs\<close>

text \<open>A JSON codec for values of one type: \<^verbatim>\<open>serde_json::to_vec\<close> and \<^verbatim>\<open>from_slice\<close>.\<close>

record 'a json =
  to_vec :: "'a \<Rightarrow> string + byte list"
  from_slice :: "byte list \<Rightarrow> string + 'a"

text \<open>What the code relies on: what is written reads back.\<close>

definition json_law :: "'a json \<Rightarrow> bool" where
  "json_law J \<longleftrightarrow> (\<forall>x. \<exists>b. to_vec J x = Inr b \<and> from_slice J b = Inr x)"

lemma json_lawE:
  assumes "json_law J"
  obtains b where "to_vec J x = Inr b" and "from_slice J b = Inr x"
  using assms unfolding json_law_def by blast

section \<open>A codec that satisfies the law\<close>

definition counting_json :: "('a::countable) json" where
  "counting_json = \<lparr>to_vec = (\<lambda>x. Inr (replicate (to_nat x) 0)),
     from_slice = (\<lambda>b. Inr (from_nat (length b)))\<rparr>"

lemma counting_json_law: "json_law counting_json"
  by (simp add: json_law_def counting_json_def)

end
