(* ===== verification/Wal.thy ===== *)
theory Wal
  imports Json
begin

text \<open>
  The write-ahead log: the entries of \<^verbatim>\<open>src/storage/wal/mod.rs\<close> and the file manager
  of \<^verbatim>\<open>src/storage/wal/manager.rs\<close>. The log file is a sequence of bytes. Appending
  serialises an entry, adds a newline, writes and flushes, and can fail at each of these points;
  replaying reads the file line by line, skips blank lines and gives up at the first line that is
  not an entry. JSON (\<^verbatim>\<open>serde_json\<close>) is a parameter, the record \<open>codec\<close>; UTF-8
  validity and \<^verbatim>\<open>str::trim\<close> are the standard library's and are defined here.
\<close>

section \<open>Entries\<close>

datatype wal_op =
    CreateQueue string
  | Enqueue string "byte list"
  | EnqueueBatch string "byte list list"
  | Dequeued string string
  | DequeuedBatch string "string list"
  | Ack string
  | AckBatch "string list"
  | Nack string
  | ExtendVisibility string u64

record wal_entry =
  entry_op :: wal_op
  entry_time :: int

text \<open>Serialisation of entries by \<^verbatim>\<open>serde_json\<close>: \<^verbatim>\<open>to_string\<close> and \<^verbatim>\<open>from_str\<close>.\<close>

record codec =
  entry_to_json :: "wal_entry \<Rightarrow> string + string"
  entry_of_json :: "string \<Rightarrow> string + wal_entry"

section \<open>Text: UTF-8, white space, lines\<close>

definition newline :: char where
  "newline = CHR 0x0A"

definition carriage_return :: char where
  "carriage_return = CHR 0x0D"

text \<open>
  UTF-8 as the standard library checks it: \<open>utf8_from n lo hi\<close> reads the rest of a text when
  \<open>n\<close> continuation bytes are missing and the next of them must lie between \<open>lo\<close> and \<open>hi\<close>.
\<close>

fun utf8_from :: "nat \<Rightarrow> nat \<Rightarrow> nat \<Rightarrow> string \<Rightarrow> bool" where
  "utf8_from n lo hi [] = (n = 0)"
| "utf8_from n lo hi (c # cs) =
     (let b = code c in
      if n = 0 then
        (if b < 0x80 then utf8_from 0 0 0 cs
         else if 0xC2 \<le> b \<and> b \<le> 0xDF then utf8_from 1 0x80 0xBF cs
         else if b = 0xE0 then utf8_from 2 0xA0 0xBF cs
         else if b = 0xED then utf8_from 2 0x80 0x9F cs
         else if 0xE1 \<le> b \<and> b \<le> 0xEF then utf8_from 2 0x80 0xBF cs
         else if b = 0xF0 then utf8_from 3 0x90 0xBF cs
         else if 0xF1 \<le> b \<and> b \<le> 0xF3 then utf8_from 3 0x80 0xBF cs
         else if b = 0xF4 then utf8_from 3 0x80 0x8F cs
         else False)
      else lo \<le> b \<and> b \<le> hi \<and> utf8_from (n - 1) 0x80 0xBF cs)"

definition valid_utf8 :: "string \<Rightarrow> bool" where
  "valid_utf8 s = utf8_from 0 0 0 s"

text \<open>
  \<open>ws_len s\<close> is the number of bytes of the white-space character (Unicode
  \<^verbatim>\<open>White_Space\<close>, in UTF-8) that \<open>s\<close> starts with, 0 when it starts with none.
\<close>

definition ws_len :: "string \<Rightarrow> nat" where
  "ws_len s = (case map code (take 3 s) of
      [] \<Rightarrow> 0
    | a # bs \<Rightarrow>
        if 9 \<le> a \<and> a \<le> 13 \<or> a = 32 then 1
        else (case bs of
            [] \<Rightarrow> 0
          | b # cs \<Rightarrow>
              if a = 0xC2 \<and> (b = 0x85 \<or> b = 0xA0) then 2
              else (case cs of
                  [] \<Rightarrow> 0
                | c # _ \<Rightarrow>
                    if (a = 0xE1 \<and> b = 0x9A \<and> c = 0x80)
                     \<or> (a = 0xE2 \<and> b = 0x80 \<and> (0x80 \<le> c \<and> c \<le> 0x8A \<or> c = 0xA8 \<or> c = 0xA9 \<or> c = 0xAF))
                     \<or> (a = 0xE2 \<and> b = 0x81 \<and> c = 0x9F)
                     \<or> (a = 0xE3 \<and> b = 0x80 \<and> c = 0x80) then 3 else 0)))"

text \<open>\<^verbatim>\<open>line.trim().is_empty()\<close>.\<close>

function blank :: "string \<Rightarrow> bool" where
  "blank s = (if s = [] then True else if ws_len s = 0 then False else blank (drop (ws_len s) s))"
  by pat_completeness auto
termination
  by (relation "measure length") auto

declare blank.simps [simp del]

text \<open>
  The lines of a text as \<^verbatim>\<open>next_line\<close> yields them: each without its newline and a carriage
  return before it; a last line without a newline counts when it is not empty.
\<close>

definition strip_cr :: "string \<Rightarrow> string" where
  "strip_cr l = (if l \<noteq> [] \<and> last l = carriage_return then butlast l else l)"

fun lines_acc :: "string \<Rightarrow> string \<Rightarrow> string list" where
  "lines_acc acc [] = (if acc = [] then [] else [rev acc])"
| "lines_acc acc (c # cs) =
     (if c = newline then strip_cr (rev acc) # lines_acc [] cs else lines_acc (c # acc) cs)"

section \<open>The log file\<close>

text \<open>
  The outcome of a call of \<^verbatim>\<open>write_all\<close> or \<^verbatim>\<open>flush\<close>: \<open>None\<close> is success;
  \<open>Some (k, e)\<close> is the error \<open>e\<close> after the first \<open>k\<close> bytes got through. The file of
  \<^verbatim>\<open>tokio\<close> buffers what is written until it is flushed.
\<close>

type_synonym io_outcome = "(nat \<times> string) option"

record wal_manager =
  durable :: string
  pending :: string
  write_results :: "io_outcome stream"
  flush_results :: "io_outcome stream"

text \<open>
  What is at the log's path: the file's bytes (none when there is no file), whether it can be
  opened for reading and for appending, after how many lines reading it fails (if it does), and
  the outcomes its future writes and flushes will have.
\<close>

record disk_file =
  contents :: "string option"
  can_read :: bool
  can_append :: bool
  read_limit :: "nat option"
  disk_writes :: "io_outcome stream"
  disk_flushes :: "io_outcome stream"

definition wal_new :: "disk_file \<Rightarrow> wal_manager res" where
  "wal_new f =
     (if can_append f
      then Inr \<lparr>durable = (case contents f of None \<Rightarrow> [] | Some c \<Rightarrow> c), pending = [],
                write_results = disk_writes f, flush_results = disk_flushes f\<rparr>
      else Inl (Panic ''Failed to open WAL file''))"

definition write_all :: "string \<Rightarrow> wal_manager \<Rightarrow> (string + unit) \<times> wal_manager" where
  "write_all line m =
     (let m' = m\<lparr>write_results := stl (write_results m)\<rparr> in
      case shd (write_results m) of
        None \<Rightarrow> (Inr (), m'\<lparr>pending := pending m @ line\<rparr>)
      | Some (k, e) \<Rightarrow> (Inl e, m'\<lparr>pending := pending m @ take k line\<rparr>))"

definition flush :: "wal_manager \<Rightarrow> (string + unit) \<times> wal_manager" where
  "flush m =
     (let m' = m\<lparr>flush_results := stl (flush_results m), pending := []\<rparr> in
      case shd (flush_results m) of
        None \<Rightarrow> (Inr (), m'\<lparr>durable := durable m @ pending m\<rparr>)
      | Some (k, e) \<Rightarrow> (Inl e, m'\<lparr>durable := durable m @ take k (pending m)\<rparr>))"

definition wal_append :: "codec \<Rightarrow> wal_entry \<Rightarrow> wal_manager \<Rightarrow> (string + unit) \<times> wal_manager" where
  "wal_append X entry m =
     (case entry_to_json X entry of
        Inl e \<Rightarrow> (Inl e, m)
      | Inr line \<Rightarrow>
          (case write_all (line @ [newline]) m of
             (Inl e, m1) \<Rightarrow> (Inl e, m1)
           | (Inr _, m1) \<Rightarrow>
               (case flush m1 of
                  (Inl e, m2) \<Rightarrow> (Inl e, m2)
                | (Inr _, m2) \<Rightarrow> (Inr (), m2))))"

fun parse_lines :: "codec \<Rightarrow> string list \<Rightarrow> string + wal_entry list" where
  "parse_lines X [] = Inr []"
| "parse_lines X (l # ls) =
     (if blank l then parse_lines X ls
      else (case entry_of_json X l of
              Inl e \<Rightarrow> Inl e
            | Inr entry \<Rightarrow>
                (case parse_lines X ls of Inl e \<Rightarrow> Inl e | Inr es \<Rightarrow> Inr (entry # es))))"

text \<open>The lines the loop of \<^verbatim>\<open>replay\<close> sees: it ends at the first read that fails.\<close>

definition readable_lines :: "nat option \<Rightarrow> string \<Rightarrow> string list" where
  "readable_lines limit c =
     takeWhile valid_utf8 (case limit of None \<Rightarrow> lines_acc [] c | Some n \<Rightarrow> take n (lines_acc [] c))"

definition replay :: "codec \<Rightarrow> disk_file \<Rightarrow> string + wal_entry list" where
  "replay X f =
     (case (if can_read f then contents f else None) of
        None \<Rightarrow> Inr []
      | Some c \<Rightarrow> parse_lines X (readable_lines (read_limit f) c))"

text \<open>The file a manager leaves behind when the process stops: what was flushed.\<close>

definition file_after :: "wal_manager \<Rightarrow> disk_file" where
  "file_after m = \<lparr>contents = Some (durable m), can_read = True, can_append = True,
     read_limit = None, disk_writes = write_results m, disk_flushes = flush_results m\<rparr>"

section \<open>What the log relies on\<close>

text \<open>
  What \<^verbatim>\<open>serde_json\<close> documents of its compact output for a struct: an object in one
  line of UTF-8 without raw control characters, which it reads back. The second law is JSON's: no
  proper non-empty prefix of an object is a JSON text.
\<close>

definition json_line :: "string \<Rightarrow> bool" where
  "json_line l \<longleftrightarrow> (\<exists>b. l = CHR ''{'' # b) \<and> (\<forall>c\<in>set l. 32 \<le> code c) \<and> valid_utf8 l"

definition codec_law :: "codec \<Rightarrow> bool" where
  "codec_law X \<longleftrightarrow>
     (\<forall>e. \<exists>l. entry_to_json X e = Inr l \<and> json_line l \<and> entry_of_json X l = Inr e)"

definition prefix_law :: "codec \<Rightarrow> bool" where
  "prefix_law X \<longleftrightarrow>
     (\<forall>e l k. entry_to_json X e = Inr l \<longrightarrow> 0 < k \<longrightarrow> k < length l \<longrightarrow>
        \<not> is_ok (entry_of_json X (take k l)))"

definition line_of :: "codec \<Rightarrow> wal_entry \<Rightarrow> string" where
  "line_of X e = (case entry_to_json X e of Inl _ \<Rightarrow> [] | Inr l \<Rightarrow> l)"

definition encode_log :: "codec \<Rightarrow> wal_entry list \<Rightarrow> string" where
  "encode_log X es = concat (map (\<lambda>e. line_of X e @ [newline]) es)"

lemma codec_lawD:
  assumes "codec_law X"
  shows "entry_to_json X e = Inr (line_of X e)" and "json_line (line_of X e)"
    and "entry_of_json X (line_of X e) = Inr e"
proof -
  from assms obtain l where l: "entry_to_json X e = Inr l" "json_line l" "entry_of_json X l = Inr e"
    unfolding codec_law_def by blast
  then have "line_of X e = l" by (simp add: line_of_def)
  with l show "entry_to_json X e = Inr (line_of X e)" "json_line (line_of X e)"
    "entry_of_json X (line_of X e) = Inr e" by simp_all
qed

lemma encode_log_simps [simp]:
  "encode_log X [] = []"
  "encode_log X (e # es) = line_of X e @ newline # encode_log X es"
  "encode_log X (es @ fs) = encode_log X es @ encode_log X fs"
  by (simp_all add: encode_log_def)

lemma code_control [simp]: "code newline = 10" "code carriage_return = 13" "code CHR ''{'' = 123"
  by (simp_all add: code_def newline_def carriage_return_def)

lemma json_line_control:
  assumes "json_line l" shows "newline \<notin> set l" and "carriage_return \<notin> set l"
proof -
  from assms have "\<forall>c\<in>set l. 32 \<le> code c" by (simp add: json_line_def)
  then show "newline \<notin> set l" "carriage_return \<notin> set l" by force+
qed

lemma ws_len_brace: "ws_len (CHR ''{'' # b) = 0"
  by (simp add: ws_len_def split: list.splits)

lemma json_line_not_blank: "json_line l \<Longrightarrow> \<not> blank l"
  by (subst blank.simps) (auto simp: json_line_def ws_len_brace)

lemma json_line_strip: "json_line l \<Longrightarrow> strip_cr l = l"
  using json_line_control(2) [of l] by (auto simp: strip_cr_def dest: last_in_set)

lemma lines_acc_newline:
  "newline \<notin> set l \<Longrightarrow>
     lines_acc acc (l @ newline # rest) = strip_cr (rev acc @ l) # lines_acc [] rest"
  by (induction l arbitrary: acc) auto

lemma lines_acc_open:
  "newline \<notin> set l \<Longrightarrow> lines_acc acc l = (if acc = [] \<and> l = [] then [] else [rev acc @ l])"
  by (induction l arbitrary: acc) auto

lemma lines_encode_log:
  assumes "codec_law X"
  shows "lines_acc [] (encode_log X es @ rest) = map (line_of X) es @ lines_acc [] rest"
  by (induction es)
    (simp_all add: lines_acc_newline json_line_strip codec_lawD(2) [OF assms]
      json_line_control(1) [OF codec_lawD(2) [OF assms]])

lemma parse_lines_encoded:
  assumes "codec_law X"
  shows "parse_lines X (map (line_of X) es @ ls) =
    (case parse_lines X ls of Inl e \<Rightarrow> Inl e | Inr fs \<Rightarrow> Inr (es @ fs))"
  by (induction es)
    (simp_all add: json_line_not_blank codec_lawD(2,3) [OF assms] split: sum.splits)

lemma readable_encoded:
  assumes "codec_law X"
  shows "readable_lines None (encode_log X es @ rest) =
    map (line_of X) es @ takeWhile valid_utf8 (lines_acc [] rest)"
proof -
  have "valid_utf8 l" if "l \<in> set (map (line_of X) es)" for l
    using that codec_lawD(2) [OF assms] by (auto simp: json_line_def)
  then have "takeWhile valid_utf8 (map (line_of X) es @ ls) = map (line_of X) es @ takeWhile valid_utf8 ls" for ls
    by (rule takeWhile_append2)
  then show ?thesis
    by (simp add: readable_lines_def lines_encode_log [OF assms])
qed

section \<open>Logs in good order\<close>

text \<open>The manager's file holds exactly the entries \<open>es\<close>, one line each, and nothing is pending.\<close>

definition wal_ready :: "codec \<Rightarrow> wal_entry list \<Rightarrow> wal_manager \<Rightarrow> bool" where
  "wal_ready X es m \<longleftrightarrow> durable m = encode_log X es \<and> pending m = []"

text \<open>An I/O source whose failures reach the file with nothing.\<close>

definition clean_outcome :: "io_outcome \<Rightarrow> bool" where
  "clean_outcome r = (case r of None \<Rightarrow> True | Some (k, e) \<Rightarrow> k = 0)"

definition clean_io :: "wal_manager \<Rightarrow> bool" where
  "clean_io m \<longleftrightarrow> (\<forall>r \<in> sset (write_results m) \<union> sset (flush_results m). clean_outcome r)"

text \<open>An I/O source that never fails.\<close>

definition perfect_io :: "wal_manager \<Rightarrow> bool" where
  "perfect_io m \<longleftrightarrow> sset (write_results m) \<union> sset (flush_results m) \<subseteq> {None}"

lemma perfect_clean: "perfect_io m \<Longrightarrow> clean_io m"
  by (auto simp: perfect_io_def clean_io_def clean_outcome_def)

lemma replay_file_after:
  assumes "codec_law X" and "durable m = encode_log X es @ rest"
  shows "replay X (file_after m) =
    (case parse_lines X (takeWhile valid_utf8 (lines_acc [] rest)) of
       Inl e \<Rightarrow> Inl e | Inr fs \<Rightarrow> Inr (es @ fs))"
  by (simp add: replay_def file_after_def readable_encoded parse_lines_encoded assms)

lemma replay_ready: "codec_law X \<Longrightarrow> wal_ready X es m \<Longrightarrow> replay X (file_after m) = Inr es"
  using replay_file_after [of X m es "[]"] by (simp add: wal_ready_def)

lemma replay_new:
  "codec_law X \<Longrightarrow> contents f = Some (encode_log X es) \<Longrightarrow> can_read f \<Longrightarrow> read_limit f = None \<Longrightarrow>
     replay X f = Inr es"
  using readable_encoded [of X es "[]"] parse_lines_encoded [of X es "[]"]
  by (simp add: replay_def)

lemma clean_ioD:
  assumes "clean_io m"
  shows "clean_outcome (shd (write_results m))" and "clean_outcome (shd (flush_results m))"
  using assms shd_sset [of "write_results m"] shd_sset [of "flush_results m"]
  by (auto simp: clean_io_def)

lemma clean_io_step:
  assumes "clean_io m"
    and "write_results m' = stl (write_results m) \<or> write_results m' = write_results m"
    and "flush_results m' = stl (flush_results m) \<or> flush_results m' = flush_results m"
  shows "clean_io m'"
proof -
  have "sset (write_results m') \<subseteq> sset (write_results m)"
    "sset (flush_results m') \<subseteq> sset (flush_results m)"
    using assms(2,3) by (auto dest!: sset_stl_subset)
  with assms(1) show ?thesis unfolding clean_io_def by blast
qed

lemma wal_append_eq:
  assumes "codec_law X"
  shows "wal_append X e m =
    (case shd (write_results m) of
       Some (k, err) \<Rightarrow> (Inl err, m\<lparr>write_results := stl (write_results m),
                             pending := pending m @ take k (line_of X e @ [newline])\<rparr>)
     | None \<Rightarrow>
         let m' = m\<lparr>write_results := stl (write_results m), flush_results := stl (flush_results m),
                    pending := []\<rparr>;
             line = pending m @ line_of X e @ [newline]
         in (case shd (flush_results m) of
               Some (k, err) \<Rightarrow> (Inl err, m'\<lparr>durable := durable m @ take k line\<rparr>)
             | None \<Rightarrow> (Inr (), m'\<lparr>durable := durable m @ line\<rparr>)))"
  using codec_lawD(1) [OF assms, of e]
  by (simp add: wal_append_def write_all_def flush_def Let_def split: option.split prod.split)

lemma wal_append_cases:
  assumes X: "codec_law X" and "wal_ready X es m" and "clean_io m" and "wal_append X e m = (r, m')"
  shows "clean_io m' \<and> wal_ready X (if is_ok r then es @ [e] else es) m'"
proof
  show "clean_io m'"
    by (rule clean_io_step [OF assms(3)])
      (use assms(4) in \<open>auto simp: wal_append_eq [OF X] Let_def split: option.splits\<close>)
  show "wal_ready X (if is_ok r then es @ [e] else es) m'"
    using assms(2,4) clean_ioD [OF assms(3)]
    by (auto simp: wal_append_eq [OF X] Let_def wal_ready_def clean_outcome_def split: option.splits)
qed

lemma wal_append_perfect:
  assumes "codec_law X" and "perfect_io m" and "wal_append X e m = (r, m')"
  shows "r = Inr () \<and> perfect_io m'"
proof -
  have "shd (write_results m) = None" "shd (flush_results m) = None"
    using assms(2) shd_sset [of "write_results m"] shd_sset [of "flush_results m"]
    by (auto simp: perfect_io_def)
  then show ?thesis
    using assms(2,3) by (auto simp: wal_append_eq [OF assms(1)] Let_def perfect_io_def
        dest!: sset_stl_subset)
qed

text \<open>A disk whose log does not exist yet, and on which nothing fails.\<close>

definition fresh_disk :: disk_file where
  "fresh_disk = \<lparr>contents = None, can_read = True, can_append = True, read_limit = None,
     disk_writes = sconst None, disk_flushes = sconst None\<rparr>"

definition fresh_manager :: wal_manager where
  "fresh_manager = \<lparr>durable = [], pending = [], write_results = sconst None, flush_results = sconst None\<rparr>"

section \<open>A codec that satisfies the laws\<close>

text \<open>
  The entries are countable, so each can be written as an object-like line that holds its number
  in unary. This codec exists only to show that the two laws can hold together.
\<close>

instance wal_op :: countable
  by countable_datatype

instance wal_entry_ext :: (countable) countable
  by (rule countable_classI [where f = "\<lambda>r. to_nat (entry_op r, entry_time r, wal_entry.more r)"])
    (auto intro: wal_entry.equality)

definition unary_line :: "wal_entry \<Rightarrow> string" where
  "unary_line e = CHR ''{'' # replicate (to_nat e) CHR ''1'' @ [CHR ''}'']"

definition unary_codec :: codec where
  "unary_codec = \<lparr>entry_to_json = (\<lambda>e. Inr (unary_line e)),
     entry_of_json = (\<lambda>l. if last l = CHR ''}'' then Inr (from_nat (length l - 2))
                           else Inl ''EOF while parsing an object'')\<rparr>"

lemma utf8_unary: "utf8_from 0 0 0 (replicate n CHR ''1'' @ [CHR ''}''])"
  by (induction n) (auto simp: code_def)

lemma unary_codec_law: "codec_law unary_codec"
proof -
  have "json_line (unary_line e)" for e
    by (auto simp: json_line_def unary_line_def valid_utf8_def utf8_unary code_def)
  then show ?thesis
    by (simp add: codec_law_def unary_codec_def) (simp add: unary_line_def)
qed

lemma unary_prefix_law: "prefix_law unary_codec"
  unfolding prefix_law_def
proof (intro allI impI)
  fix e l k
  assume "entry_to_json unary_codec e = Inr l" and k: "0 < k" "k < length l"
  then have l: "l = CHR ''{'' # replicate (to_nat e) CHR ''1'' @ [CHR ''}'']"
    by (simp add: unary_codec_def unary_line_def)
  obtain j where j: "k = Suc j" using k(1) by (cases k) auto
  have "take k l = CHR ''{'' # replicate (min j (to_nat e)) CHR ''1''"
    using k(2) by (simp add: j l)
  then have "last (take k l) \<noteq> CHR ''}''"
    by (cases "min j (to_nat e)") (auto simp: last_replicate)
  then show "\<not> is_ok (entry_of_json unary_codec (take k l))"
    by (simp add: unary_codec_def)
qed

section \<open>Appending and replaying\<close>

text \<open>The entries of a list whose append succeeds, and the manager after all of them.\<close>

fun append_all :: "codec \<Rightarrow> wal_entry list \<Rightarrow> wal_manager \<Rightarrow> wal_entry list \<times> wal_manager" where
  "append_all X [] m = ([], m)"
| "append_all X (e # es) m =
     (case wal_append X e m of
        (r, m1) \<Rightarrow> (case append_all X es m1 of
                      (logged, m2) \<Rightarrow> ((if is_ok r then e # logged else logged), m2)))"

lemma append_all_ready:
  assumes "codec_law X"
  shows "wal_ready X es m \<Longrightarrow> clean_io m \<Longrightarrow> append_all X fs m = (logged, m') \<Longrightarrow>
    wal_ready X (es @ logged) m'"
proof (induction fs arbitrary: es m logged)
  case Nil
  then show ?case by simp
next
  case (Cons f fs)
  obtain r m1 where a: "wal_append X f m = (r, m1)" by fastforce
  obtain l where l: "append_all X fs m1 = (l, m')" "logged = (if is_ok r then f # l else l)"
    using Cons.prems(3) a by (auto split: prod.splits)
  have "clean_io m1" "wal_ready X (if is_ok r then es @ [f] else es) m1"
    using wal_append_cases [OF assms Cons.prems(1,2) a] by simp_all
  from Cons.IH [OF this(2,1) l(1)] show ?case
    by (cases "is_ok r") (simp_all add: l(2))
qed

text \<open>
  C29: the log returns what was appended to it. Appending any entries to a log in good order, on a
  disk whose failures leave no bytes behind, and replaying the file yields the entries the log
  held before, followed by exactly those whose append reported success, in order.
\<close>

theorem wal_roundtrip:
  assumes "codec_law X" and "wal_ready X es m" and "clean_io m"
  shows "replay X (file_after (snd (append_all X fs m))) = Inr (es @ fst (append_all X fs m))"
proof -
  have "wal_ready X (es @ fst (append_all X fs m)) (snd (append_all X fs m))"
    by (rule append_all_ready [OF assms]) simp
  then show ?thesis by (rule replay_ready [OF assms(1)])
qed

theorem wal_roundtrip_witness:
  "replay unary_codec (file_after (snd (append_all unary_codec
      [\<lparr>entry_op = CreateQueue ''q'', entry_time = 1\<rparr>, \<lparr>entry_op = Enqueue ''q'' [7], entry_time = 2\<rparr>]
      fresh_manager))) =
   Inr [\<lparr>entry_op = CreateQueue ''q'', entry_time = 1\<rparr>, \<lparr>entry_op = Enqueue ''q'' [7], entry_time = 2\<rparr>]"
proof -
  let ?fs = "[\<lparr>entry_op = CreateQueue ''q'', entry_time = 1\<rparr>, \<lparr>entry_op = Enqueue ''q'' [7], entry_time = 2\<rparr>]"
  have "wal_ready unary_codec [] fresh_manager" "clean_io fresh_manager"
    by (simp_all add: wal_ready_def clean_io_def fresh_manager_def clean_outcome_def)
  moreover have "fst (append_all unary_codec ?fs fresh_manager) = ?fs"
    by (simp add: wal_append_eq [OF unary_codec_law] fresh_manager_def Let_def)
  ultimately show ?thesis
    using wal_roundtrip [OF unary_codec_law, of "[]" fresh_manager ?fs] by simp
qed

end
