(* ===== verification/Storage.thy ===== *)
theory Storage
  imports Wal
begin

text \<open>
  The in-memory storage of \<^verbatim>\<open>src/storage/memory.rs\<close> and the task type of
  \<^verbatim>\<open>src/storage/mod.rs\<close>: the state, every operation of the \<^verbatim>\<open>Storage\<close> trait,
  the expiry scan and the snapshot functions. An operation takes the state and returns its result
  with the new state, on every branch. Definitions only; what they satisfy is in the theories that
  import this one.
\<close>

section \<open>State\<close>

record queue_item =
  item_data :: "byte list"
  item_attempts :: u32

record in_flight_task =
  task_id :: string
  task_data :: "byte list"
  consumed_at :: instant
  task_queue :: string
  task_attempts :: u32

text \<open>
  The two hash maps and the optional log manager of \<^verbatim>\<open>InMemoryStorage\<close>. The last two
  fields are the outside world: what the next calls of \<^verbatim>\<open>Uuid::new_v4().to_string()\<close> and
  of \<^verbatim>\<open>Utc::now()\<close> return.
\<close>

record storage =
  queues :: "(string, queue_item list) fmap"
  in_flight :: "(string, in_flight_task) fmap"
  wal :: "wal_manager option"
  uuids :: "string stream"
  clock :: "instant stream"

definition new_storage :: "string stream \<Rightarrow> instant stream \<Rightarrow> storage" where
  "new_storage u c = \<lparr>queues = fmempty, in_flight = fmempty, wal = None, uuids = u, clock = c\<rparr>"

text \<open>\<^verbatim>\<open>DateTime::timestamp_millis\<close>.\<close>

definition timestamp_millis :: "instant \<Rightarrow> int" where
  "timestamp_millis t = t div 1000000"

definition queue_not_found :: "string \<Rightarrow> string" where
  "queue_not_found q = ''Queue '' @ quoted q @ '' not found''"

definition dlq_name :: "string \<Rightarrow> string" where
  "dlq_name q = q @ ''_dlq''"

text \<open>
  The block every operation logs with: nothing when there is no log, otherwise an entry with the
  current time is appended.
\<close>

definition log_op :: "codec \<Rightarrow> wal_op \<Rightarrow> storage \<Rightarrow> (string + unit) \<times> storage" where
  "log_op X a s =
     (case wal s of
        None \<Rightarrow> (Inr (), s)
      | Some m \<Rightarrow>
          let entry = \<lparr>entry_op = a, entry_time = timestamp_millis (shd (clock s))\<rparr>;
              (r, m') = wal_append X entry m
          in (r, s\<lparr>wal := Some m', clock := stl (clock s)\<rparr>))"

section \<open>Single operations\<close>

definition create_queue :: "codec \<Rightarrow> string \<Rightarrow> storage \<Rightarrow> unit res \<times> storage" where
  "create_queue X name s =
     (if name |\<in>| fmdom (queues s)
      then (Inl (Err (''Queue '' @ quoted name @ '' already exists'')), s)
      else (case log_op X (CreateQueue name) s of
              (Inl e, s1) \<Rightarrow> (Inl (Err e), s1)
            | (Inr _, s1) \<Rightarrow> (Inr (), s1\<lparr>queues := fmupd name [] (queues s1)\<rparr>)))"

definition queue :: "codec \<Rightarrow> string \<Rightarrow> byte list \<Rightarrow> storage \<Rightarrow> unit res \<times> storage" where
  "queue X qn item s =
     (if qn |\<notin>| fmdom (queues s) then (Inl (Err (queue_not_found qn)), s)
      else (case log_op X (Enqueue qn item) s of
              (Inl e, s1) \<Rightarrow> (Inl (Err e), s1)
            | (Inr _, s1) \<Rightarrow>
                (case fmlookup (queues s1) qn of
                   None \<Rightarrow> (Inl (Err (queue_not_found qn)), s1)
                 | Some q \<Rightarrow>
                     (Inr (), s1\<lparr>queues := fmupd qn (q @ [\<lparr>item_data = item, item_attempts = 0\<rparr>])
                                   (queues s1)\<rparr>))))"

definition dequeue :: "codec \<Rightarrow> string \<Rightarrow> storage \<Rightarrow> in_flight_task option res \<times> storage" where
  "dequeue X qn s =
     (case fmlookup (queues s) qn of
        None \<Rightarrow> (Inl (Err (queue_not_found qn)), s)
      | Some [] \<Rightarrow> (Inr None, s)
      | Some (item # rest) \<Rightarrow>
          let tid = shd (uuids s);
              s1 = s\<lparr>queues := fmupd qn rest (queues s), uuids := stl (uuids s)\<rparr>
          in (case log_op X (Dequeued qn tid) s1 of
                (Inl e, s2) \<Rightarrow> (Inl (Err e), s2\<lparr>queues := fmupd qn (item # rest) (queues s2)\<rparr>)
              | (Inr _, s2) \<Rightarrow>
                  let task = \<lparr>task_id = tid, task_data = item_data item,
                              consumed_at = shd (clock s2), task_queue = qn,
                              task_attempts = item_attempts item + 1\<rparr>
                  in (Inr (Some task),
                      s2\<lparr>clock := stl (clock s2), in_flight := fmupd tid task (in_flight s2)\<rparr>)))"

definition ack :: "codec \<Rightarrow> string \<Rightarrow> storage \<Rightarrow> unit res \<times> storage" where
  "ack X tid s =
     (case fmlookup (in_flight s) tid of
        None \<Rightarrow> (Inl (Err ''Task not found''), s)
      | Some _ \<Rightarrow>
          (case log_op X (Ack tid) (s\<lparr>in_flight := fmdrop tid (in_flight s)\<rparr>) of
             (Inl e, s1) \<Rightarrow> (Inl (Err (''WAL write failed: '' @ e)), s1)
           | (Inr _, s1) \<Rightarrow> (Inr (), s1)))"

text \<open>The second half of \<^verbatim>\<open>nack\<close>: back to the front of its queue, or to the end of the DLQ.\<close>

definition requeue :: "in_flight_task \<Rightarrow> storage \<Rightarrow> unit res \<times> storage" where
  "requeue t s =
     (let item = \<lparr>item_data = task_data t, item_attempts = task_attempts t\<rparr> in
      if 5 \<le> task_attempts t
      then (let d = dlq_name (task_queue t);
                q = (case fmlookup (queues s) d of None \<Rightarrow> [] | Some q \<Rightarrow> q)
            in (Inr (), s\<lparr>queues := fmupd d (q @ [item]) (queues s)\<rparr>))
      else (case fmlookup (queues s) (task_queue t) of
              Some q \<Rightarrow> (Inr (), s\<lparr>queues := fmupd (task_queue t) (item # q) (queues s)\<rparr>)
            | None \<Rightarrow>
                (Inl (Err (''Original queue '' @ quoted (task_queue t) @ '' not found'')), s)))"

definition nack :: "codec \<Rightarrow> string \<Rightarrow> storage \<Rightarrow> unit res \<times> storage" where
  "nack X tid s =
     (case fmlookup (in_flight s) tid of
        None \<Rightarrow> (Inl (Err ''Task not found''), s)
      | Some t \<Rightarrow>
          (case log_op X (Nack tid) (s\<lparr>in_flight := fmdrop tid (in_flight s)\<rparr>) of
             (Inl e, s1) \<Rightarrow> (Inl (Err (''WAL write failed: '' @ e)),
                             s1\<lparr>in_flight := fmupd tid t (in_flight s1)\<rparr>)
           | (Inr _, s1) \<Rightarrow> requeue t s1))"

definition extend_visibility :: "codec \<Rightarrow> string \<Rightarrow> u64 \<Rightarrow> storage \<Rightarrow> unit res \<times> storage" where
  "extend_visibility X tid dur s =
     (case fmlookup (in_flight s) tid of
        None \<Rightarrow> (Inl (Err ''Task not found''), s)
      | Some t \<Rightarrow>
          (case log_op X (ExtendVisibility tid dur) s of
             (Inl e, s1) \<Rightarrow> (Inl (Err e), s1)
           | (Inr _, s1) \<Rightarrow>
               (Inr (), s1\<lparr>in_flight := fmupd tid (t\<lparr>consumed_at := shd (clock s1)\<rparr>) (in_flight s1),
                           clock := stl (clock s1)\<rparr>)))"

section \<open>Expiry\<close>

text \<open>
  A hash map is iterated in an order the code does not control: \<open>K\<close> lists the keys of a map
  in some order, once each.
\<close>

type_synonym key_order = "string fset \<Rightarrow> string list"

definition enumerates :: "key_order \<Rightarrow> bool" where
  "enumerates K \<longleftrightarrow> (\<forall>A. distinct (K A) \<and> set (K A) = fset A)"

text \<open>
  \<^verbatim>\<open>chrono::Duration::seconds(timeout_seconds as i64)\<close> in nanoseconds: the cast reinterprets
  the bits, and the constructor panics when the milliseconds do not fit 64 bits.
\<close>

definition duration_seconds :: "u64 \<Rightarrow> int res" where
  "duration_seconds n =
     (if sint n < - 9223372036854775 \<or> 9223372036854775 < sint n
      then Inl (Panic ''TimeDelta::seconds out of bounds'')
      else Inr (sint n * 1000000000))"

definition scan_expired_tasks :: "key_order \<Rightarrow> u64 \<Rightarrow> storage \<Rightarrow> string list res \<times> storage" where
  "scan_expired_tasks K timeout s =
     (let now = shd (clock s); s1 = s\<lparr>clock := stl (clock s)\<rparr> in
      case duration_seconds timeout of
        Inl p \<Rightarrow> (Inl p, s1)
      | Inr limit \<Rightarrow>
          (Inr (filter (\<lambda>i. case fmlookup (in_flight s) i of
                              None \<Rightarrow> False
                            | Some t \<Rightarrow> limit < now - consumed_at t)
                  (K (fmdom (in_flight s)))), s1))"

fun nack_all :: "codec \<Rightarrow> string list \<Rightarrow> nat \<Rightarrow> storage \<Rightarrow> nat \<times> storage" where
  "nack_all X [] n s = (n, s)"
| "nack_all X (i # ids) n s =
     (case nack X i s of
        (Inr _, s1) \<Rightarrow> nack_all X ids (n + 1) s1
      | (Inl _, s1) \<Rightarrow> nack_all X ids n s1)"

definition cleanup_expired_tasks ::
    "codec \<Rightarrow> key_order \<Rightarrow> u64 \<Rightarrow> storage \<Rightarrow> nat res \<times> storage" where
  "cleanup_expired_tasks X K timeout s =
     (case scan_expired_tasks K timeout s of
        (Inl p, s1) \<Rightarrow> (Inl p, s1)
      | (Inr ids, s1) \<Rightarrow> (case nack_all X ids 0 s1 of (n, s2) \<Rightarrow> (Inr n, s2)))"

section \<open>Statistics\<close>

record stats =
  total_in_flight :: nat
  queue_stats :: "(string, nat \<times> nat) fmap"

definition in_flight_of :: "string \<Rightarrow> (string, in_flight_task) fmap \<Rightarrow> nat" where
  "in_flight_of name m =
     fcard (ffilter (\<lambda>i. case fmlookup m i of None \<Rightarrow> False | Some t \<Rightarrow> task_queue t = name) (fmdom m))"

definition get_stats :: "storage \<Rightarrow> stats res" where
  "get_stats s = Inr
     \<lparr>total_in_flight = fcard (fmdom (in_flight s)),
      queue_stats = fmmap_keys (\<lambda>name q. (length q, in_flight_of name (in_flight s))) (queues s)\<rparr>"

section \<open>Batch operations\<close>

definition queue_batch :: "codec \<Rightarrow> string \<Rightarrow> byte list list \<Rightarrow> storage \<Rightarrow> unit res \<times> storage" where
  "queue_batch X qn items s =
     (if qn |\<notin>| fmdom (queues s) then (Inl (Err (queue_not_found qn)), s)
      else (case log_op X (EnqueueBatch qn items) s of
              (Inl e, s1) \<Rightarrow> (Inl (Err e), s1)
            | (Inr _, s1) \<Rightarrow>
                (case fmlookup (queues s1) qn of
                   None \<Rightarrow> (Inl (Err (queue_not_found qn)), s1)
                 | Some q \<Rightarrow>
                     (Inr (), s1\<lparr>queues := fmupd qn
                        (foldl (\<lambda>q d. q @ [\<lparr>item_data = d, item_attempts = 0\<rparr>]) q items)
                        (queues s1)\<rparr>))))"

text \<open>\<^verbatim>\<open>Vec::with_capacity(n)\<close> panics when the bytes asked for exceed \<^verbatim>\<open>isize::MAX\<close>.\<close>

definition capacity_overflow :: "nat \<Rightarrow> nat \<Rightarrow> bool" where
  "capacity_overflow size_of n \<longleftrightarrow> 2 ^ 63 - 1 < size_of * n"

text \<open>The size of a \<^verbatim>\<open>QueueItem\<close>: a vector (three words) and a counter, aligned to 8 bytes.\<close>

definition queue_item_size :: nat where
  "queue_item_size = 32"

text \<open>At most \<open>n\<close> times \<^verbatim>\<open>pop_front\<close>: the items popped and what is left.\<close>

fun pop_items :: "nat \<Rightarrow> 'a list \<Rightarrow> 'a list \<times> 'a list" where
  "pop_items n [] = ([], [])"
| "pop_items 0 (x # q) = ([], x # q)"
| "pop_items (Suc n) (x # q) = (case pop_items n q of (popped, rest) \<Rightarrow> (x # popped, rest))"

text \<open>The last loop of \<^verbatim>\<open>dequeue_batch\<close>: each item becomes an in-flight task, with its own time.\<close>

fun deliver_items ::
    "string \<Rightarrow> (string \<times> queue_item) list \<Rightarrow> storage \<Rightarrow> in_flight_task list \<times> storage" where
  "deliver_items qn [] s = ([], s)"
| "deliver_items qn ((tid, item) # rest) s =
     (let task = \<lparr>task_id = tid, task_data = item_data item, consumed_at = shd (clock s),
                  task_queue = qn, task_attempts = item_attempts item + 1\<rparr>
      in case deliver_items qn rest
                (s\<lparr>clock := stl (clock s), in_flight := fmupd tid task (in_flight s)\<rparr>) of
           (tasks, s') \<Rightarrow> (task # tasks, s'))"

definition dequeue_batch ::
    "codec \<Rightarrow> string \<Rightarrow> u64 \<Rightarrow> storage \<Rightarrow> in_flight_task list res \<times> storage" where
  "dequeue_batch X qn cnt s =
     (case fmlookup (queues s) qn of
        None \<Rightarrow> (Inl (Err (queue_not_found qn)), s)
      | Some q \<Rightarrow>
          if q = [] then (Inr [], s)
          else if capacity_overflow queue_item_size (unat cnt)
          then (Inl (Panic ''capacity overflow''), s)
          else (case pop_items (unat cnt) q of (popped, rest) \<Rightarrow>
            if popped = [] then (Inr [], s\<lparr>queues := fmupd qn rest (queues s)\<rparr>)
            else
              let n = length popped;
                  ids = stake n (uuids s);
                  s1 = s\<lparr>queues := fmupd qn rest (queues s), uuids := sdrop n (uuids s)\<rparr>
              in (case log_op X (DequeuedBatch qn ids) s1 of
                    (Inl e, s2) \<Rightarrow>
                      (Inl (Err e),
                       s2\<lparr>queues := fmupd qn (foldl (\<lambda>q item. item # q) rest (rev popped)) (queues s2)\<rparr>)
                  | (Inr _, s2) \<Rightarrow>
                      (case deliver_items qn (zip ids popped) s2 of (tasks, s3) \<Rightarrow> (Inr tasks, s3)))))"

fun join_comma :: "string list \<Rightarrow> string" where
  "join_comma [] = []"
| "join_comma [x] = x"
| "join_comma (x # xs) = x @ '', '' @ join_comma xs"

definition ack_batch :: "codec \<Rightarrow> string list \<Rightarrow> storage \<Rightarrow> unit res \<times> storage" where
  "ack_batch X ids s =
     (let missing = filter (\<lambda>i. i |\<notin>| fmdom (in_flight s)) ids in
      if missing \<noteq> [] then (Inl (Err (''Tasks not found: '' @ join_comma missing)), s)
      else (case log_op X (AckBatch ids) s of
              (Inl e, s1) \<Rightarrow> (Inl (Err e), s1)
            | (Inr _, s1) \<Rightarrow> (Inr (), s1\<lparr>in_flight := foldl (\<lambda>m i. fmdrop i m) (in_flight s1) ids\<rparr>)))"

section \<open>Snapshots\<close>

text \<open>A loop that inserts every entry of \<open>src\<close>, in the order of its iteration, into \<open>dst\<close>.\<close>

definition insert_all :: "key_order \<Rightarrow> (string, 'v) fmap \<Rightarrow> (string, 'v) fmap \<Rightarrow> (string, 'v) fmap" where
  "insert_all K src dst =
     foldl (\<lambda>m k. case fmlookup src k of None \<Rightarrow> m | Some v \<Rightarrow> fmupd k v m) dst (K (fmdom src))"

definition get_snapshot_data ::
    "key_order \<Rightarrow> storage \<Rightarrow> (string, queue_item list) fmap \<times> (string, in_flight_task) fmap" where
  "get_snapshot_data K s = (insert_all K (queues s) fmempty, insert_all K (in_flight s) fmempty)"

definition restore_from_snapshot ::
    "key_order \<Rightarrow> (string, queue_item list) fmap \<Rightarrow> (string, in_flight_task) fmap \<Rightarrow> storage \<Rightarrow> storage" where
  "restore_from_snapshot K qs fl s =
     s\<lparr>queues := insert_all K qs fmempty, in_flight := insert_all K fl fmempty\<rparr>"

lemmas storage_ops [op_defs] = create_queue_def queue_def dequeue_def ack_def nack_def
  extend_visibility_def queue_batch_def ack_batch_def

end
