(* ===== verification/Storage_Ops.thy ===== *)
theory Storage_Ops
  imports Storage
begin

text \<open>
  What each storage operation does, branch by branch: one equation per outcome, in terms of the
  result of the log step. The rest of the development reasons with these equations only.
\<close>

section \<open>The log step\<close>

text \<open>Logging touches only the log and the clock, and depends only on them.\<close>

definition wal_step ::
    "codec \<Rightarrow> wal_op \<Rightarrow> wal_manager option \<Rightarrow> instant stream
      \<Rightarrow> (string + unit) \<times> wal_manager option \<times> instant stream" where
  "wal_step X a w c =
     (case w of
        None \<Rightarrow> (Inr (), None, c)
      | Some m \<Rightarrow>
          (case wal_append X \<lparr>entry_op = a, entry_time = timestamp_millis (shd c)\<rparr> m of
             (r, m') \<Rightarrow> (r, Some m', stl c)))"

lemma log_op_step:
  "log_op X a s = (case wal_step X a (wal s) (clock s) of (r, w, c) \<Rightarrow> (r, s\<lparr>wal := w, clock := c\<rparr>))"
  by (simp add: log_op_def wal_step_def Let_def split: option.split prod.split)

lemma wal_step_None [simp]: "wal_step X a None c = (Inr (), None, c)"
  by (simp add: wal_step_def)

lemma wal_step_unit: "wal_step X a w c = (Inr u, w', c') \<longleftrightarrow> wal_step X a w c = (Inr (), w', c')"
  by simp

lemma step_cases:
  obtains (logged) w c where "wal_step X a (wal s) (clock s) = (Inr (), w, c)"
    | (failed) e w c where "wal_step X a (wal s) (clock s) = (Inl e, w, c)"
proof (cases "wal_step X a (wal s) (clock s)")
  case (fields r w c)
  then show thesis using that by (cases r) auto
qed

text \<open>A log that always takes its entries: there is none, or its disk never fails.\<close>

definition log_works :: "codec \<Rightarrow> wal_manager option \<Rightarrow> bool" where
  "log_works X w = (case w of None \<Rightarrow> True | Some m \<Rightarrow> codec_law X \<and> perfect_io m)"

lemma log_works_None [simp]: "log_works X None"
  by (simp add: log_works_def)

lemma log_works_step:
  assumes "log_works X w"
  obtains w' c' where "wal_step X a w c = (Inr (), w', c')" and "log_works X w'"
proof (cases w)
  case None
  then show ?thesis using that by simp
next
  case (Some m)
  obtain r m' where "wal_append X \<lparr>entry_op = a, entry_time = timestamp_millis (shd c)\<rparr> m = (r, m')"
    by fastforce
  with Some assms show ?thesis
    using wal_append_perfect [of X m _ r m'] that by (fastforce simp: log_works_def wal_step_def)
qed

section \<open>Single operations\<close>

lemma create_queue_exists:
  "name |\<in>| fmdom (queues s) \<Longrightarrow>
     create_queue X name s = (Inl (Err (''Queue '' @ quoted name @ '' already exists'')), s)"
  by (simp add: create_queue_def)

lemma create_queue_failed:
  "name |\<notin>| fmdom (queues s) \<Longrightarrow> wal_step X (CreateQueue name) (wal s) (clock s) = (Inl e, w, c) \<Longrightarrow>
     create_queue X name s = (Inl (Err e), s\<lparr>wal := w, clock := c\<rparr>)"
  by (simp add: create_queue_def log_op_step)

lemma create_queue_logged:
  "name |\<notin>| fmdom (queues s) \<Longrightarrow> wal_step X (CreateQueue name) (wal s) (clock s) = (Inr (), w, c) \<Longrightarrow>
     create_queue X name s = (Inr (), s\<lparr>wal := w, clock := c, queues := fmupd name [] (queues s)\<rparr>)"
  by (simp add: create_queue_def log_op_step)

lemma queue_missing:
  "fmlookup (queues s) qn = None \<Longrightarrow> queue X qn d s = (Inl (Err (queue_not_found qn)), s)"
  by (simp add: queue_def fmdom_lookup)

lemma queue_failed:
  "fmlookup (queues s) qn = Some q \<Longrightarrow> wal_step X (Enqueue qn d) (wal s) (clock s) = (Inl e, w, c) \<Longrightarrow>
     queue X qn d s = (Inl (Err e), s\<lparr>wal := w, clock := c\<rparr>)"
  by (simp add: queue_def log_op_step fmdom_lookup)

lemma queue_logged:
  "fmlookup (queues s) qn = Some q \<Longrightarrow> wal_step X (Enqueue qn d) (wal s) (clock s) = (Inr (), w, c) \<Longrightarrow>
     queue X qn d s =
       (Inr (), s\<lparr>wal := w, clock := c,
                  queues := fmupd qn (q @ [\<lparr>item_data = d, item_attempts = 0\<rparr>]) (queues s)\<rparr>)"
  by (simp add: queue_def log_op_step fmdom_lookup)

lemma dequeue_missing:
  "fmlookup (queues s) qn = None \<Longrightarrow> dequeue X qn s = (Inl (Err (queue_not_found qn)), s)"
  by (simp add: dequeue_def)

lemma dequeue_empty: "fmlookup (queues s) qn = Some [] \<Longrightarrow> dequeue X qn s = (Inr None, s)"
  by (simp add: dequeue_def)

text \<open>The task made of a popped item.\<close>

definition task_of :: "string \<Rightarrow> string \<Rightarrow> instant \<Rightarrow> queue_item \<Rightarrow> in_flight_task" where
  "task_of tid qn now item =
     \<lparr>task_id = tid, task_data = item_data item, consumed_at = now, task_queue = qn,
      task_attempts = item_attempts item + 1\<rparr>"

lemma task_of_sel [simp]:
  "task_id (task_of tid qn now item) = tid" "task_data (task_of tid qn now item) = item_data item"
  "consumed_at (task_of tid qn now item) = now" "task_queue (task_of tid qn now item) = qn"
  "task_attempts (task_of tid qn now item) = item_attempts item + 1"
  by (simp_all add: task_of_def)

lemma dequeue_failed:
  "fmlookup (queues s) qn = Some (item # rest) \<Longrightarrow>
   wal_step X (Dequeued qn (shd (uuids s))) (wal s) (clock s) = (Inl e, w, c) \<Longrightarrow>
     dequeue X qn s = (Inl (Err e), s\<lparr>uuids := stl (uuids s), wal := w, clock := c\<rparr>)"
  by (simp add: dequeue_def log_op_step Let_def fmupd_same)

lemma dequeue_logged:
  "fmlookup (queues s) qn = Some (item # rest) \<Longrightarrow>
   wal_step X (Dequeued qn (shd (uuids s))) (wal s) (clock s) = (Inr (), w, c) \<Longrightarrow>
     dequeue X qn s =
       (let task = task_of (shd (uuids s)) qn (shd c) item in
        (Inr (Some task),
         s\<lparr>queues := fmupd qn rest (queues s), uuids := stl (uuids s), wal := w, clock := stl c,
           in_flight := fmupd (task_id task) task (in_flight s)\<rparr>))"
  by (simp add: dequeue_def log_op_step Let_def task_of_def)

lemma ack_missing:
  "fmlookup (in_flight s) i = None \<Longrightarrow> ack X i s = (Inl (Err ''Task not found''), s)"
  by (simp add: ack_def)

lemma ack_failed:
  "fmlookup (in_flight s) i = Some t \<Longrightarrow> wal_step X (Ack i) (wal s) (clock s) = (Inl e, w, c) \<Longrightarrow>
     ack X i s = (Inl (Err (''WAL write failed: '' @ e)),
                  s\<lparr>in_flight := fmdrop i (in_flight s), wal := w, clock := c\<rparr>)"
  by (simp add: ack_def log_op_step)

lemma ack_logged:
  "fmlookup (in_flight s) i = Some t \<Longrightarrow> wal_step X (Ack i) (wal s) (clock s) = (Inr (), w, c) \<Longrightarrow>
     ack X i s = (Inr (), s\<lparr>in_flight := fmdrop i (in_flight s), wal := w, clock := c\<rparr>)"
  by (simp add: ack_def log_op_step)

lemma nack_missing:
  "fmlookup (in_flight s) i = None \<Longrightarrow> nack X i s = (Inl (Err ''Task not found''), s)"
  by (simp add: nack_def)

lemma nack_failed:
  "fmlookup (in_flight s) i = Some t \<Longrightarrow> wal_step X (Nack i) (wal s) (clock s) = (Inl e, w, c) \<Longrightarrow>
     nack X i s = (Inl (Err (''WAL write failed: '' @ e)), s\<lparr>wal := w, clock := c\<rparr>)"
  by (simp add: nack_def log_op_step fmupd_same)

lemma nack_logged:
  "fmlookup (in_flight s) i = Some t \<Longrightarrow> wal_step X (Nack i) (wal s) (clock s) = (Inr (), w, c) \<Longrightarrow>
     nack X i s = requeue t (s\<lparr>in_flight := fmdrop i (in_flight s), wal := w, clock := c\<rparr>)"
  by (simp add: nack_def log_op_step)

text \<open>The queue an undelivered item of \<open>t\<close> goes to, and where in it.\<close>

definition item_of :: "in_flight_task \<Rightarrow> queue_item" where
  "item_of t = \<lparr>item_data = task_data t, item_attempts = task_attempts t\<rparr>"

definition returned :: "in_flight_task \<Rightarrow> (string, queue_item list) fmap \<Rightarrow> (string, queue_item list) fmap" where
  "returned t qs =
     (if 5 \<le> task_attempts t
      then let d = dlq_name (task_queue t) in
           fmupd d ((case fmlookup qs d of None \<Rightarrow> [] | Some q \<Rightarrow> q) @ [item_of t]) qs
      else (case fmlookup qs (task_queue t) of
              None \<Rightarrow> qs
            | Some q \<Rightarrow> fmupd (task_queue t) (item_of t # q) qs))"

lemma requeue_queues: "snd (requeue t s) = s\<lparr>queues := returned t (queues s)\<rparr>"
  by (simp add: requeue_def returned_def item_of_def Let_def split: option.split)

lemma requeue_result:
  "fst (requeue t s) =
     (if 5 \<le> task_attempts t \<or> task_queue t |\<in>| fmdom (queues s) then Inr ()
      else Inl (Err (''Original queue '' @ quoted (task_queue t) @ '' not found'')))"
  by (auto simp: requeue_def Let_def fmdom_lookup split: option.split)

lemma requeue_eq:
  "task_queue t |\<in>| fmdom (queues s) \<Longrightarrow> requeue t s = (Inr (), s\<lparr>queues := returned t (queues s)\<rparr>)"
  by (simp add: prod_eq_iff requeue_queues requeue_result)

lemma extend_missing:
  "fmlookup (in_flight s) i = None \<Longrightarrow> extend_visibility X i n s = (Inl (Err ''Task not found''), s)"
  by (simp add: extend_visibility_def)

lemma extend_failed:
  "fmlookup (in_flight s) i = Some t \<Longrightarrow>
   wal_step X (ExtendVisibility i n) (wal s) (clock s) = (Inl e, w, c) \<Longrightarrow>
     extend_visibility X i n s = (Inl (Err e), s\<lparr>wal := w, clock := c\<rparr>)"
  by (simp add: extend_visibility_def log_op_step)

lemma extend_logged:
  "fmlookup (in_flight s) i = Some t \<Longrightarrow>
   wal_step X (ExtendVisibility i n) (wal s) (clock s) = (Inr (), w, c) \<Longrightarrow>
     extend_visibility X i n s =
       (Inr (), s\<lparr>wal := w, in_flight := fmupd i (t\<lparr>consumed_at := shd c\<rparr>) (in_flight s),
                  clock := stl c\<rparr>)"
  by (simp add: extend_visibility_def log_op_step)

section \<open>Batch operations\<close>

lemma queue_batch_missing:
  "fmlookup (queues s) qn = None \<Longrightarrow> queue_batch X qn ds s = (Inl (Err (queue_not_found qn)), s)"
  by (simp add: queue_batch_def fmdom_lookup)

lemma queue_batch_failed:
  "fmlookup (queues s) qn = Some q \<Longrightarrow>
   wal_step X (EnqueueBatch qn ds) (wal s) (clock s) = (Inl e, w, c) \<Longrightarrow>
     queue_batch X qn ds s = (Inl (Err e), s\<lparr>wal := w, clock := c\<rparr>)"
  by (simp add: queue_batch_def log_op_step fmdom_lookup)

definition fresh_item :: "byte list \<Rightarrow> queue_item" where
  "fresh_item d = \<lparr>item_data = d, item_attempts = 0\<rparr>"

lemma push_all: "foldl (\<lambda>q d. q @ [\<lparr>item_data = d, item_attempts = 0\<rparr>]) q ds = q @ map fresh_item ds"
  by (induction ds arbitrary: q) (simp_all add: fresh_item_def)

lemma queue_batch_logged:
  "fmlookup (queues s) qn = Some q \<Longrightarrow>
   wal_step X (EnqueueBatch qn ds) (wal s) (clock s) = (Inr (), w, c) \<Longrightarrow>
     queue_batch X qn ds s =
       (Inr (), s\<lparr>wal := w, clock := c, queues := fmupd qn (q @ map fresh_item ds) (queues s)\<rparr>)"
  by (simp add: queue_batch_def log_op_step fmdom_lookup push_all)

lemma pop_items_eq: "pop_items n q = (take n q, drop n q)"
  by (induction n q rule: pop_items.induct) simp_all

lemma push_front_all: "foldl (\<lambda>q x. x # q) rest (rev popped) = popped @ rest"
  by (induction popped) simp_all

text \<open>The tasks a batch makes, with the clock readings they take, and the maps they go into.\<close>

fun tasks_of :: "string \<Rightarrow> (string \<times> queue_item) list \<Rightarrow> instant stream \<Rightarrow> in_flight_task list" where
  "tasks_of qn [] c = []"
| "tasks_of qn ((tid, item) # rest) c = task_of tid qn (shd c) item # tasks_of qn rest (stl c)"

definition insert_tasks ::
    "in_flight_task list \<Rightarrow> (string, in_flight_task) fmap \<Rightarrow> (string, in_flight_task) fmap" where
  "insert_tasks ts m = foldl (\<lambda>m t. fmupd (task_id t) t m) m ts"

lemma insert_tasks_simps [simp]:
  "insert_tasks [] m = m" "insert_tasks (t # ts) m = insert_tasks ts (fmupd (task_id t) t m)"
  by (simp_all add: insert_tasks_def)

lemma deliver_items_eq:
  "deliver_items qn ps s =
     (tasks_of qn ps (clock s),
      s\<lparr>clock := sdrop (length ps) (clock s),
        in_flight := insert_tasks (tasks_of qn ps (clock s)) (in_flight s)\<rparr>)"
  by (induction qn ps s rule: deliver_items.induct)
    (simp_all add: Let_def task_of_def split: prod.split)

lemma dequeue_batch_missing:
  "fmlookup (queues s) qn = None \<Longrightarrow> dequeue_batch X qn n s = (Inl (Err (queue_not_found qn)), s)"
  by (simp add: dequeue_batch_def)

lemma dequeue_batch_empty: "fmlookup (queues s) qn = Some [] \<Longrightarrow> dequeue_batch X qn n s = (Inr [], s)"
  by (simp add: dequeue_batch_def)

lemma dequeue_batch_overflow:
  "fmlookup (queues s) qn = Some q \<Longrightarrow> q \<noteq> [] \<Longrightarrow> capacity_overflow queue_item_size (unat n) \<Longrightarrow>
     dequeue_batch X qn n s = (Inl (Panic ''capacity overflow''), s)"
  by (simp add: dequeue_batch_def)

lemma dequeue_batch_zero:
  "fmlookup (queues s) qn = Some q \<Longrightarrow> q \<noteq> [] \<Longrightarrow> unat n = 0 \<Longrightarrow> dequeue_batch X qn n s = (Inr [], s)"
  by (simp add: dequeue_batch_def capacity_overflow_def pop_items_eq fmupd_same)

abbreviation batch_ids :: "storage \<Rightarrow> nat \<Rightarrow> queue_item list \<Rightarrow> string list" where
  "batch_ids s n q \<equiv> stake (min (length q) n) (uuids s)"

lemma dequeue_batch_failed:
  assumes "fmlookup (queues s) qn = Some q" "q \<noteq> []" "\<not> capacity_overflow queue_item_size (unat n)"
    "unat n \<noteq> 0"
    and "wal_step X (DequeuedBatch qn (batch_ids s (unat n) q)) (wal s) (clock s) = (Inl e, w, c)"
  shows "dequeue_batch X qn n s =
    (Inl (Err e), s\<lparr>uuids := sdrop (min (length q) (unat n)) (uuids s), wal := w, clock := c\<rparr>)"
  using assms
  by (simp add: dequeue_batch_def pop_items_eq Let_def log_op_step push_front_all fmupd_same)

lemma dequeue_batch_logged:
  assumes "fmlookup (queues s) qn = Some q" "q \<noteq> []" "\<not> capacity_overflow queue_item_size (unat n)"
    "unat n \<noteq> 0"
    and "wal_step X (DequeuedBatch qn (batch_ids s (unat n) q)) (wal s) (clock s) = (Inr (), w, c)"
  shows "dequeue_batch X qn n s =
    (let k = min (length q) (unat n); ts = tasks_of qn (zip (stake k (uuids s)) (take k q)) c in
     (Inr ts, s\<lparr>queues := fmupd qn (drop k q) (queues s), uuids := sdrop k (uuids s), wal := w,
                clock := sdrop k c, in_flight := insert_tasks ts (in_flight s)\<rparr>))"
proof -
  have "take (min (length q) (unat n)) q = take (unat n) q"
    "drop (min (length q) (unat n)) q = drop (unat n) q"
    by (cases "length q \<le> unat n"; simp add: min_def)+
  then show ?thesis
    using assms by (simp add: dequeue_batch_def pop_items_eq Let_def log_op_step deliver_items_eq min.commute)
qed

definition missing_tasks :: "string list \<Rightarrow> storage \<Rightarrow> string list" where
  "missing_tasks ids s = filter (\<lambda>i. i |\<notin>| fmdom (in_flight s)) ids"

definition drop_all :: "'k list \<Rightarrow> ('k, 'v) fmap \<Rightarrow> ('k, 'v) fmap" where
  "drop_all ids m = foldl (\<lambda>m i. fmdrop i m) m ids"

lemma drop_all_lookup [simp]:
  "fmlookup (drop_all ids m) k = (if k \<in> set ids then None else fmlookup m k)"
  unfolding drop_all_def by (induction ids arbitrary: m) auto

lemma drop_all_simps [simp]:
  "drop_all [] m = m" "drop_all (i # ids) m = drop_all ids (fmdrop i m)"
  by (simp_all add: drop_all_def)

lemma drop_all_drop: "drop_all ids (fmdrop i m) = fmdrop i (drop_all ids m)"
  by (rule fmap_ext) simp

lemma ack_batch_missing:
  "missing_tasks ids s \<noteq> [] \<Longrightarrow>
     ack_batch X ids s = (Inl (Err (''Tasks not found: '' @ join_comma (missing_tasks ids s))), s)"
  by (simp add: ack_batch_def missing_tasks_def)

lemma ack_batch_failed:
  "missing_tasks ids s = [] \<Longrightarrow> wal_step X (AckBatch ids) (wal s) (clock s) = (Inl e, w, c) \<Longrightarrow>
     ack_batch X ids s = (Inl (Err e), s\<lparr>wal := w, clock := c\<rparr>)"
  by (simp add: ack_batch_def missing_tasks_def log_op_step)

lemma ack_batch_logged:
  "missing_tasks ids s = [] \<Longrightarrow> wal_step X (AckBatch ids) (wal s) (clock s) = (Inr (), w, c) \<Longrightarrow>
     ack_batch X ids s =
       (Inr (), s\<lparr>wal := w, clock := c, in_flight := drop_all ids (in_flight s)\<rparr>)"
  by (simp add: ack_batch_def missing_tasks_def log_op_step drop_all_def)

lemma missing_tasks_Nil: "missing_tasks ids s = [] \<longleftrightarrow> set ids \<subseteq> fset (fmdom (in_flight s))"
  by (auto simp: missing_tasks_def filter_empty_conv)

text \<open>The equations by operation, for proofs that go through all branches.\<close>

lemmas create_queue_eqs = create_queue_exists create_queue_failed create_queue_logged
lemmas queue_eqs = queue_missing queue_failed queue_logged
lemmas dequeue_eqs = dequeue_missing dequeue_empty dequeue_failed dequeue_logged
lemmas ack_eqs = ack_missing ack_failed ack_logged
lemmas nack_eqs = nack_missing nack_failed nack_logged
lemmas extend_eqs = extend_missing extend_failed extend_logged
lemmas queue_batch_eqs = queue_batch_missing queue_batch_failed queue_batch_logged
lemmas ack_batch_eqs = ack_batch_missing ack_batch_failed ack_batch_logged

end
