(* ===== verification/Ox_Machines.thy ===== *)
theory Ox_Machines
  imports Ox_Prelude
begin

text \<open>
  Interfaces of state machines, proved once and interpreted on the components: a machine with an
  invariant, a machine that neither creates nor loses what it holds except through its calls, and
  a machine whose state is the replay of the operations it has logged.
\<close>

section \<open>Runs and invariants\<close>

text \<open>The state after a list of calls, left to right.\<close>

fun run :: "('c \<Rightarrow> 's \<Rightarrow> 's) \<Rightarrow> 'c list \<Rightarrow> 's \<Rightarrow> 's" where
  "run step [] s = s"
| "run step (c # cs) s = run step cs (step c s)"

lemma run_append: "run step (cs @ ds) s = run step ds (run step cs s)"
  by (induction cs arbitrary: s) simp_all

locale machine =
  fixes step :: "'c \<Rightarrow> 's \<Rightarrow> 's"
    and inv :: "'s \<Rightarrow> bool"
  assumes inv_step: "inv s \<Longrightarrow> inv (step c s)"
begin

lemma inv_run: "inv s \<Longrightarrow> inv (run step cs s)"
  by (induction cs arbitrary: s) (simp_all add: inv_step)

lemma inv_everywhere: "inv s \<Longrightarrow> cs = ds @ es \<Longrightarrow> inv (run step ds s)"
  by (simp add: inv_run)

end

section \<open>Refinement\<close>

text \<open>A machine each of whose steps is simulated by a step of an abstract one.\<close>

locale refinement =
  fixes step :: "'c \<Rightarrow> 's \<Rightarrow> 's"
    and spec :: "'c \<Rightarrow> 'a \<Rightarrow> 'a"
    and rel :: "'s \<Rightarrow> 'a \<Rightarrow> bool"
  assumes simulates: "rel s a \<Longrightarrow> rel (step c s) (spec c a)"
begin

lemma run_refines: "rel s a \<Longrightarrow> rel (run step cs s) (run spec cs a)"
  by (induction cs arbitrary: s a) (simp_all add: simulates)

end

section \<open>Accounting\<close>

text \<open>What a run takes in and lets out: the sum of what each call does in the state it meets.\<close>

fun total :: "('c \<Rightarrow> 's \<Rightarrow> 's) \<Rightarrow> ('c \<Rightarrow> 's \<Rightarrow> 'm::comm_monoid_add) \<Rightarrow> 'c list \<Rightarrow> 's \<Rightarrow> 'm" where
  "total step f [] s = 0"
| "total step f (c # cs) s = f c s + total step f cs (step c s)"

locale accounted = machine step inv
  for step :: "'c \<Rightarrow> 's \<Rightarrow> 's" and inv :: "'s \<Rightarrow> bool" +
  fixes held :: "'s \<Rightarrow> 'm::cancel_comm_monoid_add"
    and taken :: "'c \<Rightarrow> 's \<Rightarrow> 'm"
    and let_out :: "'c \<Rightarrow> 's \<Rightarrow> 'm"
  assumes balance: "inv s \<Longrightarrow> held (step c s) + let_out c s = held s + taken c s"
begin

lemma run_balance:
  "inv s \<Longrightarrow> held (run step cs s) + total step let_out cs s = held s + total step taken cs s"
proof (induction cs arbitrary: s)
  case Nil
  then show ?case by simp
next
  case (Cons c cs)
  let ?s1 = "step c s" and ?o = "let_out c s" and ?t = "taken c s"
  let ?O = "total step let_out cs ?s1" and ?T = "total step taken cs ?s1"
  have IH: "held (run step cs ?s1) + ?O = held ?s1 + ?T"
    using Cons.IH Cons.prems inv_step by blast
  have "held (run step cs ?s1) + (?o + ?O) = (held (run step cs ?s1) + ?O) + ?o"
    by (simp add: ac_simps)
  also have "\<dots> = (held ?s1 + ?T) + ?o" by (simp only: IH)
  also have "\<dots> = (held ?s1 + ?o) + ?T" by (simp add: ac_simps)
  also have "\<dots> = (held s + ?t) + ?T" by (simp only: balance [OF Cons.prems])
  also have "\<dots> = held s + (?t + ?T)" by (simp add: ac_simps)
  finally show ?case by simp
qed

end

section \<open>Channels\<close>

text \<open>The sequence of what each call of a run moves, in the order of the calls.\<close>

fun flow :: "('c \<Rightarrow> 's \<Rightarrow> 's) \<Rightarrow> ('c \<Rightarrow> 's \<Rightarrow> 'x list) \<Rightarrow> 'c list \<Rightarrow> 's \<Rightarrow> 'x list" where
  "flow step f [] s = []"
| "flow step f (c # cs) s = f c s @ flow step f cs (step c s)"

text \<open>
  A first-in first-out channel: under the permitted calls, what leaves comes off the front of the
  content and what enters goes to its end.
\<close>

locale channel =
  fixes step :: "'c \<Rightarrow> 's \<Rightarrow> 's"
    and permitted :: "'c \<Rightarrow> bool"
    and inv :: "'s \<Rightarrow> bool"
    and content :: "'s \<Rightarrow> 'x list"
    and entering :: "'c \<Rightarrow> 's \<Rightarrow> 'x list"
    and leaving :: "'c \<Rightarrow> 's \<Rightarrow> 'x list"
  assumes keep: "permitted c \<Longrightarrow> inv s \<Longrightarrow> inv (step c s)"
    and pass: "permitted c \<Longrightarrow> inv s \<Longrightarrow> leaving c s @ content (step c s) = content s @ entering c s"
begin

lemma run_pass:
  "\<forall>c\<in>set cs. permitted c \<Longrightarrow> inv s \<Longrightarrow>
     flow step leaving cs s @ content (run step cs s) = content s @ flow step entering cs s"
proof (induction cs arbitrary: s)
  case Nil
  then show ?case by simp
next
  case (Cons c cs)
  have "flow step leaving (c # cs) s @ content (run step (c # cs) s)
      = leaving c s @ content (step c s) @ flow step entering cs (step c s)"
    using Cons keep by simp
  also have "\<dots> = (leaving c s @ content (step c s)) @ flow step entering cs (step c s)" by simp
  also have "leaving c s @ content (step c s) = content s @ entering c s"
    using Cons.prems by (simp add: pass)
  finally show ?case by simp
qed

end

section \<open>Progress\<close>

text \<open>
  A machine that cannot get stuck: until it is done, some helpful call brings it closer to its end.
\<close>

locale progressing =
  fixes step :: "'c \<Rightarrow> 's \<Rightarrow> 's"
    and inv :: "'s \<Rightarrow> bool"
    and finished :: "'s \<Rightarrow> bool"
    and helpful :: "'c \<Rightarrow> bool"
    and closer :: "('s \<times> 's) set"
  assumes wf_closer: "wf closer"
    and progress: "inv s \<Longrightarrow> \<not> finished s \<Longrightarrow>
      \<exists>c. helpful c \<and> inv (step c s) \<and> (step c s, s) \<in> closer"
begin

lemma can_finish: "inv s \<Longrightarrow> \<exists>cs. list_all helpful cs \<and> finished (run step cs s)"
  using wf_closer
proof (induction s rule: wf_induct_rule)
  case (less s)
  show ?case
  proof (cases "finished s")
    case True
    then show ?thesis by (intro exI [of _ "[]"]) simp
  next
    case False
    then obtain c where c: "helpful c" "inv (step c s)" "(step c s, s) \<in> closer"
      using progress less.prems by blast
    then obtain cs where "list_all helpful cs" "finished (run step cs (step c s))"
      using less.IH by blast
    with c(1) show ?thesis by (intro exI [of _ "c # cs"]) simp
  qed
qed

end

text \<open>
  If every helpful call that does anything brings the machine closer to its end, it needs no guidance:
  a fair schedule, in which every helpful call comes up again and again, ends it.
\<close>

definition fair :: "('c \<Rightarrow> bool) \<Rightarrow> (nat \<Rightarrow> 'c) \<Rightarrow> bool" where
  "fair helpful f \<longleftrightarrow> (\<forall>n. helpful (f n)) \<and> (\<forall>c n. helpful c \<longrightarrow> (\<exists>m\<ge>n. f m = c))"

locale fairly_progressing = progressing step inv finished helpful closer
  for step :: "'c \<Rightarrow> 's \<Rightarrow> 's" and inv finished helpful closer +
  assumes helpful_step: "inv s \<Longrightarrow> helpful c \<Longrightarrow>
    step c s = s \<or> inv (step c s) \<and> (step c s, s) \<in> closer"
begin

lemma fair_tail: "fair helpful f \<Longrightarrow> fair helpful (\<lambda>n. f (n + k))"
  unfolding fair_def
proof (intro conjI allI impI)
  fix c n
  assume "(\<forall>n. helpful (f n)) \<and> (\<forall>c n. helpful c \<longrightarrow> (\<exists>m\<ge>n. f m = c))" and "helpful c"
  then obtain m where "n + k \<le> m" "f m = c" by blast
  then show "\<exists>m\<ge>n. f (m + k) = c" by (intro exI [of _ "m - k"]) simp
qed simp

lemma map_upt_split: "map f [0..<a + n] = map f [0..<a] @ map (\<lambda>m. f (m + a)) [0..<n]"
  by (induction n) (simp_all add: add.commute)

lemma fair_finishes: "inv s \<Longrightarrow> fair helpful f \<Longrightarrow> \<exists>n. finished (run step (map f [0..<n]) s)"
  using wf_closer
proof (induction s arbitrary: f rule: wf_induct_rule)
  case (less s)
  show ?case
  proof (cases "finished s")
    case True
    then show ?thesis by (intro exI [of _ 0]) simp
  next
    case False
    then obtain c where c: "helpful c" "(step c s, s) \<in> closer" using progress less.prems(1) by blast
    have "(s, s) \<notin> closer" using wf_closer by auto
    then have moves: "\<exists>m. step (f m) s \<noteq> s" using c less.prems(2) by (metis fair_def order_refl)
    define k where "k = (LEAST m. step (f m) s \<noteq> s)"
    have k: "step (f k) s \<noteq> s" and before: "\<And>m. m < k \<Longrightarrow> step (f m) s = s"
      using LeastI_ex [OF moves] not_less_Least by (auto simp: k_def)
    have same: "m \<le> k \<Longrightarrow> run step (map f [0..<m]) s = s" for m
      by (induction m) (simp_all add: run_append before)
    have start: "run step (map f [0..<Suc k]) s = step (f k) s" by (simp add: run_append same)
    have "helpful (f k)" using less.prems(2) by (simp add: fair_def)
    then have "inv (step (f k) s)" "(step (f k) s, s) \<in> closer"
      using helpful_step [OF less.prems(1)] k by auto
    then obtain n where "finished (run step (map (\<lambda>m. f (m + Suc k)) [0..<n]) (step (f k) s))"
      using less.IH fair_tail [OF less.prems(2)] by blast
    then show ?thesis
      using start by (intro exI [of _ "Suc k + n"]) (simp only: map_upt_split run_append)
  qed
qed

end

section \<open>Operation logs\<close>

text \<open>
  \<open>commits v as v'\<close>: from \<open>v\<close>, committing the operations \<open>as\<close> in order leads to
  \<open>v'\<close>, where each is enabled when it is committed and where, between commits, the state may
  be \<open>weaken\<close>ed.
\<close>

inductive commits ::
    "('a \<Rightarrow> 'v \<Rightarrow> 'v) \<Rightarrow> ('a \<Rightarrow> 'v \<Rightarrow> bool) \<Rightarrow> ('v \<Rightarrow> 'v \<Rightarrow> bool) \<Rightarrow> 'v \<Rightarrow> 'a list \<Rightarrow> 'v \<Rightarrow> bool"
  for perform enabled weaken where
  commits_nil: "commits perform enabled weaken v [] v"
| commits_op: "commits perform enabled weaken v as v' \<Longrightarrow> enabled a v' \<Longrightarrow>
     commits perform enabled weaken v (as @ [a]) (perform a v')"
| commits_weaken: "commits perform enabled weaken v as v' \<Longrightarrow> weaken v' v'' \<Longrightarrow>
     commits perform enabled weaken v as v''"

lemma commits_one:
  "enabled a v \<Longrightarrow> commits perform enabled weaken v [a] (perform a v)"
  using commits_op [OF commits_nil, of enabled a v perform weaken] by simp

lemma commits_drop: "weaken v v' \<Longrightarrow> commits perform enabled weaken v [] v'"
  by (rule commits_weaken [OF commits_nil])

lemma commits_trans:
  assumes "commits perform enabled weaken v' bs v''"
  shows "commits perform enabled weaken v as v' \<Longrightarrow> commits perform enabled weaken v (as @ bs) v''"
  using assms
proof (induction rule: commits.induct)
  case (commits_nil u)
  then show ?case by simp
next
  case (commits_op u cs u' a)
  then show ?case
    using commits.commits_op [of perform enabled weaken v "as @ cs" u' a] by simp
next
  case (commits_weaken u cs u' u'')
  then show ?case using commits.commits_weaken by metis
qed

text \<open>
  An operation log whose replay, from related states, stays related to the state that wrote it.
\<close>

locale op_log =
  fixes perform :: "'a \<Rightarrow> 'v \<Rightarrow> 'v"
    and enabled :: "'a \<Rightarrow> 'v \<Rightarrow> bool"
    and weaken :: "'v \<Rightarrow> 'v \<Rightarrow> bool"
    and rel :: "'v \<Rightarrow> 'v \<Rightarrow> bool"
  assumes rel_perform: "rel v w \<Longrightarrow> enabled a v \<Longrightarrow> rel (perform a v) (perform a w)"
    and rel_weaken: "rel v w \<Longrightarrow> weaken v v' \<Longrightarrow> rel v' w"
begin

lemma commits_replay:
  assumes "commits perform enabled weaken v as v'"
  shows "rel v w \<Longrightarrow> rel v' (fold perform as w)"
  using assms
proof (induction rule: commits.induct)
  case (commits_nil u)
  then show ?case by simp
next
  case (commits_op u as u' a)
  then show ?case by (simp add: rel_perform)
next
  case (commits_weaken u as u' u'')
  then show ?case by (blast intro: rel_weaken)
qed

end

end
