(* ===== verification/Storage_Inv.thy ===== *)
theory Storage_Inv
  imports Storage_Ops Ox_Machines
begin

text \<open>
  The storage as a machine: the calls of the \<^verbatim>\<open>Storage\<close> trait
  (\<^verbatim>\<open>src/storage/mod.rs\<close>), the invariant every call keeps, and the account of the
  message payloads the storage holds. Both machine interfaces of \<open>Ox_Machines\<close> are
  interpreted here on the storage.
\<close>

section \<open>The calls of the trait\<close>

datatype call =
    Create_queue string
  | Queue string "byte list"
  | Dequeue_one string
  | Ack_one string
  | Nack_one string
  | Extend_visibility string u64
  | Cleanup_expired_tasks u64
  | Get_stats
  | Queue_batch string "byte list list"
  | Dequeue_batch string u64
  | Ack_batch "string list"

datatype reply =
    Done "unit res"
  | Delivered "in_flight_task option res"
  | Delivered_batch "in_flight_task list res"
  | Cleaned "nat res"
  | Reported "stats res"

fun perform :: "codec \<Rightarrow> key_order \<Rightarrow> call \<Rightarrow> storage \<Rightarrow> reply \<times> storage" where
  "perform X K (Create_queue n) s = map_prod Done id (create_queue X n s)"
| "perform X K (Queue q d) s = map_prod Done id (queue X q d s)"
| "perform X K (Dequeue_one q) s = map_prod Delivered id (dequeue X q s)"
| "perform X K (Ack_one i) s = map_prod Done id (ack X i s)"
| "perform X K (Nack_one i) s = map_prod Done id (nack X i s)"
| "perform X K (Extend_visibility i n) s = map_prod Done id (extend_visibility X i n s)"
| "perform X K (Cleanup_expired_tasks n) s = map_prod Cleaned id (cleanup_expired_tasks X K n s)"
| "perform X K Get_stats s = (Reported (get_stats s), s)"
| "perform X K (Queue_batch q ds) s = map_prod Done id (queue_batch X q ds s)"
| "perform X K (Dequeue_batch q n) s = map_prod Delivered_batch id (dequeue_batch X q n s)"
| "perform X K (Ack_batch is) s = map_prod Done id (ack_batch X is s)"

abbreviation after :: "codec \<Rightarrow> key_order \<Rightarrow> call \<Rightarrow> storage \<Rightarrow> storage" where
  "after X K c s \<equiv> snd (perform X K c s)"

section \<open>Well-formed storages\<close>

text \<open>
  A task is stored under its own identifier and belongs to an existing queue, and the identifiers
  still to be generated are new and never repeat.
\<close>

definition flights_ok :: "(string, queue_item list) fmap \<Rightarrow> (string, in_flight_task) fmap \<Rightarrow> bool" where
  "flights_ok qs fl \<longleftrightarrow>
     (\<forall>i t. fmlookup fl i = Some t \<longrightarrow> task_id t = i \<and> task_queue t |\<in>| fmdom qs)"

definition ids_ok :: "string stream \<Rightarrow> (string, in_flight_task) fmap \<Rightarrow> bool" where
  "ids_ok u fl \<longleftrightarrow> unrepeated u \<and> sset u \<inter> fset (fmdom fl) = {}"

definition well_formed :: "storage \<Rightarrow> bool" where
  "well_formed s \<longleftrightarrow> flights_ok (queues s) (in_flight s) \<and> ids_ok (uuids s) (in_flight s)"

lemma flights_ok_mono:
  assumes "flights_ok qs fl" and "fmdom qs |\<subseteq>| fmdom qs'"
    and "\<And>i t. fmlookup fl' i = Some t \<Longrightarrow> fmlookup fl i = Some t"
  shows "flights_ok qs' fl'"
  using assms unfolding flights_ok_def by blast

lemma flights_ok_insert:
  "flights_ok qs fl \<Longrightarrow> task_queue t |\<in>| fmdom qs \<Longrightarrow> flights_ok qs (fmupd (task_id t) t fl)"
  by (auto simp: flights_ok_def)

lemma flights_ok_drop: "flights_ok qs fl \<Longrightarrow> flights_ok qs (fmdrop i fl)"
  by (auto simp: flights_ok_def)

lemma flights_ok_upd: "flights_ok qs fl \<Longrightarrow> flights_ok (fmupd q xs qs) fl"
  by (auto simp: flights_ok_def)

lemma ids_ok_drop: "ids_ok u fl \<Longrightarrow> ids_ok u (fmdrop i fl)"
  by (auto simp: ids_ok_def)

lemma ids_ok_replace: "ids_ok u fl \<Longrightarrow> i |\<in>| fmdom fl \<Longrightarrow> ids_ok u (fmupd i t fl)"
  by (auto simp: ids_ok_def)

lemma ids_ok_stl: "ids_ok u fl \<Longrightarrow> ids_ok (stl u) fl"
  by (auto simp: ids_ok_def intro: unrepeated_stl dest!: sset_stl_subset)

lemma ids_ok_next: "ids_ok u fl \<Longrightarrow> ids_ok (stl u) (fmupd (shd u) t fl)"
  using ids_ok_stl [of u fl] unrepeated_shd [of u] by (auto simp: ids_ok_def)

lemma ids_ok_fresh: "ids_ok u fl \<Longrightarrow> fmlookup fl (shd u) = None"
  using shd_sset [of u] by (auto simp: ids_ok_def fmdom_lookup)

lemma well_formedD:
  assumes "well_formed s"
  shows "flights_ok (queues s) (in_flight s)" and "ids_ok (uuids s) (in_flight s)"
  using assms by (simp_all add: well_formed_def)

lemma well_formed_task:
  assumes "well_formed s" and "fmlookup (in_flight s) i = Some t"
  shows "task_id t = i" and "task_queue t |\<in>| fmdom (queues s)"
  using assms by (auto simp: well_formed_def flights_ok_def)

text \<open>The log and the clock are irrelevant to it.\<close>

lemma well_formed_world [simp]:
  "well_formed (s\<lparr>wal := w\<rparr>) = well_formed s" "well_formed (s\<lparr>clock := c\<rparr>) = well_formed s"
  by (simp_all add: well_formed_def)

lemma well_formed_new: "unrepeated u \<Longrightarrow> well_formed (new_storage u c)"
  by (simp add: well_formed_def new_storage_def flights_ok_def ids_ok_def)

section \<open>Every operation keeps a storage well-formed\<close>

lemma wf_create_queue: "well_formed s \<Longrightarrow> well_formed (snd (create_queue X n s))"
  by (cases X "CreateQueue n" s rule: step_cases; cases "n |\<in>| fmdom (queues s)")
    (simp_all add: create_queue_eqs, simp_all add: well_formed_def flights_ok_upd)

lemma wf_queue: "well_formed s \<Longrightarrow> well_formed (snd (queue X q d s))"
  by (cases X "Enqueue q d" s rule: step_cases; cases "fmlookup (queues s) q")
    (simp_all add: queue_eqs, simp_all add: well_formed_def flights_ok_upd)

lemma wf_dequeue:
  assumes "well_formed s" shows "well_formed (snd (dequeue X q s))"
proof (cases "fmlookup (queues s) q")
  case None
  with assms show ?thesis by (simp add: dequeue_missing)
next
  case (Some xs)
  show ?thesis
  proof (cases xs)
    case Nil
    with assms Some show ?thesis by (simp add: dequeue_empty)
  next
    case (Cons item rest)
    have q: "q |\<in>| fmdom (queues s)" using Some by (simp add: fmdom_lookup)
    show ?thesis
      using Some Cons well_formedD [OF assms] q flights_ok_insert [of "fmupd q rest (queues s)" "in_flight s"
          "task_of (shd (uuids s)) q _ item"]
      by (cases X "Dequeued q (shd (uuids s))" s rule: step_cases)
        (simp_all add: dequeue_eqs Let_def well_formed_def flights_ok_upd ids_ok_next ids_ok_stl)
  qed
qed

lemma wf_ack: "well_formed s \<Longrightarrow> well_formed (snd (ack X i s))"
  by (cases X "Ack i" s rule: step_cases; cases "fmlookup (in_flight s) i")
    (simp_all add: ack_eqs, simp_all add: well_formed_def flights_ok_drop ids_ok_drop)

lemma fmdom_returned:
  "fmdom qs |\<subseteq>| fmdom (returned t qs)"
  by (auto simp: returned_def Let_def split: option.split)

lemma wf_returned:
  assumes "well_formed s"
  shows "well_formed (s\<lparr>in_flight := fmdrop i (in_flight s), queues := returned t (queues s)\<rparr>)"
proof -
  have "flights_ok (returned t (queues s)) (in_flight s)"
    by (rule flights_ok_mono [OF well_formedD(1) [OF assms] fmdom_returned])
  then show ?thesis
    using well_formedD [OF assms] by (simp add: well_formed_def flights_ok_drop ids_ok_drop)
qed

lemma nack_logged_eq:
  assumes "well_formed s" and "fmlookup (in_flight s) i = Some t"
    and "wal_step X (Nack i) (wal s) (clock s) = (Inr (), w, c)"
  shows "nack X i s = (Inr (), s\<lparr>in_flight := fmdrop i (in_flight s), queues := returned t (queues s),
                                wal := w, clock := c\<rparr>)"
  using well_formed_task(2) [OF assms(1,2)] assms(2,3)
  by (simp add: nack_logged requeue_eq)

lemma wf_nack:
  assumes "well_formed s" shows "well_formed (snd (nack X i s))"
proof (cases "fmlookup (in_flight s) i")
  case None
  with assms show ?thesis by (simp add: nack_missing)
next
  case (Some t)
  then show ?thesis
    using assms wf_returned [OF assms, where i = i and t = t]
    by (cases X "Nack i" s rule: step_cases) (simp_all add: nack_failed nack_logged_eq)
qed

lemma wf_extend: "well_formed s \<Longrightarrow> well_formed (snd (extend_visibility X i n s))"
proof (cases "fmlookup (in_flight s) i")
  case (Some t)
  assume wf: "well_formed s"
  have "flights_ok (queues s) (fmupd i (t\<lparr>consumed_at := a\<rparr>) (in_flight s))" for a
    using well_formedD(1) [OF wf] well_formed_task [OF wf Some] by (auto simp: flights_ok_def)
  then show ?thesis
    using wf Some well_formedD(2) [OF wf]
    by (cases X "ExtendVisibility i n" s rule: step_cases)
      (simp_all add: extend_eqs, simp add: well_formed_def ids_ok_replace fmdom_lookup)
qed (simp add: extend_missing)

lemma wf_nack_all: "well_formed s \<Longrightarrow> well_formed (snd (nack_all X ids n s))"
proof (induction ids arbitrary: n s)
  case Nil
  then show ?case by simp
next
  case (Cons i ids)
  have "well_formed (snd (nack X i s))" using Cons.prems by (rule wf_nack)
  then show ?case
    using Cons.IH by (auto split: prod.split sum.split)
qed

lemma scan_state: "snd (scan_expired_tasks K n s) = s\<lparr>clock := stl (clock s)\<rparr>"
  by (simp add: scan_expired_tasks_def Let_def split: sum.split)

lemma wf_cleanup:
  assumes "well_formed s" shows "well_formed (snd (cleanup_expired_tasks X K n s))"
proof -
  have "well_formed (snd (scan_expired_tasks K n s))"
    using assms by (simp add: scan_state)
  then show ?thesis
    using wf_nack_all
    by (auto simp: cleanup_expired_tasks_def split: prod.splits sum.splits) (metis snd_conv)
qed

lemma wf_queue_batch: "well_formed s \<Longrightarrow> well_formed (snd (queue_batch X q ds s))"
  by (cases X "EnqueueBatch q ds" s rule: step_cases; cases "fmlookup (queues s) q")
    (simp_all add: queue_batch_eqs, simp_all add: well_formed_def flights_ok_upd)

lemma wf_ack_batch:
  assumes "well_formed s" shows "well_formed (snd (ack_batch X ids s))"
proof -
  have "flights_ok (queues s) (drop_all ids (in_flight s))"
    by (rule flights_ok_mono [OF well_formedD(1) [OF assms]]) (auto split: if_splits)
  moreover have "ids_ok (uuids s) (drop_all ids (in_flight s))"
    using well_formedD(2) [OF assms] by (auto simp: ids_ok_def fmdom_lookup split: if_splits)
  ultimately show ?thesis
    using assms
    by (cases X "AckBatch ids" s rule: step_cases; cases "missing_tasks ids s = []")
      (simp_all add: ack_batch_eqs, simp add: well_formed_def)
qed

text \<open>A batch of deliveries: its identifiers are the next ones, all new and different.\<close>

lemma tasks_of_ids: "map task_id (tasks_of q ps c) = map fst ps"
  by (induction q ps c rule: tasks_of.induct) simp_all

lemma tasks_of_queue: "t \<in> set (tasks_of q ps c) \<Longrightarrow> task_queue t = q"
  by (induction q ps c rule: tasks_of.induct) auto

lemma tasks_of_data: "map task_data (tasks_of q ps c) = map (item_data \<circ> snd) ps"
  by (induction q ps c rule: tasks_of.induct) simp_all

lemma insert_tasks_dom: "fset (fmdom (insert_tasks ts m)) = fset (fmdom m) \<union> set (map task_id ts)"
  by (induction ts arbitrary: m) auto

lemma flights_ok_insert_tasks:
  "flights_ok qs fl \<Longrightarrow> \<forall>t\<in>set ts. task_queue t |\<in>| fmdom qs \<Longrightarrow> flights_ok qs (insert_tasks ts fl)"
  by (induction ts arbitrary: fl) (simp_all add: flights_ok_insert)

lemma ids_ok_sdrop: "ids_ok u fl \<Longrightarrow> ids_ok (sdrop n u) fl"
  by (auto simp: ids_ok_def intro: unrepeated_sdrop dest!: sset_sdrop_subset)

lemma ids_ok_batch:
  assumes "ids_ok u fl" and "map task_id ts = stake n u"
  shows "ids_ok (sdrop n u) (insert_tasks ts fl)"
proof -
  have "set (stake n u) \<inter> sset (sdrop n u) = {}"
    using unrepeated_stake [of u n] assms(1) by (simp add: ids_ok_def)
  then show ?thesis
    using ids_ok_sdrop [OF assms(1), of n]
    unfolding ids_ok_def insert_tasks_dom assms(2) by blast
qed

lemma wf_dequeue_batch:
  assumes "well_formed s" shows "well_formed (snd (dequeue_batch X q n s))"
proof (cases "fmlookup (queues s) q")
  case None
  with assms show ?thesis by (simp add: dequeue_batch_missing)
next
  case (Some xs)
  consider "xs = []" | "xs \<noteq> []" "capacity_overflow queue_item_size (unat n)"
    | "xs \<noteq> []" "unat n = 0" | "xs \<noteq> []" "\<not> capacity_overflow queue_item_size (unat n)" "unat n \<noteq> 0"
    by blast
  then show ?thesis
  proof cases
    case 4
    let ?k = "min (length xs) (unat n)"
    let ?ts = "\<lambda>c. tasks_of q (zip (stake ?k (uuids s)) (take ?k xs)) c"
    have ids: "map task_id (?ts c) = stake ?k (uuids s)" for c
      by (simp add: tasks_of_ids)
    have fl: "flights_ok (fmupd q ys (queues s)) (insert_tasks (?ts c) (in_flight s))" for c ys
      using well_formedD(1) [OF assms]
      by (intro flights_ok_insert_tasks flights_ok_upd) (auto dest: tasks_of_queue)
    show ?thesis
      using assms well_formedD [OF assms] fl ids_ok_batch [OF well_formedD(2) [OF assms] ids]
        dequeue_batch_failed [OF Some 4] dequeue_batch_logged [OF Some 4]
      by (cases X "DequeuedBatch q (batch_ids s (unat n) xs)" s rule: step_cases)
        (simp_all add: Let_def well_formed_def ids_ok_sdrop)
  qed (use assms Some in \<open>simp_all add: dequeue_batch_empty dequeue_batch_overflow dequeue_batch_zero\<close>)
qed

lemma wf_perform: "well_formed s \<Longrightarrow> well_formed (after X K c s)"
  by (cases c) (simp_all add: wf_create_queue wf_queue wf_dequeue wf_ack wf_nack wf_extend
      wf_cleanup wf_queue_batch wf_dequeue_batch wf_ack_batch)

end
