(* ===== verification/Accounting.thy ===== *)
theory Accounting
  imports Storage_Inv
begin

text \<open>
  The account of message payloads: what the storage holds (in queues, dead-letter queues included,
  and in flight) changes only by what a call accepts or acknowledges. This is the storage's side of
  at-least-once delivery.
\<close>

section \<open>What a storage holds\<close>

definition payloads :: "queue_item list \<Rightarrow> byte list multiset" where
  "payloads q = mset (map item_data q)"

definition queued :: "(string, queue_item list) fmap \<Rightarrow> byte list multiset" where
  "queued qs = fm_sum (\<lambda>_. payloads) qs"

definition flying :: "(string, in_flight_task) fmap \<Rightarrow> byte list multiset" where
  "flying fl = fm_sum (\<lambda>_ t. {#task_data t#}) fl"

definition messages :: "storage \<Rightarrow> byte list multiset" where
  "messages s = queued (queues s) + flying (in_flight s)"

lemma payloads_simps [simp]:
  "payloads [] = {#}" "payloads (x # q) = add_mset (item_data x) (payloads q)"
  "payloads (q @ r) = payloads q + payloads r"
  by (simp_all add: payloads_def)

lemma payloads_fresh [simp]: "payloads (map fresh_item ds) = mset ds"
  by (simp add: payloads_def fresh_item_def comp_def)

lemma item_of_data [simp]: "item_data (item_of t) = task_data t"
  by (simp add: item_of_def)

lemma queued_new: "fmlookup qs k = None \<Longrightarrow> queued (fmupd k q qs) = payloads q + queued qs"
  by (simp add: queued_def fm_sum_upd fmdrop_absent)

lemma queued_replace:
  "fmlookup qs k = Some q \<Longrightarrow> queued (fmupd k q' qs) + payloads q = payloads q' + queued qs"
  by (simp add: queued_def fm_sum_upd fm_sum_split)

lemma queued_push:
  assumes "fmlookup qs k = Some q" and "payloads q' = M + payloads q"
  shows "queued (fmupd k q' qs) = M + queued qs"
  using queued_replace [OF assms(1), of q'] assms(2) by (simp add: ac_simps)

lemma queued_pop:
  assumes "fmlookup qs k = Some q" and "payloads q = M + payloads q'"
  shows "M + queued (fmupd k q' qs) = queued qs"
  using queued_replace [OF assms(1), of q'] assms(2) by (simp add: ac_simps)

lemma flying_insert: "fmlookup fl i = None \<Longrightarrow> flying (fmupd i t fl) = add_mset (task_data t) (flying fl)"
  by (simp add: flying_def fm_sum_upd fmdrop_absent)

lemma flying_drop: "fmlookup fl i = Some t \<Longrightarrow> flying fl = add_mset (task_data t) (flying (fmdrop i fl))"
  by (simp add: flying_def fm_sum_split)

lemma flying_replace:
  "fmlookup fl i = Some t \<Longrightarrow> task_data t' = task_data t \<Longrightarrow> flying (fmupd i t' fl) = flying fl"
  by (simp add: flying_def fm_sum_upd fm_sum_split)

lemma queued_returned:
  assumes "task_queue t |\<in>| fmdom qs"
  shows "queued (returned t qs) = add_mset (task_data t) (queued qs)"
proof -
  obtain q where q: "fmlookup qs (task_queue t) = Some q"
    using assms by (auto simp: fmdom_lookup)
  show ?thesis
    using queued_push [OF q, of "item_of t # q" "{#task_data t#}"] q
      queued_new [of qs "dlq_name (task_queue t)" "[item_of t]"]
      queued_push [of qs "dlq_name (task_queue t)" _ "_ @ [item_of t]" "{#task_data t#}"]
    by (auto simp: returned_def Let_def split: option.split)
qed

lemma flying_insert_tasks:
  "distinct (map task_id ts) \<Longrightarrow> set (map task_id ts) \<inter> fset (fmdom fl) = {} \<Longrightarrow>
     flying (insert_tasks ts fl) = mset (map task_data ts) + flying fl"
proof (induction ts arbitrary: fl)
  case Nil
  then show ?case by simp
next
  case (Cons t ts)
  then have "fmlookup fl (task_id t) = None" by (simp add: fmdom_lookup)
  then show ?case using Cons by (auto simp: flying_insert)
qed

text \<open>The payloads of the tasks a list of identifiers names, each task once.\<close>

fun named :: "string list \<Rightarrow> (string, in_flight_task) fmap \<Rightarrow> byte list multiset" where
  "named [] fl = {#}"
| "named (i # ids) fl =
     (case fmlookup fl i of
        None \<Rightarrow> named ids fl
      | Some t \<Rightarrow> add_mset (task_data t) (named ids (fmdrop i fl)))"

lemma flying_drop_all: "flying (drop_all ids fl) + named ids fl = flying fl"
proof (induction ids arbitrary: fl)
  case Nil
  then show ?case by simp
next
  case (Cons i ids)
  show ?case
  proof (cases "fmlookup fl i")
    case None
    then show ?thesis using Cons.IH [of fl] by (simp add: fmdrop_absent)
  next
    case (Some t)
    then show ?thesis using Cons.IH [of "fmdrop i fl"] by (simp add: flying_drop)
  qed
qed

section \<open>What a call takes in and lets out\<close>

text \<open>The payloads a call adds: those of an enqueue that reports success.\<close>

fun accepted :: "codec \<Rightarrow> key_order \<Rightarrow> call \<Rightarrow> storage \<Rightarrow> byte list multiset" where
  "accepted X K (Queue q d) s = (if is_ok (fst (queue X q d s)) then {#d#} else {#})"
| "accepted X K (Queue_batch q ds) s = (if is_ok (fst (queue_batch X q ds s)) then mset ds else {#})"
| "accepted X K _ s = {#}"

text \<open>
  The payloads a call releases: the task an acknowledgement names (also when its log entry cannot
  be written, as the code notes), and the tasks of a successful batch of acknowledgements.
\<close>

fun released :: "codec \<Rightarrow> key_order \<Rightarrow> call \<Rightarrow> storage \<Rightarrow> byte list multiset" where
  "released X K (Ack_one i) s = named [i] (in_flight s)"
| "released X K (Ack_batch ids) s =
     (if is_ok (fst (ack_batch X ids s)) then named ids (in_flight s) else {#})"
| "released X K _ s = {#}"

lemma messages_world [simp]:
  "messages (s\<lparr>wal := w\<rparr>) = messages s" "messages (s\<lparr>clock := c\<rparr>) = messages s"
  "messages (s\<lparr>uuids := u\<rparr>) = messages s"
  by (simp_all add: messages_def)

lemma messages_create_queue: "messages (snd (create_queue X n s)) = messages s"
  by (cases X "CreateQueue n" s rule: step_cases; cases "n |\<in>| fmdom (queues s)")
    (simp_all add: create_queue_eqs, simp_all add: messages_def queued_new fmdom_lookup)

lemma messages_queue:
  "messages (snd (queue X q d s)) = (if is_ok (fst (queue X q d s)) then {#d#} else {#}) + messages s"
proof (cases "fmlookup (queues s) q")
  case (Some xs)
  then show ?thesis
    using queued_push [OF Some, of "xs @ [\<lparr>item_data = d, item_attempts = 0\<rparr>]" "{#d#}"]
    by (cases X "Enqueue q d" s rule: step_cases)
      (simp_all add: queue_failed queue_logged, simp add: messages_def)
qed (simp add: queue_missing)

lemma messages_queue_batch:
  "messages (snd (queue_batch X q ds s)) =
     (if is_ok (fst (queue_batch X q ds s)) then mset ds else {#}) + messages s"
proof (cases "fmlookup (queues s) q")
  case (Some xs)
  then show ?thesis
    using queued_push [OF Some, of "xs @ map fresh_item ds" "mset ds"]
    by (cases X "EnqueueBatch q ds" s rule: step_cases)
      (simp_all add: queue_batch_failed queue_batch_logged, simp add: messages_def)
qed (simp add: queue_batch_missing)

lemma messages_dequeue:
  assumes "well_formed s" shows "messages (snd (dequeue X q s)) = messages s"
proof (cases "fmlookup (queues s) q")
  case (Some xs)
  show ?thesis
  proof (cases xs)
    case (Cons item rest)
    have "add_mset (item_data item) (queued (fmupd q rest (queues s))) = queued (queues s)"
      using queued_pop [OF Some, of "{#item_data item#}" rest] Cons by simp
    then show ?thesis
      using Some Cons ids_ok_fresh [OF well_formedD(2) [OF assms]]
      by (cases X "Dequeued q (shd (uuids s))" s rule: step_cases)
        (simp_all add: dequeue_failed dequeue_logged Let_def, simp add: messages_def flying_insert)
  qed (use Some in \<open>simp add: dequeue_empty\<close>)
qed (simp add: dequeue_missing)

lemma messages_ack: "messages (snd (ack X i s)) + named [i] (in_flight s) = messages s"
proof (cases "fmlookup (in_flight s) i")
  case (Some t)
  then show ?thesis
    using flying_drop [OF Some]
    by (cases X "Ack i" s rule: step_cases)
      (simp_all add: ack_failed ack_logged, simp_all add: messages_def)
qed (simp add: ack_missing)

lemma messages_nack:
  assumes "well_formed s" shows "messages (snd (nack X i s)) = messages s"
proof (cases "fmlookup (in_flight s) i")
  case (Some t)
  then show ?thesis
    using assms flying_drop [OF Some] queued_returned [OF well_formed_task(2) [OF assms Some]]
    by (cases X "Nack i" s rule: step_cases)
      (simp_all add: nack_failed nack_logged_eq, simp add: messages_def)
qed (simp add: nack_missing)

lemma messages_extend: "messages (snd (extend_visibility X i n s)) = messages s"
proof (cases "fmlookup (in_flight s) i")
  case (Some t)
  then show ?thesis
    by (cases X "ExtendVisibility i n" s rule: step_cases)
      (simp_all add: extend_failed extend_logged, simp add: messages_def flying_replace)
qed (simp add: extend_missing)

lemma messages_nack_all:
  "well_formed s \<Longrightarrow> messages (snd (nack_all X ids n s)) = messages s"
proof (induction ids arbitrary: n s)
  case Nil
  then show ?case by simp
next
  case (Cons i ids)
  have "well_formed (snd (nack X i s))" using Cons.prems by (rule wf_nack)
  then show ?case
    using Cons.IH messages_nack [OF Cons.prems, of X i] by (auto split: prod.split sum.split)
qed

lemma messages_cleanup:
  assumes "well_formed s" shows "messages (snd (cleanup_expired_tasks X K n s)) = messages s"
proof -
  have "well_formed (snd (scan_expired_tasks K n s))" "messages (snd (scan_expired_tasks K n s)) = messages s"
    using assms by (simp_all add: scan_state)
  then show ?thesis
    using messages_nack_all
    by (auto simp: cleanup_expired_tasks_def split: prod.splits sum.splits) (metis snd_conv)
qed

lemma messages_dequeue_batch:
  assumes "well_formed s" shows "messages (snd (dequeue_batch X q n s)) = messages s"
proof (cases "fmlookup (queues s) q")
  case (Some xs)
  consider "xs = []" | "xs \<noteq> []" "capacity_overflow queue_item_size (unat n)"
    | "xs \<noteq> []" "unat n = 0" | "xs \<noteq> []" "\<not> capacity_overflow queue_item_size (unat n)" "unat n \<noteq> 0"
    by blast
  then show ?thesis
  proof cases
    case 4
    let ?k = "min (length xs) (unat n)"
    let ?ids = "stake ?k (uuids s)"
    let ?ts = "\<lambda>c. tasks_of q (zip ?ids (take ?k xs)) c"
    have ids: "ids_ok (uuids s) (in_flight s)" using well_formedD [OF assms] by simp
    have fl: "flying (insert_tasks (?ts c) (in_flight s)) = payloads (take ?k xs) + flying (in_flight s)" for c
      using unrepeated_stake [of "uuids s" ?k] ids
      by (subst flying_insert_tasks)
        (auto simp: tasks_of_ids tasks_of_data payloads_def ids_ok_def map_zip_map2 map2_map_map
          simp flip: map_map dest: set_stake_subset)
    have qs: "payloads (take ?k xs) + queued (fmupd q (drop ?k xs) (queues s)) = queued (queues s)"
      by (rule queued_pop [OF Some]) (simp flip: payloads_simps(3))
    show ?thesis
      using dequeue_batch_failed [OF Some 4] dequeue_batch_logged [OF Some 4] fl qs
      by (cases X "DequeuedBatch q (batch_ids s (unat n) xs)" s rule: step_cases)
        (simp_all add: Let_def, simp add: messages_def ac_simps)
  qed (use Some in \<open>simp_all add: dequeue_batch_empty dequeue_batch_overflow dequeue_batch_zero\<close>)
qed (simp add: dequeue_batch_missing)

lemma messages_ack_batch:
  "messages (snd (ack_batch X ids s)) +
     (if is_ok (fst (ack_batch X ids s)) then named ids (in_flight s) else {#}) = messages s"
  using flying_drop_all [of ids "in_flight s"]
  by (cases X "AckBatch ids" s rule: step_cases; cases "missing_tasks ids s = []")
    (simp_all add: ack_batch_eqs, simp add: messages_def)

section \<open>The storage is an accounted machine\<close>

lemma messages_balance:
  "well_formed s \<Longrightarrow> messages (after X K c s) + released X K c s = messages s + accepted X K c s"
  by (cases c) (simp_all add: messages_create_queue messages_queue messages_dequeue
      messages_ack [simplified] messages_nack messages_extend messages_cleanup messages_queue_batch
      messages_dequeue_batch messages_ack_batch)

interpretation keeps: accounted "after X K" well_formed messages "accepted X K" "released X K"
  for X :: codec and K :: key_order
  by unfold_locales (simp_all add: wf_perform messages_balance)

text \<open>
  C1: no message is lost and none is made up. Run any calls on an empty storage, with a log or
  without, with any log failures and panics: the payloads held at the end (in queues, dead-letter
  queues and in flight), together with those acknowledged, are exactly those accepted by
  successful enqueues, each as often.
\<close>

theorem messages_conserved:
  assumes "unrepeated u"
  shows "messages (run (after X K) calls ((new_storage u c)\<lparr>wal := w\<rparr>)) +
      total (after X K) (released X K) calls ((new_storage u c)\<lparr>wal := w\<rparr>) =
    total (after X K) (accepted X K) calls ((new_storage u c)\<lparr>wal := w\<rparr>)"
proof -
  let ?s = "(new_storage u c)\<lparr>wal := w\<rparr>"
  have "well_formed ?s" by (simp add: well_formed_new assms)
  then have "messages (run (after X K) calls ?s) + total (after X K) (released X K) calls ?s =
      messages ?s + total (after X K) (accepted X K) calls ?s"
    by (rule keeps.run_balance)
  moreover have "messages ?s = {#}"
    by (simp add: messages_def queued_def flying_def new_storage_def)
  ultimately show ?thesis by simp
qed

theorem messages_conserved_witness:
  "messages (run (after unary_codec (\<lambda>_. []))
      [Create_queue ''q'', Queue ''q'' [1], Queue ''q'' [2], Dequeue_one ''q'', Nack_one (shd numbered)]
      (new_storage numbered (sconst 0))) = {#[1], [2]#}"
proof -
  let ?calls = "[Create_queue ''q'', Queue ''q'' [1], Queue ''q'' [2], Dequeue_one ''q'', Nack_one (shd numbered)]"
  have "(new_storage numbered (sconst 0))\<lparr>wal := None\<rparr> = new_storage numbered (sconst 0)"
    by (simp add: new_storage_def)
  moreover have "total (after unary_codec (\<lambda>_. [])) (released unary_codec (\<lambda>_. [])) ?calls
      (new_storage numbered (sconst 0)) = {#}"
    by simp
  moreover have "total (after unary_codec (\<lambda>_. [])) (accepted unary_codec (\<lambda>_. [])) ?calls
      (new_storage numbered (sconst 0)) = {#[1], [2]#}"
    by (simp add: new_storage_def create_queue_def queue_def log_op_def)
  ultimately show ?thesis
    using messages_conserved [OF unrepeated_numbered, where X = unary_codec and K = "\<lambda>_. []"
        and calls = ?calls and c = "sconst 0" and w = None]
    by (metis add.right_neutral)
qed

text \<open>
  C33: the bookkeeping of deliveries is consistent. After any calls on an empty storage, each task
  in flight is stored under its own identifier and comes from a queue that exists, so that it can
  always be returned; and the identifiers yet to be generated are not in use.
\<close>

theorem deliveries_consistent:
  assumes "unrepeated u"
  shows "let s = run (after X K) calls ((new_storage u c)\<lparr>wal := w\<rparr>) in
    (\<forall>i t. fmlookup (in_flight s) i = Some t \<longrightarrow> task_id t = i \<and> task_queue t |\<in>| fmdom (queues s)) \<and>
    sset (uuids s) \<inter> fset (fmdom (in_flight s)) = {}"
proof -
  have "well_formed ((new_storage u c)\<lparr>wal := w\<rparr>)" by (simp add: well_formed_new assms)
  from keeps.inv_run [OF this, of X K calls] show ?thesis
    by (simp add: Let_def well_formed_def flights_ok_def ids_ok_def)
qed

theorem deliveries_consistent_witness:
  "let s = run (after unary_codec (\<lambda>_. [])) [Create_queue ''q'', Queue ''q'' [1], Dequeue_one ''q'']
      ((new_storage numbered (sconst 0))\<lparr>wal := Some fresh_manager\<rparr>)
   in sset (uuids s) \<inter> fset (fmdom (in_flight s)) = {}"
  using deliveries_consistent [OF unrepeated_numbered] by (simp only: Let_def)

end
