(* ===== verification/Attempts.thy ===== *)
theory Attempts
  imports Accounting
begin

text \<open>
  The delivery counters are 32-bit words that the code increments without a check. No counter can
  have been incremented more often than calls were made, so they stay exact for any run that is
  shorter than the word is wide.
\<close>

section \<open>The counters of a storage\<close>

definition queue_counts :: "(string, queue_item list) fmap \<Rightarrow> u32 set" where
  "queue_counts qs = {item_attempts x | q xs x. fmlookup qs q = Some xs \<and> x \<in> set xs}"

definition flight_counts :: "(string, in_flight_task) fmap \<Rightarrow> u32 set" where
  "flight_counts fl = {task_attempts t | i t. fmlookup fl i = Some t}"

definition counts :: "storage \<Rightarrow> u32 set" where
  "counts s = queue_counts (queues s) \<union> flight_counts (in_flight s)"

text \<open>What one call can do to the counters of \<open>s\<close>: keep some, increment some, start some at 0.\<close>

definition stepped :: "storage \<Rightarrow> u32 set" where
  "stepped s = insert 0 (counts s \<union> (\<lambda>a. a + 1) ` counts s)"

lemma queue_counts_upd: "queue_counts (fmupd q xs qs) \<subseteq> item_attempts ` set xs \<union> queue_counts qs"
  by (auto simp: queue_counts_def split: if_splits)

lemma queue_counts_lookup: "fmlookup qs q = Some xs \<Longrightarrow> item_attempts ` set xs \<subseteq> queue_counts qs"
  by (auto simp: queue_counts_def)

lemma flight_counts_upd: "flight_counts (fmupd i t fl) \<subseteq> insert (task_attempts t) (flight_counts fl)"
  by (auto simp: flight_counts_def split: if_splits)

lemma flight_counts_lookup: "fmlookup fl i = Some t \<Longrightarrow> task_attempts t \<in> flight_counts fl"
  by (auto simp: flight_counts_def)

lemma flight_counts_drop: "flight_counts (fmdrop i fl) \<subseteq> flight_counts fl"
  by (auto simp: flight_counts_def split: if_splits)

lemma flight_counts_drop_all: "flight_counts (drop_all ids fl) \<subseteq> flight_counts fl"
  by (auto simp: flight_counts_def split: if_splits)

lemma flight_counts_insert:
  "flight_counts (insert_tasks ts fl) \<subseteq> task_attempts ` set ts \<union> flight_counts fl"
proof (induction ts arbitrary: fl)
  case (Cons t ts)
  show ?case using Cons.IH [of "fmupd (task_id t) t fl"] flight_counts_upd [of "task_id t" t fl] by auto
qed simp

lemma queue_counts_updI:
  "item_attempts ` set xs \<subseteq> A \<Longrightarrow> queue_counts qs \<subseteq> A \<Longrightarrow> queue_counts (fmupd q xs qs) \<subseteq> A"
  using queue_counts_upd [of q xs qs] by (meson Un_least subset_trans)

lemma queue_counts_returned: "queue_counts (returned t qs) \<subseteq> insert (task_attempts t) (queue_counts qs)"
proof -
  have [simp]: "item_attempts (item_of t) = task_attempts t" by (simp add: item_of_def)
  let ?d = "dlq_name (task_queue t)"
  have d: "item_attempts ` set (case fmlookup qs ?d of None \<Rightarrow> [] | Some q \<Rightarrow> q) \<subseteq> queue_counts qs"
    using queue_counts_lookup [of qs ?d] by (cases "fmlookup qs ?d") simp_all
  show ?thesis
  proof (cases "5 \<le> task_attempts t")
    case True
    then show ?thesis
      using d by (simp add: returned_def Let_def) (rule queue_counts_updI, auto)
  next
    case False
    then show ?thesis
      using queue_counts_lookup [of qs "task_queue t"]
      by (cases "fmlookup qs (task_queue t)")
        (simp_all add: returned_def subset_insertI, intro queue_counts_updI, auto)
  qed
qed

lemma counts_tasks_of:
  "task_attempts ` set (tasks_of q ps c) = (\<lambda>p. item_attempts (snd p) + 1) ` set ps"
  by (induction q ps c rule: tasks_of.induct) simp_all

lemma steppedI:
  "a \<in> counts s \<Longrightarrow> a \<in> stepped s" "a \<in> counts s \<Longrightarrow> a + 1 \<in> stepped s" "0 \<in> stepped s"
  by (simp_all add: stepped_def)

lemma stepped_bound:
  assumes "\<forall>a\<in>counts s. unat a \<le> n" and "n < 4294967295"
  shows "\<forall>a\<in>stepped s. unat a \<le> Suc n"
proof -
  have "unat (a + 1) = unat a + 1" if "unat a \<le> n" for a :: u32
    using that assms(2) by (simp add: unat_plus_if')
  then show ?thesis using assms(1) by (fastforce simp: stepped_def)
qed

section \<open>Every call steps the counters\<close>

lemma countsI:
  "queue_counts (queues s') \<subseteq> A \<Longrightarrow> flight_counts (in_flight s') \<subseteq> A \<Longrightarrow> counts s' \<subseteq> A"
  by (simp add: counts_def)

lemma stepped_queue: "queue_counts (queues s) \<subseteq> stepped s"
  by (auto simp: stepped_def counts_def)

lemma stepped_flight: "flight_counts (in_flight s) \<subseteq> stepped s"
  by (auto simp: stepped_def counts_def)

lemma counts_stepped: "counts s \<subseteq> stepped s"
  by (auto simp: stepped_def)

lemma counts_world [simp]:
  "counts (s\<lparr>wal := w\<rparr>) = counts s" "counts (s\<lparr>clock := c\<rparr>) = counts s"
  "counts (s\<lparr>uuids := u\<rparr>) = counts s"
  by (simp_all add: counts_def)

lemma stepped_push:
  assumes "fmlookup (queues s) q = Some xs" and "item_attempts ` set ys \<subseteq> {0}"
  shows "queue_counts (fmupd q (xs @ ys) (queues s)) \<subseteq> stepped s"
  using queue_counts_lookup [OF assms(1)] assms(2) stepped_queue [of s]
  by (intro queue_counts_updI) (auto simp: steppedI(3))

lemma stepped_pop:
  assumes "fmlookup (queues s) q = Some xs" and "set ys \<subseteq> set xs"
  shows "queue_counts (fmupd q ys (queues s)) \<subseteq> stepped s"
  using queue_counts_lookup [OF assms(1)] assms(2) stepped_queue [of s]
  by (intro queue_counts_updI) auto

lemma stepped_incremented:
  assumes "fmlookup (queues s) q = Some xs" and "x \<in> set xs"
  shows "item_attempts x + 1 \<in> stepped s"
  using assms by (intro steppedI(2)) (auto simp: counts_def queue_counts_def)

lemma counts_create_queue: "counts (snd (create_queue X n s)) \<subseteq> stepped s"
  using queue_counts_updI [of "[]" "stepped s" "queues s" n] stepped_queue [of s] stepped_flight [of s]
    counts_stepped [of s]
  by (cases X "CreateQueue n" s rule: step_cases; cases "n |\<in>| fmdom (queues s)")
    (simp_all add: create_queue_eqs, simp add: counts_def)

lemma counts_queue: "counts (snd (queue X q d s)) \<subseteq> stepped s"
proof (cases "fmlookup (queues s) q")
  case (Some xs)
  then show ?thesis
    using stepped_push [OF Some, of "[\<lparr>item_data = d, item_attempts = 0\<rparr>]"] stepped_flight [of s]
      counts_stepped [of s]
    by (cases X "Enqueue q d" s rule: step_cases)
      (simp_all add: queue_failed queue_logged, simp add: counts_def)
qed (simp add: queue_missing counts_stepped)

lemma counts_queue_batch: "counts (snd (queue_batch X q ds s)) \<subseteq> stepped s"
proof (cases "fmlookup (queues s) q")
  case (Some xs)
  have "item_attempts ` set (map fresh_item ds) \<subseteq> {0}" by (auto simp: fresh_item_def)
  then show ?thesis
    using Some stepped_push [OF Some] stepped_flight [of s] counts_stepped [of s]
    by (cases X "EnqueueBatch q ds" s rule: step_cases)
      (simp_all add: queue_batch_failed queue_batch_logged, simp add: counts_def)
qed (simp add: queue_batch_missing counts_stepped)

lemma counts_dequeue: "counts (snd (dequeue X q s)) \<subseteq> stepped s"
proof (cases "fmlookup (queues s) q")
  case (Some xs)
  show ?thesis
  proof (cases xs)
    case (Cons item rest)
    have "flight_counts (fmupd i (task_of i q a item) (in_flight s)) \<subseteq> stepped s" for i a
      using flight_counts_upd [of i "task_of i q a item" "in_flight s"] stepped_flight [of s]
        stepped_incremented [OF Some, of item] Cons by auto
    moreover have "queue_counts (fmupd q rest (queues s)) \<subseteq> stepped s"
      by (rule stepped_pop [OF Some]) (auto simp: Cons)
    ultimately show ?thesis
      using Some Cons counts_stepped [of s]
      by (cases X "Dequeued q (shd (uuids s))" s rule: step_cases)
        (simp_all add: dequeue_failed dequeue_logged Let_def, simp add: counts_def)
  qed (use Some in \<open>simp add: dequeue_empty counts_stepped\<close>)
qed (simp add: dequeue_missing counts_stepped)

lemma counts_ack: "counts (snd (ack X i s)) \<subseteq> counts s"
  using flight_counts_drop [of i "in_flight s"]
  by (cases X "Ack i" s rule: step_cases; cases "fmlookup (in_flight s) i")
    (simp_all add: ack_eqs, auto simp: counts_def)

lemma counts_nack: "counts (snd (nack X i s)) \<subseteq> counts s"
proof (cases "fmlookup (in_flight s) i")
  case (Some t)
  have "counts (s\<lparr>in_flight := fmdrop i (in_flight s), queues := returned t (queues s)\<rparr>) \<subseteq> counts s"
    using queue_counts_returned [of t "queues s"] flight_counts_drop [of i "in_flight s"]
      flight_counts_lookup [OF Some] by (auto simp: counts_def)
  then show ?thesis
    using Some
    by (cases X "Nack i" s rule: step_cases)
      (simp_all add: nack_failed nack_logged requeue_queues, simp add: counts_def)
qed (simp add: nack_missing)

lemma counts_extend: "counts (snd (extend_visibility X i n s)) \<subseteq> counts s"
proof (cases "fmlookup (in_flight s) i")
  case (Some t)
  have "flight_counts (fmupd i (t\<lparr>consumed_at := a\<rparr>) (in_flight s)) \<subseteq> flight_counts (in_flight s)" for a
    using flight_counts_upd [of i "t\<lparr>consumed_at := a\<rparr>" "in_flight s"] flight_counts_lookup [OF Some] by auto
  then show ?thesis
    using Some
    by (cases X "ExtendVisibility i n" s rule: step_cases)
      (simp_all add: extend_failed extend_logged, auto simp: counts_def)
qed (simp add: extend_missing)

lemma counts_nack_all: "counts (snd (nack_all X ids n s)) \<subseteq> counts s"
proof (induction ids arbitrary: n s)
  case (Cons i ids)
  show ?case
    using Cons.IH [of _ "snd (nack X i s)"] counts_nack [of X i s]
    by (auto split: prod.split sum.split) blast+
qed simp

lemma counts_cleanup: "counts (snd (cleanup_expired_tasks X K n s)) \<subseteq> counts s"
proof -
  have "counts (snd (scan_expired_tasks K n s)) = counts s" by (simp add: scan_state)
  then show ?thesis
    using counts_nack_all
    by (auto simp: cleanup_expired_tasks_def split: prod.splits sum.splits) (metis snd_conv subsetD)
qed

lemma counts_ack_batch: "counts (snd (ack_batch X ids s)) \<subseteq> counts s"
  using flight_counts_drop_all [of ids "in_flight s"]
  by (cases X "AckBatch ids" s rule: step_cases; cases "missing_tasks ids s = []")
    (simp_all add: ack_batch_eqs, auto simp: counts_def)

lemma counts_dequeue_batch: "counts (snd (dequeue_batch X q n s)) \<subseteq> stepped s"
proof (cases "fmlookup (queues s) q")
  case (Some xs)
  consider "xs = []" | "xs \<noteq> []" "capacity_overflow queue_item_size (unat n)"
    | "xs \<noteq> []" "unat n = 0" | "xs \<noteq> []" "\<not> capacity_overflow queue_item_size (unat n)" "unat n \<noteq> 0"
    by blast
  then show ?thesis
  proof cases
    case 4
    let ?k = "min (length xs) (unat n)"
    let ?ps = "zip (stake ?k (uuids s)) (take ?k xs)"
    have "task_attempts ` set (tasks_of q ?ps c) \<subseteq> stepped s" for c
      using stepped_incremented [OF Some] by (auto simp: counts_tasks_of dest!: set_zip_rightD in_set_takeD)
    then have fl: "flight_counts (insert_tasks (tasks_of q ?ps c) (in_flight s)) \<subseteq> stepped s" for c
      using flight_counts_insert [of "tasks_of q ?ps c" "in_flight s"] stepped_flight [of s] by blast
    have "queue_counts (fmupd q (drop ?k xs) (queues s)) \<subseteq> stepped s"
      by (rule stepped_pop [OF Some]) (rule set_drop_subset)
    with fl show ?thesis
      using dequeue_batch_failed [OF Some 4] dequeue_batch_logged [OF Some 4] counts_stepped [of s]
      by (cases X "DequeuedBatch q (batch_ids s (unat n) xs)" s rule: step_cases)
        (simp_all add: Let_def, simp add: counts_def)
  qed (use Some in \<open>simp_all add: dequeue_batch_empty dequeue_batch_overflow dequeue_batch_zero counts_stepped\<close>)
qed (simp add: dequeue_batch_missing counts_stepped)

lemma counts_perform: "counts (after X K c s) \<subseteq> stepped s"
  by (cases c) (simp_all add: counts_create_queue counts_queue counts_queue_batch counts_dequeue
      counts_dequeue_batch counts_stepped subset_trans [OF counts_ack counts_stepped]
      subset_trans [OF counts_nack counts_stepped] subset_trans [OF counts_extend counts_stepped]
      subset_trans [OF counts_cleanup counts_stepped] subset_trans [OF counts_ack_batch counts_stepped])

text \<open>
  C34: the delivery counters do not overflow. In any run of fewer than \<open>2\<^sup>3\<^sup>2\<close> calls
  from an empty storage, each counter of a queued or delivered message is at most the number of
  calls made, so no increment of a 32-bit counter wraps.
\<close>

theorem counters_bounded:
  assumes "length calls < 4294967296"
  shows "\<forall>a\<in>counts (run (after X K) calls (new_storage u c)). unat a \<le> length calls"
  using assms
proof (induction calls rule: rev_induct)
  case Nil
  show ?case by (simp add: counts_def new_storage_def queue_counts_def flight_counts_def)
next
  case (snoc call calls)
  let ?s = "run (after X K) calls (new_storage u c)"
  have "\<forall>a\<in>stepped ?s. unat a \<le> Suc (length calls)"
    using snoc by (intro stepped_bound) simp_all
  then show ?case
    using counts_perform [of X K call ?s] by (auto simp: run_append)
qed

theorem counters_bounded_witness:
  "counts (run (after unary_codec (\<lambda>_. [])) [Create_queue ''q'', Queue ''q'' [1], Dequeue_one ''q'']
      (new_storage numbered (sconst 0))) \<inter> {a. 3 < unat a} = {}"
  using counters_bounded [of "[Create_queue ''q'', Queue ''q'' [1], Dequeue_one ''q'']"
      unary_codec "\<lambda>_. []" numbered "sconst 0"] by (fastforce simp: numeral_3_eq_3)

end
