(* ===== verification/Delivery.thy ===== *)
theory Delivery
  imports Accounting
begin

text \<open>
  How messages travel: first in, first out through each queue; back to the front of their queue or
  on to the dead-letter queue when a delivery fails; what the batch operations do in terms of the
  single ones; what an expiry scan finds; and what a call that fails leaves behind.
\<close>

section \<open>First in, first out\<close>

definition content_of :: "string \<Rightarrow> storage \<Rightarrow> queue_item list" where
  "content_of q s = (case fmlookup (queues s) q of None \<Rightarrow> [] | Some xs \<Rightarrow> xs)"

text \<open>The item a task was made of: its attempts count one delivery less.\<close>

definition delivered_item :: "in_flight_task \<Rightarrow> queue_item" where
  "delivered_item t = \<lparr>item_data = task_data t, item_attempts = task_attempts t - 1\<rparr>"

fun arrivals :: "codec \<Rightarrow> string \<Rightarrow> call \<Rightarrow> storage \<Rightarrow> queue_item list" where
  "arrivals X q (Queue q' d) s =
     (if q' = q \<and> is_ok (fst (queue X q' d s)) then [fresh_item d] else [])"
| "arrivals X q (Queue_batch q' ds) s =
     (if q' = q \<and> is_ok (fst (queue_batch X q' ds s)) then map fresh_item ds else [])"
| "arrivals X q _ s = []"

fun departures :: "codec \<Rightarrow> string \<Rightarrow> call \<Rightarrow> storage \<Rightarrow> queue_item list" where
  "departures X q (Dequeue_one q') s =
     (if q' = q then (case fst (dequeue X q' s) of Inr (Some t) \<Rightarrow> [delivered_item t] | _ \<Rightarrow> [])
      else [])"
| "departures X q (Dequeue_batch q' n) s =
     (if q' = q then (case fst (dequeue_batch X q' n s) of Inr ts \<Rightarrow> map delivered_item ts | _ \<Rightarrow> [])
      else [])"
| "departures X q _ s = []"

text \<open>The calls that put delivered messages back.\<close>

fun returns :: "call \<Rightarrow> bool" where
  "returns (Nack_one i) = True"
| "returns (Cleanup_expired_tasks n) = True"
| "returns _ = False"

lemma delivered_task_of [simp]: "delivered_item (task_of i q a item) = item"
  by (simp add: delivered_item_def)

lemma delivered_tasks_of: "map delivered_item (tasks_of q ps c) = map snd ps"
  by (induction q ps c rule: tasks_of.induct) simp_all

lemma pass_create_queue: "content_of q (snd (create_queue X n s)) = content_of q s"
  by (cases X "CreateQueue n" s rule: step_cases; cases "n |\<in>| fmdom (queues s)"; cases "n = q")
    (simp_all add: create_queue_eqs content_of_def fmdom_lookup)

lemma pass_queue:
  "content_of q (snd (queue X q' d s)) = content_of q s @ arrivals X q (Queue q' d) s"
proof (cases "fmlookup (queues s) q'")
  case (Some xs)
  then show ?thesis
    by (cases X "Enqueue q' d" s rule: step_cases; cases "q' = q")
      (simp_all add: queue_failed queue_logged content_of_def fresh_item_def)
qed (simp add: queue_missing)

lemma pass_queue_batch:
  "content_of q (snd (queue_batch X q' ds s)) = content_of q s @ arrivals X q (Queue_batch q' ds) s"
proof (cases "fmlookup (queues s) q'")
  case (Some xs)
  then show ?thesis
    by (cases X "EnqueueBatch q' ds" s rule: step_cases; cases "q' = q")
      (simp_all add: queue_batch_failed queue_batch_logged content_of_def)
qed (simp add: queue_batch_missing)

lemma pass_dequeue:
  "departures X q (Dequeue_one q') s @ content_of q (snd (dequeue X q' s)) = content_of q s"
proof (cases "fmlookup (queues s) q'")
  case (Some xs)
  show ?thesis
  proof (cases xs)
    case (Cons item rest)
    with Some show ?thesis
      by (cases X "Dequeued q' (shd (uuids s))" s rule: step_cases; cases "q' = q")
        (simp_all add: dequeue_failed dequeue_logged content_of_def Let_def)
  qed (use Some in \<open>auto simp: dequeue_empty\<close>)
qed (auto simp: dequeue_missing)

lemma pass_dequeue_batch:
  "departures X q (Dequeue_batch q' n) s @ content_of q (snd (dequeue_batch X q' n s)) = content_of q s"
proof (cases "fmlookup (queues s) q'")
  case (Some xs)
  consider "xs = []" | "xs \<noteq> []" "capacity_overflow queue_item_size (unat n)"
    | "xs \<noteq> []" "unat n = 0" | "xs \<noteq> []" "\<not> capacity_overflow queue_item_size (unat n)" "unat n \<noteq> 0"
    by blast
  then show ?thesis
  proof cases
    case 4
    let ?k = "min (length xs) (unat n)"
    have "map delivered_item (tasks_of q' (zip (stake ?k (uuids s)) (take ?k xs)) c) = take ?k xs" for c
      by (simp add: delivered_tasks_of)
    then show ?thesis
      using Some 4
      by (cases X "DequeuedBatch q' (batch_ids s (unat n) xs)" s rule: step_cases; cases "q' = q")
        (simp_all add: dequeue_batch_failed dequeue_batch_logged content_of_def Let_def)
  qed (use Some in \<open>auto simp: dequeue_batch_empty dequeue_batch_overflow dequeue_batch_zero\<close>)
qed (auto simp: dequeue_batch_missing)

lemma queues_ack: "queues (snd (ack X i s)) = queues s"
  by (cases X "Ack i" s rule: step_cases; cases "fmlookup (in_flight s) i")
    (simp_all add: ack_eqs)

lemma queues_extend: "queues (snd (extend_visibility X i n s)) = queues s"
  by (cases X "ExtendVisibility i n" s rule: step_cases; cases "fmlookup (in_flight s) i")
    (simp_all add: extend_eqs)

lemma queues_ack_batch: "queues (snd (ack_batch X ids s)) = queues s"
  by (cases X "AckBatch ids" s rule: step_cases; cases "missing_tasks ids s = []")
    (simp_all add: ack_batch_eqs)

lemma content_unmoved:
  "content_of q (snd (ack X i s)) = content_of q s"
  "content_of q (snd (extend_visibility X i n s)) = content_of q s"
  "content_of q (snd (ack_batch X ids s)) = content_of q s"
  by (simp_all add: content_of_def queues_ack queues_extend queues_ack_batch)

lemma pass_perform:
  "\<not> returns c \<Longrightarrow>
     departures X q c s @ content_of q (after X K c s) = content_of q s @ arrivals X q c s"
  by (cases c)
    (simp_all only: pass_create_queue pass_queue pass_queue_batch pass_dequeue pass_dequeue_batch
      content_unmoved perform.simps returns.simps snd_map_prod id_apply snd_conv append_Nil
      append_Nil2 arrivals.simps(3-) departures.simps(3-) simp_thms)

interpretation fifo: channel "after X K" "\<lambda>c. \<not> returns c" "\<lambda>_. True" "content_of q" "arrivals X q" "departures X q"
  for X :: codec and K :: key_order and q :: string
  by unfold_locales (simp_all add: pass_perform)

text \<open>
  Queues are first in, first out. In any run of calls that put no delivered message back (no
  nack and no cleanup, whatever fails otherwise), the items delivered from a queue, followed by
  what the queue holds at the end, are what it held at the start followed by the accepted items, in
  order, attempt counts included.
\<close>

lemma fifo_order:
  assumes "\<forall>c\<in>set calls. \<not> returns c"
  shows "flow (after X K) (departures X q) calls s @ content_of q (run (after X K) calls s)
    = content_of q s @ flow (after X K) (arrivals X q) calls s"
  by (rule fifo.run_pass [OF assms TrueI])

lemma fifo_order_witness:
  "flow (after unary_codec (\<lambda>_. [])) (departures unary_codec ''q'')
     [Create_queue ''q'', Queue ''q'' [1], Queue_batch ''q'' [[2], [3]], Dequeue_one ''q'']
     (new_storage (sconst ''id'') (sconst 0)) @
   content_of ''q'' (run (after unary_codec (\<lambda>_. []))
     [Create_queue ''q'', Queue ''q'' [1], Queue_batch ''q'' [[2], [3]], Dequeue_one ''q'']
     (new_storage (sconst ''id'') (sconst 0)))
   = map fresh_item [[1], [2], [3]]"
proof -
  have "flow (after unary_codec (\<lambda>_. [])) (arrivals unary_codec ''q'')
     [Create_queue ''q'', Queue ''q'' [1], Queue_batch ''q'' [[2], [3]], Dequeue_one ''q'']
     (new_storage (sconst ''id'') (sconst 0)) = map fresh_item [[1], [2], [3]]"
    by (simp add: new_storage_def create_queue_def queue_def queue_batch_def log_op_def)
  then show ?thesis
    using fifo_order [of "[Create_queue ''q'', Queue ''q'' [1], Queue_batch ''q'' [[2], [3]],
        Dequeue_one ''q'']" unary_codec "\<lambda>_. []" "''q''" "new_storage (sconst ''id'') (sconst 0)"]
    by (simp add: new_storage_def content_of_def)
qed

section \<open>Failed deliveries and the dead-letter queue\<close>

lemma redelivery:
  assumes wf: "well_formed s" and ok: "log_works X (wal s)"
    and q: "fmlookup (queues s) q = Some (item # rest)"
  shows "\<exists>w c. run (after X K) [Dequeue_one q, Nack_one (shd (uuids s))] s =
      s\<lparr>queues := returned (task_of (shd (uuids s)) q 0 item) (fmupd q rest (queues s)),
        uuids := stl (uuids s), wal := w, clock := c\<rparr> \<and> log_works X w"
proof -
  let ?i = "shd (uuids s)"
  obtain w1 c1 where 1: "wal_step X (Dequeued q ?i) (wal s) (clock s) = (Inr (), w1, c1)" "log_works X w1"
    by (rule log_works_step [OF ok])
  let ?t = "task_of ?i q (shd c1) item"
  let ?s1 = "s\<lparr>queues := fmupd q rest (queues s), uuids := stl (uuids s), wal := w1, clock := stl c1,
               in_flight := fmupd ?i ?t (in_flight s)\<rparr>"
  have s1: "snd (dequeue X q s) = ?s1"
    using q 1(1) by (simp add: dequeue_logged Let_def)
  obtain w2 c2 where 2: "wal_step X (Nack ?i) (wal ?s1) (clock ?s1) = (Inr (), w2, c2)" "log_works X w2"
    by (rule log_works_step [of X "wal ?s1"]) (simp add: 1(2))
  have "fmdrop ?i (fmupd ?i ?t (in_flight s)) = in_flight s"
    using ids_ok_fresh [OF well_formedD(2) [OF wf]] by (simp add: fmdrop_absent)
  moreover have "returned ?t qs = returned (task_of ?i q 0 item) qs" for qs
    by (simp add: returned_def item_of_def split: option.split)
  moreover have "nack X ?i ?s1 = requeue ?t
      (?s1\<lparr>in_flight := fmdrop ?i (in_flight ?s1), wal := w2, clock := c2\<rparr>)"
    by (rule nack_logged [OF _ 2(1)]) simp
  ultimately have "snd (nack X ?i ?s1) = ?s1\<lparr>in_flight := in_flight s,
      queues := returned (task_of ?i q 0 item) (queues ?s1), wal := w2, clock := c2\<rparr>"
    by (intro storage.equality) (simp_all add: requeue_queues)
  with 2(2) show ?thesis
    by (intro exI [of _ w2] exI [of _ c2]) (simp add: s1)
qed

text \<open>\<open>n\<close> deliveries from \<open>q\<close> that all fail: the identifiers are the next \<open>n\<close> to be generated.\<close>

fun failed_deliveries :: "string \<Rightarrow> string stream \<Rightarrow> nat \<Rightarrow> call list" where
  "failed_deliveries q u 0 = []"
| "failed_deliveries q u (Suc n) = failed_deliveries q u n @ [Dequeue_one q, Nack_one (u !! n)]"

lemma dlq_name_other [simp]: "dlq_name q \<noteq> q" "q \<noteq> dlq_name q"
  by (simp_all add: dlq_name_def)

text \<open>The queues after \<open>n\<close> failed deliveries of the fresh item \<open>d\<close> at the front of \<open>q\<close>.\<close>

definition redelivered ::
    "string \<Rightarrow> byte list \<Rightarrow> queue_item list \<Rightarrow> nat \<Rightarrow> (string, queue_item list) fmap \<Rightarrow> (string, queue_item list) fmap" where
  "redelivered q d rest n qs =
     (let item = \<lparr>item_data = d, item_attempts = of_nat n\<rparr> in
      if n < 5 then fmupd q (item # rest) qs
      else fmupd (dlq_name q)
             ((case fmlookup qs (dlq_name q) of None \<Rightarrow> [] | Some xs \<Rightarrow> xs) @ [item]) (fmupd q rest qs))"

lemma item_of_task_of [simp]:
  "item_of (task_of i q a item) = \<lparr>item_data = item_data item, item_attempts = item_attempts item + 1\<rparr>"
  by (simp add: item_of_def)

lemma attempts_reached: "n < 5 \<Longrightarrow> (5 \<le> (of_nat n + 1 :: u32)) = (n = 4)"
  by (auto simp: less_Suc_eq numeral_eq_Suc simp del: of_nat_Suc) (simp_all add: word_le_nat_alt)

lemma redelivered_step:
  assumes "n < 5"
  shows "returned (task_of i q 0 \<lparr>item_data = d, item_attempts = of_nat n\<rparr>)
      (fmupd q rest (redelivered q d rest n qs)) = redelivered q d rest (Suc n) qs"
  using assms attempts_reached [OF assms]
  by (cases "n = 4") (simp_all add: returned_def redelivered_def Let_def add.commute)

lemma failed_deliveries_state:
  assumes wf: "well_formed s" and "log_works X (wal s)"
    and "fmlookup (queues s) q = Some (fresh_item d # rest)" and "n \<le> 5"
  shows "let s' = run (after X K) (failed_deliveries q (uuids s) n) s in
    in_flight s' = in_flight s \<and> queues s' = redelivered q d rest n (queues s) \<and>
    uuids s' = sdrop n (uuids s) \<and> log_works X (wal s') \<and> well_formed s'"
  using assms(4)
proof (induction n)
  case 0
  then show ?case using assms(1-3) by (simp add: redelivered_def fresh_item_def fmupd_same)
next
  case (Suc n)
  let ?s' = "run (after X K) (failed_deliveries q (uuids s) n) s"
  have IH: "in_flight ?s' = in_flight s" "queues ?s' = redelivered q d rest n (queues s)"
    "uuids ?s' = sdrop n (uuids s)" "log_works X (wal ?s')" "well_formed ?s'"
    using Suc by (simp_all add: Let_def)
  have front: "fmlookup (queues ?s') q = Some (\<lparr>item_data = d, item_attempts = of_nat n\<rparr> # rest)"
    using Suc.prems by (simp add: IH(2) redelivered_def)
  have id: "shd (uuids ?s') = uuids s !! n" by (simp add: IH(3))
  obtain w c where step: "run (after X K) [Dequeue_one q, Nack_one (shd (uuids ?s'))] ?s' =
      ?s'\<lparr>queues := returned (task_of (shd (uuids ?s')) q 0 \<lparr>item_data = d, item_attempts = of_nat n\<rparr>)
            (fmupd q rest (queues ?s')), uuids := stl (uuids ?s'), wal := w, clock := c\<rparr>"
    "log_works X w"
    using redelivery [OF IH(5,4) front] by blast
  have run: "run (after X K) (failed_deliveries q (uuids s) (Suc n)) s =
      run (after X K) [Dequeue_one q, Nack_one (shd (uuids ?s'))] ?s'"
    by (simp only: failed_deliveries.simps run_append id)
  have "well_formed (run (after X K) [Dequeue_one q, Nack_one (shd (uuids ?s'))] ?s')"
    by (rule keeps.inv_run [OF IH(5)])
  then show ?case
    using Suc.prems step(2) unfolding run step(1)
    by (simp add: Let_def IH(1-3) redelivered_step)
qed

text \<open>
  C19: a message whose deliveries fail is redelivered first, and gives way after five. A fresh
  message at the front of its queue that is delivered and then rejected up to four times is back at
  the front, its count of attempts the number of deliveries, ahead of everything behind it. The
  fifth rejection moves it, with a count of 5, to the end of the queue's dead-letter queue, which
  is created when there is none. Nothing else moves, and nothing stays in flight.
\<close>

theorem dead_letter_after_five:
  assumes "well_formed s" and "log_works X (wal s)"
    and "fmlookup (queues s) q = Some (fresh_item d # rest)" and "n \<le> 5"
  shows "in_flight (run (after X K) (failed_deliveries q (uuids s) n) s) = in_flight s \<and>
    queues (run (after X K) (failed_deliveries q (uuids s) n) s) =
      (if n < 5 then fmupd q (\<lparr>item_data = d, item_attempts = of_nat n\<rparr> # rest) (queues s)
       else fmupd (dlq_name q) (content_of (dlq_name q) s @ [\<lparr>item_data = d, item_attempts = 5\<rparr>])
              (fmupd q rest (queues s)))"
  using failed_deliveries_state [OF assms] assms(4)
  by (auto simp: Let_def redelivered_def content_of_def)

theorem dead_letter_after_five_witness:
  "let s = (new_storage numbered (sconst 0))\<lparr>queues := fmupd ''q'' [fresh_item [7], fresh_item [8]] fmempty\<rparr>;
       s' = run (after unary_codec (\<lambda>_. [])) (failed_deliveries ''q'' numbered 5) s
   in in_flight s' = fmempty \<and> fmlookup (queues s') ''q'' = Some [fresh_item [8]] \<and>
      fmlookup (queues s') ''q_dlq'' = Some [\<lparr>item_data = [7], item_attempts = 5\<rparr>]"
proof -
  let ?s = "(new_storage numbered (sconst 0))\<lparr>queues := fmupd ''q'' [fresh_item [7], fresh_item [8]] fmempty\<rparr>"
  have "well_formed ?s"
    by (simp add: well_formed_def flights_ok_def ids_ok_def new_storage_def)
  moreover have "uuids ?s = numbered" by (simp add: new_storage_def)
  ultimately show ?thesis
    using dead_letter_after_five [of ?s unary_codec "''q''" "[7]" "[fresh_item [8]]" 5 "\<lambda>_. []"]
    by (simp add: Let_def new_storage_def dlq_name_def content_of_def)
qed

end
