(* ===== verification/Recovery.thy ===== *)
theory Recovery
  imports Accounting
begin

text \<open>
  Restarting from the log: \<^verbatim>\<open>InMemoryStorage::new_persistent\<close> of
  \<^verbatim>\<open>src/storage/memory.rs\<close>, and the refinement that makes the log a faithful record. The
  abstract meaning of a log entry is a function on views of the storage (the two maps without
  delivery times); every storage operation commits the entries it logs, and replaying commits the
  same ones.
\<close>

section \<open>The code: replay and start-up\<close>

text \<open>The replay of a \<^verbatim>\<open>Dequeued\<close> entry forces the logged identifier.\<close>

definition force_dequeue :: "string \<Rightarrow> string \<Rightarrow> storage \<Rightarrow> storage" where
  "force_dequeue qn tid s =
     (case fmlookup (queues s) qn of
        None \<Rightarrow> s
      | Some [] \<Rightarrow> s
      | Some (item # rest) \<Rightarrow>
          let task = \<lparr>task_id = tid, task_data = item_data item, consumed_at = shd (clock s),
                      task_queue = qn, task_attempts = item_attempts item + 1\<rparr>
          in s\<lparr>queues := fmupd qn rest (queues s), clock := stl (clock s),
               in_flight := fmupd (task_id task) task (in_flight s)\<rparr>)"

fun replay_op :: "codec \<Rightarrow> wal_op \<Rightarrow> storage \<Rightarrow> storage" where
  "replay_op X (CreateQueue name) s = snd (create_queue X name s)"
| "replay_op X (Enqueue qn d) s = snd (queue X qn d s)"
| "replay_op X (Dequeued qn tid) s = force_dequeue qn tid s"
| "replay_op X (Ack tid) s = snd (ack X tid s)"
| "replay_op X (AckBatch ids) s = snd (ack_batch X ids s)"
| "replay_op X (Nack tid) s = snd (nack X tid s)"
| "replay_op X (ExtendVisibility tid _) s = snd (extend_visibility X tid 0 s)"
| "replay_op X (EnqueueBatch qn ds) s = snd (queue_batch X qn ds s)"
| "replay_op X (DequeuedBatch qn ids) s =
     (case fmlookup (queues s) qn of
        None \<Rightarrow> s
      | Some _ \<Rightarrow> foldl (\<lambda>s tid. force_dequeue qn tid s) s ids)"

definition new_persistent ::
    "codec \<Rightarrow> disk_file \<Rightarrow> string stream \<Rightarrow> instant stream \<Rightarrow> storage res" where
  "new_persistent X f u c =
     (let entries = (case replay X f of Inl _ \<Rightarrow> [] | Inr es \<Rightarrow> es);
          st = foldl (\<lambda>s e. replay_op X (entry_op e) s) (new_storage u c) entries
      in (case wal_new f of
            Inl p \<Rightarrow> Inl p
          | Inr m \<Rightarrow> Inr (st\<lparr>wal := Some m\<rparr>)))"

section \<open>Views and the meaning of a log entry\<close>

text \<open>A view forgets delivery times, the log, and the outside world.\<close>

record view =
  vqueues :: "(string, queue_item list) fmap"
  vflights :: "(string, in_flight_task) fmap"

definition untimed :: "in_flight_task \<Rightarrow> in_flight_task" where
  "untimed t = t\<lparr>consumed_at := 0\<rparr>"

definition view_of :: "storage \<Rightarrow> view" where
  "view_of s = \<lparr>vqueues = queues s, vflights = fmmap untimed (in_flight s)\<rparr>"

definition empty_view :: view where
  "empty_view = \<lparr>vqueues = fmempty, vflights = fmempty\<rparr>"

definition push :: "string \<Rightarrow> queue_item list \<Rightarrow> view \<Rightarrow> view" where
  "push q items v =
     (case fmlookup (vqueues v) q of
        None \<Rightarrow> v
      | Some xs \<Rightarrow> v\<lparr>vqueues := fmupd q (xs @ items) (vqueues v)\<rparr>)"

definition deliver :: "string \<Rightarrow> view \<Rightarrow> string \<Rightarrow> view" where
  "deliver q v i =
     (case fmlookup (vqueues v) q of
        Some (item # rest) \<Rightarrow>
          v\<lparr>vqueues := fmupd q rest (vqueues v), vflights := fmupd i (task_of i q 0 item) (vflights v)\<rparr>
      | _ \<Rightarrow> v)"

fun apply_op :: "wal_op \<Rightarrow> view \<Rightarrow> view" where
  "apply_op (CreateQueue n) v =
     (if n |\<in>| fmdom (vqueues v) then v else v\<lparr>vqueues := fmupd n [] (vqueues v)\<rparr>)"
| "apply_op (Enqueue q d) v = push q [fresh_item d] v"
| "apply_op (EnqueueBatch q ds) v = push q (map fresh_item ds) v"
| "apply_op (Dequeued q i) v = deliver q v i"
| "apply_op (DequeuedBatch q ids) v = foldl (deliver q) v ids"
| "apply_op (Ack i) v = v\<lparr>vflights := fmdrop i (vflights v)\<rparr>"
| "apply_op (AckBatch ids) v =
     (if set ids \<subseteq> fset (fmdom (vflights v)) then v\<lparr>vflights := drop_all ids (vflights v)\<rparr> else v)"
| "apply_op (Nack i) v =
     (case fmlookup (vflights v) i of
        None \<Rightarrow> v
      | Some t \<Rightarrow> v\<lparr>vflights := fmdrop i (vflights v), vqueues := returned t (vqueues v)\<rparr>)"
| "apply_op (ExtendVisibility i n) v = v"

lemma view_sel [simp]:
  "vqueues (view_of s) = queues s" "vflights (view_of s) = fmmap untimed (in_flight s)"
  by (simp_all add: view_of_def)

lemma view_world [simp]:
  "view_of (s\<lparr>wal := w\<rparr>) = view_of s" "view_of (s\<lparr>clock := c\<rparr>) = view_of s"
  "view_of (s\<lparr>uuids := u\<rparr>) = view_of s"
  by (simp_all add: view_of_def)

lemma untimed_task_of [simp]: "untimed (task_of i q a item) = task_of i q 0 item"
  by (simp add: untimed_def task_of_def)

lemma untimed_sel [simp]:
  "task_id (untimed t) = task_id t" "task_data (untimed t) = task_data t"
  "task_queue (untimed t) = task_queue t" "task_attempts (untimed t) = task_attempts t"
  "untimed (t\<lparr>consumed_at := a\<rparr>) = untimed t"
  by (simp_all add: untimed_def)

lemma item_of_untimed [simp]: "item_of (untimed t) = item_of t"
  by (simp add: item_of_def)

lemma returned_untimed [simp]: "returned (untimed t) qs = returned t qs"
  by (simp add: returned_def split: option.split)

lemma fmmap_drop_all [simp]: "drop_all ids (fmmap f m) = fmmap f (drop_all ids m)"
  by (rule fmap_ext) auto

lemma fmmap_insert_tasks:
  "fmmap untimed (insert_tasks ts m) = insert_tasks (map untimed ts) (fmmap untimed m)"
  by (induction ts arbitrary: m) simp_all

lemma untimed_tasks_of: "map untimed (tasks_of q ps c) = map (\<lambda>(i, x). task_of i q 0 x) ps"
  by (induction q ps c rule: tasks_of.induct) simp_all

lemma deliver_all:
  "fmlookup (vqueues v) q = Some xs \<Longrightarrow> length ids \<le> length xs \<Longrightarrow>
     foldl (deliver q) v ids =
       v\<lparr>vqueues := fmupd q (drop (length ids) xs) (vqueues v),
         vflights := insert_tasks (map (\<lambda>(i, x). task_of i q 0 x) (zip ids xs)) (vflights v)\<rparr>"
proof (induction ids arbitrary: v xs)
  case Nil
  then show ?case by (simp add: fmupd_same)
next
  case (Cons i ids)
  then obtain x rest where "xs = x # rest" by (cases xs) auto
  then show ?case using Cons by (simp add: deliver_def)
qed

section \<open>Replaying an entry means its abstract operation\<close>

lemma view_force_dequeue: "view_of (force_dequeue q i s) = deliver q (view_of s) i"
  by (auto simp: force_dequeue_def deliver_def view_of_def Let_def task_of_def untimed_def
      split: option.split list.split)

lemma view_force_all:
  "view_of (foldl (\<lambda>s i. force_dequeue q i s) s ids) = foldl (deliver q) (view_of s) ids"
  by (induction ids arbitrary: s) (simp_all add: view_force_dequeue)

lemma deliver_absent: "fmlookup (vqueues v) q = None \<Longrightarrow> foldl (deliver q) v ids = v"
  by (induction ids arbitrary: v) (simp_all add: deliver_def)

lemma view_replay_op:
  assumes "wal s = None" shows "view_of (replay_op X a s) = apply_op a (view_of s)"
proof -
  have step: "wal_step X b (wal s) (clock s) = (Inr (), None, clock s)" for b
    using assms by simp
  show ?thesis
  proof (cases a)
    case (CreateQueue n)
    then show ?thesis
      by (cases "n |\<in>| fmdom (queues s)")
        (simp_all add: create_queue_exists create_queue_logged [OF _ step] view_of_def)
  next
    case (Enqueue q d)
    then show ?thesis
      by (cases "fmlookup (queues s) q")
        (simp_all add: queue_missing queue_logged [OF _ step] push_def fresh_item_def view_of_def)
  next
    case (EnqueueBatch q ds)
    then show ?thesis
      by (cases "fmlookup (queues s) q")
        (simp_all add: queue_batch_missing queue_batch_logged [OF _ step] push_def view_of_def)
  next
    case (Dequeued q i)
    then show ?thesis by (simp add: view_force_dequeue)
  next
    case (DequeuedBatch q ids)
    then show ?thesis by (auto simp: view_force_all deliver_absent split: option.split)
  next
    case (Ack i)
    show ?thesis
    proof (cases "fmlookup (in_flight s) i")
      case None
      then have "fmdrop i (fmmap untimed (in_flight s)) = fmmap untimed (in_flight s)"
        by (simp add: fmdrop_absent)
      then show ?thesis using Ack None by (simp add: ack_missing view_of_def)
    next
      case (Some t)
      then show ?thesis using Ack by (simp add: ack_logged [OF _ step] view_of_def)
    qed
  next
    case (AckBatch ids)
    then show ?thesis
      by (cases "missing_tasks ids s = []")
        (simp_all add: ack_batch_missing ack_batch_logged [OF _ step] missing_tasks_Nil view_of_def)
  next
    case (Nack i)
    then show ?thesis
      by (cases "fmlookup (in_flight s) i")
        (simp_all add: nack_missing nack_logged [OF _ step] requeue_queues view_of_def)
  next
    case (ExtendVisibility i n)
    then show ?thesis
      by (cases "fmlookup (in_flight s) i")
        (simp_all add: extend_missing extend_logged [OF _ step] view_of_def fmupd_same)
  qed
qed

end
