(* ===== verification/Storage_Laws.thy ===== *)
theory Storage_Laws
  imports Delivery "HOL-Library.List_Lexorder" "HOL-Library.Char_ord"
begin

text \<open>
  Laws of the single operations of the storage: batches in terms of single calls, what a failed
  call leaves behind, the expiry scan and the heartbeat, the statistics, and snapshots.
\<close>

section \<open>Batches\<close>

text \<open>Dequeue until the queue is empty, at most \<open>n\<close> times.\<close>

fun dequeues :: "codec \<Rightarrow> string \<Rightarrow> nat \<Rightarrow> storage \<Rightarrow> in_flight_task list \<times> storage" where
  "dequeues X q 0 s = ([], s)"
| "dequeues X q (Suc n) s =
     (case dequeue X q s of
        (Inr (Some t), s1) \<Rightarrow> (case dequeues X q n s1 of (ts, s2) \<Rightarrow> (t # ts, s2))
      | (_, s1) \<Rightarrow> ([], s1))"

lemma dequeues_eq:
  "wal s = None \<Longrightarrow> fmlookup (queues s) q = Some xs \<Longrightarrow>
     dequeues X q n s =
       (let k = min (length xs) n; ts = tasks_of q (zip (stake k (uuids s)) (take k xs)) (clock s) in
        (ts, s\<lparr>queues := fmupd q (drop k xs) (queues s), uuids := sdrop k (uuids s),
               clock := sdrop k (clock s), in_flight := insert_tasks ts (in_flight s)\<rparr>))"
proof (induction n arbitrary: s xs)
  case 0
  then show ?case by (simp add: fmupd_same)
next
  case (Suc n)
  show ?case
  proof (cases xs)
    case Nil
    then show ?thesis using Suc.prems by (simp add: dequeue_empty fmupd_same)
  next
    case (Cons item rest)
    have "wal_step X (Dequeued q (shd (uuids s))) (wal s) (clock s) = (Inr (), None, clock s)"
      by (simp add: Suc.prems)
    from dequeue_logged [OF Suc.prems(2) [unfolded Cons] this] Suc.prems show ?thesis
      using Cons by (simp add: Let_def Suc.IH)
  qed
qed

text \<open>
  A batch dequeue is a sequence of single dequeues. Without a log, and for a count below the
  capacity limit, \<^verbatim>\<open>dequeue_batch\<close> returns the tasks that up to \<open>count\<close> calls of
  \<^verbatim>\<open>dequeue\<close> return, and leaves the same storage: same queues, tasks in flight, and
  identifiers and clock readings used.
\<close>

lemma dequeue_batch_iterates:
  assumes "wal s = None" and "q |\<in>| fmdom (queues s)" and "unat n < 2 ^ 58"
  shows "dequeue_batch X q n s = (case dequeues X q (unat n) s of (ts, s') \<Rightarrow> (Inr ts, s'))"
proof -
  obtain xs where xs: "fmlookup (queues s) q = Some xs" using assms(2) by (auto simp: fmdom_lookup)
  have cap: "\<not> capacity_overflow queue_item_size (unat n)"
    using assms(3) by (simp add: capacity_overflow_def queue_item_size_def)
  have step: "wal_step X a (wal s) (clock s) = (Inr (), None, clock s)" for a
    by (simp add: assms(1))
  consider "xs = []" | "xs \<noteq> []" "unat n = 0" | "xs \<noteq> []" "unat n \<noteq> 0" by blast
  then show ?thesis
  proof cases
    case 3
    show ?thesis
      using dequeue_batch_logged [OF xs 3(1) cap 3(2) step] assms(1)
      by (simp add: dequeues_eq [OF assms(1) xs] Let_def)
  qed (use xs in \<open>simp_all add: dequeues_eq [OF assms(1) xs] dequeue_batch_empty dequeue_batch_zero fmupd_same Let_def\<close>)
qed

lemma dequeue_batch_iterates_witness:
  "let s = (new_storage numbered (sconst 5))\<lparr>queues := fmupd ''q'' [fresh_item [7]] fmempty\<rparr> in
   dequeue_batch unary_codec ''q'' 3 s = (case dequeues unary_codec ''q'' (unat (3 :: u64)) s of (ts, s') \<Rightarrow> (Inr ts, s'))"
  using dequeue_batch_iterates
    [of "(new_storage numbered (sconst 5))\<lparr>queues := fmupd ''q'' [fresh_item [7]] fmempty\<rparr>" "''q''" 3]
  by (simp add: new_storage_def Let_def)

lemma queues_one_by_one:
  "wal s = None \<Longrightarrow> fmlookup (queues s) q = Some xs \<Longrightarrow>
     foldl (\<lambda>s d. snd (queue X q d s)) s ds = s\<lparr>queues := fmupd q (xs @ map fresh_item ds) (queues s)\<rparr>"
proof (induction ds arbitrary: s xs)
  case Nil
  then show ?case by (simp add: fmupd_same)
next
  case (Cons d ds)
  have "wal_step X (Enqueue q d) (wal s) (clock s) = (Inr (), None, clock s)"
    by (simp add: Cons.prems)
  from queue_logged [OF Cons.prems(2) this] Cons.prems show ?case
    by (simp add: Cons.IH fresh_item_def)
qed

lemma acks_one_by_one:
  "wal s = None \<Longrightarrow>
     foldl (\<lambda>s i. snd (ack X i s)) s ids = s\<lparr>in_flight := drop_all ids (in_flight s)\<rparr>"
proof (induction ids arbitrary: s)
  case Nil
  then show ?case by simp
next
  case (Cons i ids)
  have "wal_step X (Ack i) (wal s) (clock s) = (Inr (), None, clock s)"
    by (simp add: Cons.prems)
  then show ?case
    using Cons by (cases "fmlookup (in_flight s) i") (simp_all add: ack_missing ack_logged fmdrop_absent)
qed

text \<open>
  Batches of messages and of acknowledgements are atomic sequences of single calls. Without a
  log, \<^verbatim>\<open>queue_batch\<close> on an existing queue leaves what queueing its payloads one by one
  leaves; \<^verbatim>\<open>ack_batch\<close> leaves what acknowledging its tasks one by one leaves when all of
  them are in flight, and otherwise changes nothing and names the missing ones.
\<close>

lemma batches_iterate:
  assumes "wal s = None"
  shows "(q |\<in>| fmdom (queues s) \<longrightarrow>
      queue_batch X q ds s = (Inr (), foldl (\<lambda>s d. snd (queue X q d s)) s ds)) \<and>
    ack_batch X ids s =
      (if set ids \<subseteq> fset (fmdom (in_flight s)) then (Inr (), foldl (\<lambda>s i. snd (ack X i s)) s ids)
       else (Inl (Err (''Tasks not found: '' @
              join_comma (filter (\<lambda>i. i |\<notin>| fmdom (in_flight s)) ids))), s))"
proof
  have step: "wal_step X a (wal s) (clock s) = (Inr (), None, clock s)" for a
    by (simp add: assms)
  show "q |\<in>| fmdom (queues s) \<longrightarrow>
      queue_batch X q ds s = (Inr (), foldl (\<lambda>s d. snd (queue X q d s)) s ds)"
    using assms by (auto simp: fmdom_lookup queue_batch_logged [OF _ step] queues_one_by_one)
  show "ack_batch X ids s =
      (if set ids \<subseteq> fset (fmdom (in_flight s)) then (Inr (), foldl (\<lambda>s i. snd (ack X i s)) s ids)
       else (Inl (Err (''Tasks not found: '' @
              join_comma (filter (\<lambda>i. i |\<notin>| fmdom (in_flight s)) ids))), s))"
  proof (cases "missing_tasks ids s = []")
    case True
    with assms show ?thesis
      by (simp add: ack_batch_logged [OF True step] acks_one_by_one flip: missing_tasks_Nil)
  next
    case False
    then show ?thesis
      using ack_batch_missing [OF False] by (simp add: missing_tasks_Nil) (simp add: missing_tasks_def)
  qed
qed

lemma batches_iterate_witness:
  "let s = (new_storage numbered (sconst 5))\<lparr>queues := fmupd ''q'' [] fmempty\<rparr> in
   queue_batch unary_codec ''q'' [[1], [2]] s =
     (Inr (), foldl (\<lambda>s d. snd (queue unary_codec ''q'' d s)) s [[1], [2]]) \<and>
   fst (ack_batch unary_codec [''x''] s) = Inl (Err ''Tasks not found: x'')"
  using batches_iterate [of "(new_storage numbered (sconst 5))\<lparr>queues := fmupd ''q'' [] fmempty\<rparr>" "''q''"
      unary_codec "[[1], [2]]" "[''x'']"]
  by (simp add: new_storage_def Let_def)

text \<open>
  The one way \<^verbatim>\<open>dequeue_batch\<close> panics. The call unwinds exactly when the queue exists
  and holds something and the count is at least \<open>2\<^sup>5\<^sup>8\<close>, whatever the queue's length: the
  vector for the items is allocated for the requested count. The storage is then unchanged.
\<close>

lemma dequeue_batch_panics:
  "((\<exists>m. fst (dequeue_batch X q n s) = Inl (Panic m)) \<longleftrightarrow>
      content_of q s \<noteq> [] \<and> 2 ^ 58 \<le> unat n) \<and>
   (dequeue_batch X q n s = (Inl (Panic ''capacity overflow''), s) \<longleftrightarrow>
      content_of q s \<noteq> [] \<and> 2 ^ 58 \<le> unat n)"
proof -
  have overflow: "capacity_overflow queue_item_size (unat n) \<longleftrightarrow> 2 ^ 58 \<le> unat n"
    by (auto simp: capacity_overflow_def queue_item_size_def)
  show ?thesis
  proof (cases "fmlookup (queues s) q")
    case (Some xs)
    consider "xs = []" | "xs \<noteq> []" "capacity_overflow queue_item_size (unat n)"
      | "xs \<noteq> []" "unat n = 0" | "xs \<noteq> []" "\<not> capacity_overflow queue_item_size (unat n)" "unat n \<noteq> 0"
      by blast
    then show ?thesis
    proof cases
      case 4
      then show ?thesis
        using dequeue_batch_failed [OF Some 4] dequeue_batch_logged [OF Some 4] overflow
        by (cases X "DequeuedBatch q (batch_ids s (unat n) xs)" s rule: step_cases)
          (simp_all add: Let_def)
    qed (use Some overflow in \<open>auto simp: content_of_def dequeue_batch_empty dequeue_batch_overflow dequeue_batch_zero\<close>)
  qed (simp add: dequeue_batch_missing content_of_def)
qed

section \<open>Errors\<close>

text \<open>A reply that is an error or a panic.\<close>

fun failed :: "reply \<Rightarrow> bool" where
  "failed (Done r) = (\<not> is_ok r)"
| "failed (Delivered r) = (\<not> is_ok r)"
| "failed (Delivered_batch r) = (\<not> is_ok r)"
| "failed (Cleaned r) = (\<not> is_ok r)"
| "failed (Reported r) = (\<not> is_ok r)"

text \<open>The queues and the tasks in flight are the same.\<close>

definition unchanged :: "storage \<Rightarrow> storage \<Rightarrow> bool" where
  "unchanged s s' \<longleftrightarrow> queues s' = queues s \<and> in_flight s' = in_flight s"

lemma unchanged_refl [simp]: "unchanged s s"
  by (simp add: unchanged_def)

lemma failed_create_queue: "\<not> is_ok (fst (create_queue X n s)) \<Longrightarrow> unchanged s (snd (create_queue X n s))"
  by (cases X "CreateQueue n" s rule: step_cases; cases "n |\<in>| fmdom (queues s)")
    (simp_all add: create_queue_eqs unchanged_def)

lemma failed_queue: "\<not> is_ok (fst (queue X q d s)) \<Longrightarrow> unchanged s (snd (queue X q d s))"
  by (cases X "Enqueue q d" s rule: step_cases; cases "fmlookup (queues s) q")
    (simp_all add: queue_eqs unchanged_def)

lemma failed_queue_batch: "\<not> is_ok (fst (queue_batch X q ds s)) \<Longrightarrow> unchanged s (snd (queue_batch X q ds s))"
  by (cases X "EnqueueBatch q ds" s rule: step_cases; cases "fmlookup (queues s) q")
    (simp_all add: queue_batch_eqs unchanged_def)

lemma failed_dequeue:
  assumes "\<not> is_ok (fst (dequeue X q s))" shows "unchanged s (snd (dequeue X q s))"
proof (cases "fmlookup (queues s) q")
  case (Some xs)
  show ?thesis
  proof (cases xs)
    case (Cons item rest)
    with Some assms show ?thesis
      by (cases X "Dequeued q (shd (uuids s))" s rule: step_cases)
        (simp_all add: dequeue_failed dequeue_logged unchanged_def Let_def)
  qed (use Some in \<open>simp add: dequeue_empty\<close>)
qed (simp add: dequeue_missing)

lemma failed_ack:
  "\<not> is_ok (fst (ack X i s)) \<Longrightarrow>
     queues (snd (ack X i s)) = queues s \<and> in_flight (snd (ack X i s)) = fmdrop i (in_flight s)"
  by (cases X "Ack i" s rule: step_cases; cases "fmlookup (in_flight s) i")
    (simp_all add: ack_eqs fmdrop_absent)

lemma failed_nack:
  "well_formed s \<Longrightarrow> \<not> is_ok (fst (nack X i s)) \<Longrightarrow> unchanged s (snd (nack X i s))"
  by (cases X "Nack i" s rule: step_cases; cases "fmlookup (in_flight s) i")
    (simp_all add: nack_missing nack_failed nack_logged_eq unchanged_def)

lemma failed_extend:
  "\<not> is_ok (fst (extend_visibility X i n s)) \<Longrightarrow> unchanged s (snd (extend_visibility X i n s))"
  by (cases X "ExtendVisibility i n" s rule: step_cases; cases "fmlookup (in_flight s) i")
    (simp_all add: extend_eqs unchanged_def)

lemma failed_cleanup:
  "\<not> is_ok (fst (cleanup_expired_tasks X K n s)) \<Longrightarrow> unchanged s (snd (cleanup_expired_tasks X K n s))"
  by (auto simp: cleanup_expired_tasks_def scan_expired_tasks_def Let_def unchanged_def
      split: sum.splits prod.splits)

lemma failed_ack_batch: "\<not> is_ok (fst (ack_batch X ids s)) \<Longrightarrow> unchanged s (snd (ack_batch X ids s))"
  by (cases X "AckBatch ids" s rule: step_cases; cases "missing_tasks ids s = []")
    (simp_all add: ack_batch_eqs unchanged_def)

lemma failed_dequeue_batch:
  assumes "\<not> is_ok (fst (dequeue_batch X q n s))" shows "unchanged s (snd (dequeue_batch X q n s))"
proof (cases "fmlookup (queues s) q")
  case (Some xs)
  consider "xs = []" | "xs \<noteq> []" "capacity_overflow queue_item_size (unat n)"
    | "xs \<noteq> []" "unat n = 0" | "xs \<noteq> []" "\<not> capacity_overflow queue_item_size (unat n)" "unat n \<noteq> 0"
    by blast
  then show ?thesis
  proof cases
    case 4
    then show ?thesis
      using dequeue_batch_failed [OF Some 4] dequeue_batch_logged [OF Some 4] assms
      by (cases X "DequeuedBatch q (batch_ids s (unat n) xs)" s rule: step_cases)
        (simp_all add: Let_def unchanged_def)
  qed (use Some in \<open>simp_all add: dequeue_batch_empty dequeue_batch_overflow dequeue_batch_zero\<close>)
qed (simp add: dequeue_batch_missing)

text \<open>
  C32: a call that fails changes nothing, with one exception. Whatever the call and the reason, a
  panic and an error of the log included, the queues and the tasks in flight are as before when the
  reply is an error; but an acknowledgement whose log entry cannot be written has already taken
  its task out of memory.
\<close>

theorem failed_call_changes_nothing:
  assumes "well_formed s" and "failed (fst (perform X K c s))"
  shows "queues (after X K c s) = queues s \<and>
    in_flight (after X K c s) = (case c of Ack_one i \<Rightarrow> fmdrop i (in_flight s) | _ \<Rightarrow> in_flight s)"
proof (cases c)
  case (Ack_one i)
  with assms show ?thesis using failed_ack [of X i s] by simp
next
  case Get_stats
  then show ?thesis by simp
qed (use assms failed_create_queue [of X _ s] failed_queue [of X _ _ s] failed_dequeue [of X _ s]
    failed_nack [of s X] failed_extend [of X _ _ s] failed_cleanup [of X K _ s]
    failed_queue_batch [of X _ _ s] failed_dequeue_batch [of X _ _ s] failed_ack_batch [of X _ s]
  in \<open>simp_all add: unchanged_def\<close>)

text \<open>A log whose first write fails after \<open>k\<close> bytes.\<close>

definition failing_manager :: "nat \<Rightarrow> wal_manager" where
  "failing_manager k = fresh_manager\<lparr>write_results := Some (k, ''disk full'') ## sconst None\<rparr>"

text \<open>A storage with one queue, one task in flight, and the log \<open>w\<close>.\<close>

definition one_task :: "wal_manager option \<Rightarrow> storage" where
  "one_task w = \<lparr>queues = fmupd ''q'' [] fmempty, in_flight = fmupd ''t'' (task_of ''t'' ''q'' 0 (fresh_item [7])) fmempty,
     wal = w, uuids = smap (\<lambda>i. CHR ''u'' # i) numbered, clock = sconst 90000000000\<rparr>"

lemma one_task_sel [simp]:
  "queues (one_task w) = fmupd ''q'' [] fmempty"
  "in_flight (one_task w) = fmupd ''t'' (task_of ''t'' ''q'' 0 (fresh_item [7])) fmempty"
  "wal (one_task w) = w" "clock (one_task w) = sconst 90000000000"
  by (simp_all add: one_task_def)

lemma one_task_well_formed: "well_formed (one_task w)"
proof -
  have "unrepeated (smap (\<lambda>i. CHR ''u'' # i) numbered)"
    using unrepeated_numbered by (simp add: unrepeated_def inj_def)
  then show ?thesis
    by (auto simp: well_formed_def flights_ok_def ids_ok_def one_task_def stream.set_map split: if_splits)
qed

theorem failed_call_changes_nothing_witness:
  "let s = one_task (Some (failing_manager 3)) in
   in_flight (after unary_codec (\<lambda>_. []) (Ack_one ''t'') s) = fmempty \<and>
   fst (perform unary_codec (\<lambda>_. []) (Ack_one ''t'') s) = Done (Inl (Err ''WAL write failed: disk full''))"
proof -
  let ?s = "one_task (Some (failing_manager 3))"
  have step: "fst (wal_step unary_codec (Ack ''t'') (wal ?s) (clock ?s)) = Inl ''disk full''"
    by (simp add: wal_step_def wal_append_eq [OF unary_codec_law] failing_manager_def)
  then obtain w c where "wal_step unary_codec (Ack ''t'') (wal ?s) (clock ?s) = (Inl ''disk full'', w, c)"
    by (metis prod.collapse)
  then have "fst (ack unary_codec ''t'' ?s) = Inl (Err ''WAL write failed: disk full'')"
    by (subst ack_failed) auto
  then show ?thesis
    using failed_call_changes_nothing [OF one_task_well_formed [of "Some (failing_manager 3)"],
        where X = unary_codec and K = "\<lambda>_. []" and c = "Ack_one ''t''"]
    by (simp add: Let_def)
qed

section \<open>Expiry\<close>

lemma duration_range:
  fixes n :: u64
  shows "duration_seconds n =
    (if unat n \<le> 9223372036854775 then Inr (int (unat n) * 1000000000)
     else if unat n < 18437520701672696841 then Inl (Panic ''TimeDelta::seconds out of bounds'')
     else Inr ((int (unat n) - 18446744073709551616) * 1000000000))"
proof -
  have bound: "uint n < 18446744073709551616"
    using uint_bounded [of n] by simp
  have low: "uint n < 9223372036854775808 \<Longrightarrow> (uint n + 9223372036854775808) mod 18446744073709551616 = uint n + 9223372036854775808"
    using uint_nonnegative [of n] by (simp add: mod_pos_pos_trivial)
  have high: "\<not> uint n < 9223372036854775808 \<Longrightarrow> (uint n + 9223372036854775808) mod 18446744073709551616 = uint n - 9223372036854775808"
    using bound mod_add_self2 [of "uint n - 9223372036854775808" 18446744073709551616]
    by (simp add: mod_pos_pos_trivial add.commute)
  have "sint n = (if uint n < 9223372036854775808 then uint n else uint n - 18446744073709551616)"
    using low high by (simp add: sint_uint signed_take_bit_eq_take_bit_shift take_bit_eq_mod)
  then show ?thesis
    using bound uint_nonnegative [of n] by (auto simp: duration_seconds_def nat_less_iff nat_le_iff simp flip: nat_uint_eq)
      (use uint_nonnegative [of n] in linarith)+
qed

text \<open>The tasks whose age at the time \<open>now\<close> exceeds the timeout, for a timeout read as \<open>limit\<close>.\<close>

definition expired :: "int \<Rightarrow> instant \<Rightarrow> (string, in_flight_task) fmap \<Rightarrow> string set" where
  "expired limit now fl = {i. \<exists>t. fmlookup fl i = Some t \<and> limit < now - consumed_at t}"

lemma scan_eq:
  assumes "enumerates K" and "duration_seconds n = Inr limit"
  obtains ids where "scan_expired_tasks K n s = (Inr ids, s\<lparr>clock := stl (clock s)\<rparr>)"
    and "distinct ids" and "set ids = expired limit (shd (clock s)) (in_flight s)"
proof
  let ?p = "\<lambda>i. case fmlookup (in_flight s) i of None \<Rightarrow> False | Some t \<Rightarrow> limit < shd (clock s) - consumed_at t"
  let ?ids = "filter ?p (K (fmdom (in_flight s)))"
  show "scan_expired_tasks K n s = (Inr ?ids, s\<lparr>clock := stl (clock s)\<rparr>)"
    using assms(2) by (simp add: scan_expired_tasks_def Let_def)
  have "distinct (K (fmdom (in_flight s)))" "set (K (fmdom (in_flight s))) = fset (fmdom (in_flight s))"
    using assms(1) by (simp_all add: enumerates_def)
  then show "distinct ?ids" "set ?ids = expired limit (shd (clock s)) (in_flight s)"
    by (auto simp: expired_def fmdom_lookup split: option.splits)
qed

text \<open>
  C31: what an expiry scan lists. For timeouts up to 9223372036854775 seconds the scan lists each
  task in flight whose age exceeds the timeout, once, and no other; between there and
  18437520701672696841 it panics; from there on the timeout is read as a negative number of
  seconds.
\<close>

theorem scan_lists_expired:
  assumes "enumerates K"
  shows "(fst (scan_expired_tasks K n s) = Inl (Panic ''TimeDelta::seconds out of bounds'') \<longleftrightarrow>
      9223372036854775 < unat n \<and> unat n < 18437520701672696841) \<and>
    (case fst (scan_expired_tasks K n s) of
       Inl p \<Rightarrow> p = Panic ''TimeDelta::seconds out of bounds''
     | Inr ids \<Rightarrow> distinct ids \<and> set ids = expired
         ((if unat n \<le> 9223372036854775 then int (unat n) else int (unat n) - 2 ^ 64) * 1000000000)
         (shd (clock s)) (in_flight s))"
proof (cases "duration_seconds n")
  case (Inl p)
  then show ?thesis
    by (auto simp: duration_range scan_expired_tasks_def Let_def split: if_splits)
next
  case (Inr limit)
  obtain ids where "scan_expired_tasks K n s = (Inr ids, s\<lparr>clock := stl (clock s)\<rparr>)"
    "distinct ids" "set ids = expired limit (shd (clock s)) (in_flight s)"
    by (rule scan_eq [OF assms Inr])
  with Inr show ?thesis by (auto simp: duration_range split: if_splits)
qed

text \<open>An enumeration of a finite set of names.\<close>

definition listed :: key_order where
  "listed A = sorted_list_of_fset A"

lemma returned_content:
  "set (content_of q (s\<lparr>queues := qs\<rparr>)) \<subseteq> set (content_of q (s\<lparr>queues := returned t qs\<rparr>))"
  by (auto simp: content_of_def returned_def Let_def split: option.splits if_splits)

text \<open>Where an item goes when its delivery fails.\<close>

definition destination :: "in_flight_task \<Rightarrow> string" where
  "destination t = (if 5 \<le> task_attempts t then dlq_name (task_queue t) else task_queue t)"

definition return_all ::
    "(string, in_flight_task) fmap \<Rightarrow> string list \<Rightarrow> (string, queue_item list) fmap \<Rightarrow> (string, queue_item list) fmap" where
  "return_all fl ids qs = foldl (\<lambda>qs i. returned (the (fmlookup fl i)) qs) qs ids"

lemma nack_all_works:
  assumes "well_formed s" and "log_works X (wal s)" and "distinct ids"
    and "set ids \<subseteq> fset (fmdom (in_flight s))"
  shows "\<exists>w c. nack_all X ids k s =
    (k + length ids, s\<lparr>queues := return_all (in_flight s) ids (queues s),
       in_flight := drop_all ids (in_flight s), wal := w, clock := c\<rparr>)"
  using assms
proof (induction ids arbitrary: k s)
  case Nil
  show ?case by (intro exI [of _ "wal s"] exI [of _ "clock s"]) (simp add: return_all_def)
next
  case (Cons i ids)
  obtain t where t: "fmlookup (in_flight s) i = Some t"
    using Cons.prems(4) by (auto simp: fmdom_lookup)
  obtain w c where wc: "wal_step X (Nack i) (wal s) (clock s) = (Inr (), w, c)" "log_works X w"
    by (rule log_works_step [OF Cons.prems(2)])
  let ?s1 = "s\<lparr>in_flight := fmdrop i (in_flight s), queues := returned t (queues s), wal := w, clock := c\<rparr>"
  have n: "nack X i s = (Inr (), ?s1)"
    by (rule nack_logged_eq [OF Cons.prems(1) t wc(1)])
  have "well_formed ?s1" using wf_nack [OF Cons.prems(1), of X i] n by simp
  moreover have "set ids \<subseteq> fset (fmdom (in_flight ?s1))" using Cons.prems(3,4) by auto
  ultimately obtain w' c' where IH: "nack_all X ids (Suc k) ?s1 =
      (Suc k + length ids, ?s1\<lparr>queues := return_all (in_flight ?s1) ids (queues ?s1),
         in_flight := drop_all ids (in_flight ?s1), wal := w', clock := c'\<rparr>)"
    using Cons.IH [of ?s1 "Suc k"] wc(2) Cons.prems(3) by auto
  have "foldl (\<lambda>qs j. returned (the (fmlookup (fmdrop i (in_flight s)) j)) qs) qs ids
      = foldl (\<lambda>qs j. returned (the (fmlookup (in_flight s) j)) qs) qs ids" for qs
    by (rule foldl_cong) (use Cons.prems(3) in auto)
  then have qs: "return_all (fmdrop i (in_flight s)) ids (returned t (queues s)) =
      return_all (in_flight s) (i # ids) (queues s)"
    by (simp only: return_all_def foldl.simps t option.sel)
  have "nack_all X (i # ids) k s = nack_all X ids (Suc k) ?s1" by (simp add: n)
  with qs show ?case
    by (intro exI [of _ w'] exI [of _ c']) (simp add: IH)
qed

lemma return_all_mono:
  "set (content_of q (s\<lparr>queues := qs\<rparr>)) \<subseteq> set (content_of q (s\<lparr>queues := return_all fl js qs\<rparr>))"
proof (induction js arbitrary: qs)
  case Nil
  show ?case by (simp add: return_all_def)
next
  case (Cons j js)
  show ?case
    using returned_content [of q qs s "the (fmlookup fl j)"] Cons.IH [of "returned (the (fmlookup fl j)) qs"]
    by (simp add: return_all_def)
qed

lemma return_all_content:
  assumes "i \<in> set ids" and "fmlookup fl i = Some t" and "\<forall>j\<in>set ids. \<forall>u. fmlookup fl j = Some u \<longrightarrow> task_queue u |\<in>| fmdom qs"
  shows "item_of t \<in> set (content_of (destination t) (s\<lparr>queues := return_all fl ids qs\<rparr>))"
  using assms(1,3)
proof (induction ids arbitrary: qs)
  case (Cons j ids)
  have dom: "\<forall>k\<in>set ids. \<forall>u. fmlookup fl k = Some u \<longrightarrow> task_queue u |\<in>| fmdom (returned v qs)" for v
    using Cons.prems(2) fmdom_returned [of qs v] by auto
  show ?case
  proof (cases "j = i")
    case True
    have "task_queue t |\<in>| fmdom qs" using Cons.prems(2) True assms(2) by simp
    then have "item_of t \<in> set (content_of (destination t) (s\<lparr>queues := returned t qs\<rparr>))"
      by (auto simp: destination_def content_of_def returned_def Let_def fmdom_lookup split: option.splits)
    with return_all_mono [of "destination t" "returned t qs" s fl ids] show ?thesis
      using True assms(2) by (auto simp: return_all_def)
  next
    case False
    then show ?thesis
      using Cons.IH [OF _ dom [of "the (fmlookup fl j)"]] Cons.prems(1) by (simp add: return_all_def)
  qed
qed simp

text \<open>The state a cleanup leaves when the log works.\<close>

lemma cleanup_state:
  assumes "well_formed s" and "log_works X (wal s)" and "enumerates K"
    and "unat n \<le> 9223372036854775"
  shows "\<exists>s'. cleanup_expired_tasks X K n s =
      (Inr (card (expired (int (unat n) * 1000000000) (shd (clock s)) (in_flight s))), s') \<and>
    in_flight s' = fmfilter (\<lambda>i. i \<notin> expired (int (unat n) * 1000000000) (shd (clock s)) (in_flight s)) (in_flight s) \<and>
    (\<forall>i\<in>expired (int (unat n) * 1000000000) (shd (clock s)) (in_flight s).
      \<forall>t. fmlookup (in_flight s) i = Some t \<longrightarrow> item_of t \<in> set (content_of (destination t) s'))"
proof -
  let ?s1 = "s\<lparr>clock := stl (clock s)\<rparr>"
  let ?E = "expired (int (unat n) * 1000000000) (shd (clock s)) (in_flight s)"
  have "duration_seconds n = Inr (int (unat n) * 1000000000)"
    using assms(4) by (simp add: duration_range)
  then obtain ids where scan: "scan_expired_tasks K n s = (Inr ids, ?s1)" "distinct ids" "set ids = ?E"
    by (rule scan_eq [OF assms(3)])
  have "set ids \<subseteq> fset (fmdom (in_flight ?s1))"
    using scan(3) by (auto simp: expired_def fmdom_lookup)
  then obtain w c where n: "nack_all X ids 0 ?s1 = (0 + length ids,
      ?s1\<lparr>queues := return_all (in_flight ?s1) ids (queues ?s1),
         in_flight := drop_all ids (in_flight ?s1), wal := w, clock := c\<rparr>)"
    using nack_all_works [of ?s1 X ids 0] assms(1,2) scan(2) by auto
  let ?s' = "?s1\<lparr>queues := return_all (in_flight ?s1) ids (queues ?s1),
         in_flight := drop_all ids (in_flight ?s1), wal := w, clock := c\<rparr>"
  have "cleanup_expired_tasks X K n s = (Inr (card ?E), ?s')"
    using n scan distinct_card [OF scan(2)] by (simp add: cleanup_expired_tasks_def)
  moreover have "in_flight ?s' = fmfilter (\<lambda>i. i \<notin> ?E) (in_flight s)"
    using scan(3) by (intro fmap_ext) simp
  moreover have "item_of t \<in> set (content_of (destination t) ?s')"
    if t: "i \<in> ?E" "fmlookup (in_flight s) i = Some t" for i t
  proof -
    have "item_of t \<in> set (content_of (destination t) (s\<lparr>queues := return_all (in_flight s) ids (queues s)\<rparr>))"
      using t scan(3) well_formed_task(2) [OF assms(1)] by (intro return_all_content) auto
    then show ?thesis by (simp add: content_of_def)
  qed
  ultimately show ?thesis by blast
qed

text \<open>
  C30: the cleanup returns exactly the expired tasks. On a storage whose log works, a cleanup with
  a timeout in range ends every task in flight whose age exceeds the timeout and no other, and
  returns their number. The item of each goes back into its queue, or into the dead-letter queue
  after its fifth delivery, and no message is lost or duplicated.
\<close>

theorem cleanup_returns_expired:
  assumes "well_formed s" and "log_works X (wal s)" and "enumerates K"
    and "unat n \<le> 9223372036854775"
  shows "\<exists>s'. cleanup_expired_tasks X K n s =
        (Inr (card (expired (int (unat n) * 1000000000) (shd (clock s)) (in_flight s))), s') \<and>
    in_flight s' = fmfilter (\<lambda>i. i \<notin> expired (int (unat n) * 1000000000) (shd (clock s)) (in_flight s)) (in_flight s) \<and>
    messages s' = messages s \<and>
    (\<forall>i t. fmlookup (in_flight s) i = Some t \<longrightarrow> fmlookup (in_flight s') i = None \<longrightarrow>
       item_of t \<in> set (content_of (destination t) s'))"
proof -
  obtain s' where "cleanup_expired_tasks X K n s =
        (Inr (card (expired (int (unat n) * 1000000000) (shd (clock s)) (in_flight s))), s')"
      "in_flight s' = fmfilter (\<lambda>i. i \<notin> expired (int (unat n) * 1000000000) (shd (clock s)) (in_flight s)) (in_flight s)"
      "\<forall>i\<in>expired (int (unat n) * 1000000000) (shd (clock s)) (in_flight s).
        \<forall>t. fmlookup (in_flight s) i = Some t \<longrightarrow> item_of t \<in> set (content_of (destination t) s')"
    using cleanup_state [OF assms] by blast
  moreover from this(1) have "messages s' = messages s"
    using messages_cleanup [OF assms(1), of X K n] by simp
  ultimately show ?thesis by (intro exI [of _ s']) (auto split: if_splits)
qed

lemma listed_enumerates: "enumerates listed"
  by (simp add: enumerates_def listed_def sorted_list_of_fset.rep_eq)

lemma cleanup_returns_expired_witness:
  "\<exists>s'. cleanup_expired_tasks unary_codec listed 60 (one_task None) = (Inr 1, s') \<and>
     in_flight s' = fmempty \<and> messages s' = messages (one_task None)"
proof -
  have E: "expired (60 * 1000000000) (shd (clock (one_task None))) (in_flight (one_task None)) = {''t''}"
    by (auto simp: expired_def split: if_splits)
  have "fmfilter (\<lambda>i. i \<notin> {''t''}) (in_flight (one_task None)) = fmempty"
    by (rule fmap_ext) auto
  then show ?thesis
    using cleanup_returns_expired [OF one_task_well_formed [of None] _ listed_enumerates,
        where X = unary_codec and n = 60] E by (simp add: unat_numeral) blast
qed

theorem scan_lists_expired_witness:
  "fst (scan_expired_tasks listed 60 (one_task None)) = Inr [''t'']"
proof -
  have E: "expired (60 * 1000000000) (shd (clock (one_task None))) (in_flight (one_task None)) = {''t''}"
    by (auto simp: expired_def split: if_splits)
  have "distinct ids \<and> set ids = {''t''} \<longleftrightarrow> ids = [''t'']" for ids :: "string list"
    by (cases ids; cases "tl ids") auto
  then show ?thesis
    using scan_lists_expired [OF listed_enumerates, of 60 "one_task None"] E
    by (cases "fst (scan_expired_tasks listed 60 (one_task None))") (auto simp: unat_numeral)
qed

text \<open>
  A heartbeat restarts the timeout, whatever duration it asks for. After a successful
  \<^verbatim>\<open>extend_visibility\<close>, an expiry scan lists the task exactly when the time since the
  heartbeat exceeds the scan's timeout; nothing else of the storage changes.
\<close>

lemma heartbeat_restarts_timeout:
  assumes "enumerates K" and "log_works X (wal s)" and "fmlookup (in_flight s) i = Some t"
    and "unat n \<le> 9223372036854775"
  shows "let h = (if wal s = None then shd (clock s) else shd (stl (clock s)));
             (r, s') = extend_visibility X i dur s
         in r = Inr () \<and> queues s' = queues s \<and> uuids s' = uuids s \<and>
            in_flight s' = fmupd i (t\<lparr>consumed_at := h\<rparr>) (in_flight s) \<and>
            (case fst (scan_expired_tasks K n s') of
               Inl p \<Rightarrow> False
             | Inr ids \<Rightarrow> i \<in> set ids \<longleftrightarrow> int (unat n) * 1000000000 < shd (clock s') - h)"
proof -
  obtain w c where wc: "wal_step X (ExtendVisibility i dur) (wal s) (clock s) = (Inr (), w, c)"
    by (rule log_works_step [OF assms(2)])
  let ?s' = "s\<lparr>wal := w, in_flight := fmupd i (t\<lparr>consumed_at := shd c\<rparr>) (in_flight s), clock := stl c\<rparr>"
  have c: "c = (if wal s = None then clock s else stl (clock s))"
    using wc by (auto simp: wal_step_def split: option.splits prod.splits)
  have "duration_seconds n = Inr (int (unat n) * 1000000000)"
    using assms(4) by (simp add: duration_range)
  then obtain ids where "scan_expired_tasks K n ?s' = (Inr ids, ?s'\<lparr>clock := stl (clock ?s')\<rparr>)"
    "set ids = expired (int (unat n) * 1000000000) (shd (clock ?s')) (in_flight ?s')"
    by (rule scan_eq [OF assms(1)])
  then show ?thesis
    using extend_logged [OF assms(3) wc] c by (auto simp: Let_def expired_def)
qed

lemma heartbeat_restarts_timeout_witness:
  "snd (extend_visibility unary_codec ''t'' 1 (one_task None)) =
     (one_task None)\<lparr>in_flight := fmupd ''t'' (task_of ''t'' ''q'' 90000000000 (fresh_item [7])) fmempty\<rparr> \<and>
   (\<exists>ids. fst (scan_expired_tasks listed 60 (snd (extend_visibility unary_codec ''t'' 1 (one_task None)))) = Inr ids \<and>
      ''t'' \<notin> set ids)"
proof -
  have "snd (extend_visibility unary_codec ''t'' 1 (one_task None)) =
     (one_task None)\<lparr>in_flight := fmupd ''t'' (task_of ''t'' ''q'' 90000000000 (fresh_item [7])) fmempty\<rparr>"
    by (simp add: extend_visibility_def log_op_def one_task_def task_of_def)
  then show ?thesis
    using heartbeat_restarts_timeout [OF listed_enumerates, of unary_codec "one_task None" "''t''"
        "task_of ''t'' ''q'' 0 (fresh_item [7])" 60 1]
    by (auto simp: Let_def unat_numeral split: prod.splits sum.splits)
qed

section \<open>Statistics\<close>

lemma in_flight_of_card:
  "in_flight_of q fl = card {i \<in> fset (fmdom fl). task_queue (the (fmlookup fl i)) = q}"
  unfolding in_flight_of_def fcard.rep_eq
  by (rule arg_cong [where f = card]) (auto simp: fmdom_lookup)

text \<open>
  The statistics add up. The report has an entry for every queue and no other, with the
  queue's length; and the tasks counted as in flight over all queues are all the tasks in flight.
\<close>

lemma stats_add_up:
  assumes "well_formed s"
  shows "\<exists>st. get_stats s = Inr st \<and> fmdom (queue_stats st) = fmdom (queues s) \<and>
    total_in_flight st = (\<Sum>q\<in>fset (fmdom (queues s)). snd (the (fmlookup (queue_stats st) q))) \<and>
    (\<forall>q. map_option fst (fmlookup (queue_stats st) q) = map_option length (fmlookup (queues s) q))"
proof -
  let ?f = "\<lambda>i. task_queue (the (fmlookup (in_flight s) i))"
  have "?f ` fset (fmdom (in_flight s)) \<subseteq> fset (fmdom (queues s))"
    using well_formed_task(2) [OF assms] by (auto simp: fmdom_lookup)
  then have "(\<Sum>q\<in>fset (fmdom (queues s)). in_flight_of q (in_flight s)) = fcard (fmdom (in_flight s))"
    unfolding in_flight_of_card fcard.rep_eq card_eq_sum
    by (intro sum.group) auto
  moreover have "(\<Sum>q\<in>fset (fmdom (queues s)). in_flight_of q (in_flight s)) =
      (\<Sum>q\<in>fset (fmdom (queues s)). snd (the (fmlookup (fmmap_keys
         (\<lambda>name q. (length q, in_flight_of name (in_flight s))) (queues s)) q)))"
    by (rule sum.cong) (auto simp: fmdom_lookup)
  ultimately show ?thesis
    by (auto simp: get_stats_def option.map_comp comp_def)
qed

lemma stats_add_up_witness:
  "\<exists>st. get_stats (one_task None) = Inr st \<and> total_in_flight st = snd (the (fmlookup (queue_stats st) ''q''))"
  using stats_add_up [OF one_task_well_formed [of None]] by auto

section \<open>Snapshots\<close>

lemma insert_all_lookup:
  assumes "distinct ks"
  shows "fmlookup (foldl (\<lambda>m k. case fmlookup src k of None \<Rightarrow> m | Some v \<Rightarrow> fmupd k v m) dst ks) k
    = (if k \<in> set ks \<and> fmlookup src k \<noteq> None then fmlookup src k else fmlookup dst k)"
  using assms by (induction ks arbitrary: dst) (auto split: option.splits)

lemma insert_all_id: "enumerates K \<Longrightarrow> insert_all K src fmempty = src"
  by (rule fmap_ext) (auto simp: insert_all_def insert_all_lookup enumerates_def fmdom_lookup)

text \<open>
  A snapshot restores what it saved. Reading both maps of a storage entry by entry, in whatever
  orders the maps iterate, and loading the result into any other storage gives that storage the
  same queues and the same tasks in flight, delivery times included, and forgets what it held; its
  log, identifiers and clock are its own.
\<close>

lemma snapshot_roundtrip:
  assumes "enumerates K" and "enumerates L"
  shows "(case get_snapshot_data K s of (qs, fl) \<Rightarrow> restore_from_snapshot L qs fl t)
    = t\<lparr>queues := queues s, in_flight := in_flight s\<rparr>"
  by (simp add: get_snapshot_data_def restore_from_snapshot_def insert_all_id [OF assms(1)]
      insert_all_id [OF assms(2)])

lemma snapshot_roundtrip_witness:
  "(case get_snapshot_data listed (one_task None) of (qs, fl) \<Rightarrow>
      restore_from_snapshot listed qs fl (new_storage numbered (sconst 0)))
    = (new_storage numbered (sconst 0))\<lparr>queues := queues (one_task None), in_flight := in_flight (one_task None)\<rparr>"
  by (rule snapshot_roundtrip [OF listed_enumerates listed_enumerates])

end
