(* ===== verification/Durability.thy ===== *)
theory Durability
  imports Recovery Storage_Laws
begin

text \<open>
  The log records what the storage does: every call of the storage commits exactly the operations
  whose entries reach the log, so that a restart rebuilds the view of the storage that crashed
  (with log writes that can fail cleanly: at least what it held).
\<close>

section \<open>When an entry can be logged\<close>

fun enabled :: "wal_op \<Rightarrow> view \<Rightarrow> bool" where
  "enabled (CreateQueue n) v = (n |\<notin>| fmdom (vqueues v))"
| "enabled (Enqueue q d) v = (q |\<in>| fmdom (vqueues v))"
| "enabled (EnqueueBatch q ds) v = (q |\<in>| fmdom (vqueues v))"
| "enabled (Dequeued q i) v =
     (case fmlookup (vqueues v) q of None \<Rightarrow> False | Some xs \<Rightarrow> xs \<noteq> [])"
| "enabled (DequeuedBatch q ids) v =
     (case fmlookup (vqueues v) q of None \<Rightarrow> False | Some xs \<Rightarrow> length ids \<le> length xs)"
| "enabled (Ack i) v = (i |\<in>| fmdom (vflights v))"
| "enabled (AckBatch ids) v = (set ids \<subseteq> fset (fmdom (vflights v)))"
| "enabled (Nack i) v = (i |\<in>| fmdom (vflights v))"
| "enabled (ExtendVisibility i n) v = (i |\<in>| fmdom (vflights v))"

text \<open>
  \<open>vsub v w\<close>: the same queues, and every task in flight in \<open>v\<close> is in flight in \<open>w\<close>.
  With \<open>p\<close> (no write ever fails) nothing may be forgotten between commits; otherwise a
  failed acknowledgement may have removed a task from memory but not from the log.
\<close>

definition vsub :: "view \<Rightarrow> view \<Rightarrow> bool" where
  "vsub v w \<longleftrightarrow> vqueues v = vqueues w \<and>
     (\<forall>i t. fmlookup (vflights v) i = Some t \<longrightarrow> fmlookup (vflights w) i = Some t)"

definition weaken :: "bool \<Rightarrow> view \<Rightarrow> view \<Rightarrow> bool" where
  "weaken p v u = (if p then u = v else vsub u v)"

lemma vsub_refl [simp]: "vsub v v"
  by (simp add: vsub_def)

lemma vsub_trans: "vsub u v \<Longrightarrow> vsub v w \<Longrightarrow> vsub u w"
  by (auto simp: vsub_def)

lemma vsub_deliver: "vsub v w \<Longrightarrow> vsub (deliver q v i) (deliver q w i)"
  by (auto simp: vsub_def deliver_def split: option.splits list.splits)

lemma vsub_deliver_all: "vsub v w \<Longrightarrow> vsub (foldl (deliver q) v ids) (foldl (deliver q) w ids)"
  by (induction ids arbitrary: v w) (simp_all add: vsub_deliver)

lemma vsub_dom: "vsub v w \<Longrightarrow> i |\<in>| fmdom (vflights v) \<Longrightarrow> i |\<in>| fmdom (vflights w)"
  by (auto simp: vsub_def fmdom_lookup)

lemma vsub_apply_op:
  assumes "vsub v w" and "enabled a v" shows "vsub (apply_op a v) (apply_op a w)"
proof (cases a)
  case (Nack i)
  with assms(2) obtain t where "fmlookup (vflights v) i = Some t"
    by (auto simp: fmdom_lookup)
  moreover with assms(1) have "fmlookup (vflights w) i = Some t" by (simp add: vsub_def)
  ultimately show ?thesis using assms(1) Nack by (simp add: vsub_def)
next
  case (AckBatch ids)
  have "set ids \<subseteq> fset (fmdom (vflights w))"
    using assms AckBatch by (auto intro: vsub_dom)
  then show ?thesis using assms AckBatch by (simp add: vsub_def)
next
  case (DequeuedBatch q ids)
  then show ?thesis using assms(1) by (simp add: vsub_deliver_all)
next
  case (Dequeued q i)
  then show ?thesis using assms(1) by (simp add: vsub_deliver)
qed (use assms(1) in \<open>auto simp: vsub_def push_def split: option.split\<close>)

text \<open>The operation log of the storage, for both ways of writing it.\<close>

interpretation exact_log: op_log apply_op enabled "weaken True" "(=)"
  by unfold_locales (simp_all add: weaken_def)

interpretation lossy_log: op_log apply_op enabled "weaken False" vsub
  by unfold_locales (auto simp: weaken_def vsub_apply_op intro: vsub_trans)

section \<open>The log a storage writes\<close>

definition io_ok :: "bool \<Rightarrow> wal_manager \<Rightarrow> bool" where
  "io_ok p m = (if p then perfect_io m else clean_io m)"

definition tracks :: "bool \<Rightarrow> codec \<Rightarrow> wal_entry list \<Rightarrow> storage \<Rightarrow> bool" where
  "tracks p X es s \<longleftrightarrow> (\<exists>m. wal s = Some m \<and> wal_ready X es m \<and> io_ok p m)"

definition advance :: "bool \<Rightarrow> codec \<Rightarrow> storage \<Rightarrow> storage \<Rightarrow> bool" where
  "advance p X s s' \<longleftrightarrow>
     (\<forall>es. tracks p X es s \<longrightarrow>
        (\<exists>fs. tracks p X (es @ fs) s' \<and>
              commits apply_op enabled (weaken p) (view_of s) (map entry_op fs) (view_of s')))"

lemma advance_trans: "advance p X s t \<Longrightarrow> advance p X t u \<Longrightarrow> advance p X s u"
  unfolding advance_def
proof (intro allI impI)
  fix es assume st: "\<forall>es. tracks p X es s \<longrightarrow> (\<exists>fs. tracks p X (es @ fs) t \<and>
      commits apply_op enabled (weaken p) (view_of s) (map entry_op fs) (view_of t))"
    and tu: "\<forall>es. tracks p X es t \<longrightarrow> (\<exists>fs. tracks p X (es @ fs) u \<and>
      commits apply_op enabled (weaken p) (view_of t) (map entry_op fs) (view_of u))"
    and "tracks p X es s"
  then obtain fs where fs: "tracks p X (es @ fs) t"
    "commits apply_op enabled (weaken p) (view_of s) (map entry_op fs) (view_of t)" by blast
  with tu obtain gs where gs: "tracks p X ((es @ fs) @ gs) u"
    "commits apply_op enabled (weaken p) (view_of t) (map entry_op gs) (view_of u)" by blast
  show "\<exists>fs. tracks p X (es @ fs) u \<and>
      commits apply_op enabled (weaken p) (view_of s) (map entry_op fs) (view_of u)"
    using gs(1) commits_trans [OF gs(2) fs(2)] by (intro exI [of _ "fs @ gs"]) simp
qed

lemma advance_same:
  assumes "wal s' = wal s" and "view_of s' = view_of s" shows "advance p X s s'"
proof -
  have "commits apply_op enabled (weaken p) (view_of s) (map entry_op []) (view_of s')"
    by (simp add: assms(2) commits_nil)
  moreover have "tracks p X (es @ []) s'" if "tracks p X es s" for es
    using that by (simp add: tracks_def assms(1))
  ultimately show ?thesis unfolding advance_def by blast
qed

lemma advance_refl [simp]: "advance p X s s"
  by (simp add: advance_same)

lemma wal_step_tracks:
  assumes "codec_law X" and "tracks p X es s" and "wal_step X a (wal s) (clock s) = (r, w, c)"
    and "wal s' = w"
  shows "\<exists>fs. tracks p X (es @ fs) s' \<and> map entry_op fs = (if is_ok r then [a] else []) \<and> (p \<longrightarrow> is_ok r)"
proof -
  obtain m where m: "wal s = Some m" "wal_ready X es m" "io_ok p m"
    using assms(2) by (auto simp: tracks_def)
  let ?e = "\<lparr>entry_op = a, entry_time = timestamp_millis (shd (clock s))\<rparr>"
  obtain m' where m': "wal_append X ?e m = (r, m')" "w = Some m'"
    using assms(3) m(1) by (auto simp: wal_step_def split: prod.splits)
  have "clean_io m" using m(3) by (auto simp: io_ok_def perfect_clean split: if_splits)
  then have "clean_io m'" "wal_ready X (if is_ok r then es @ [?e] else es) m'"
    using wal_append_cases [OF assms(1) m(2) _ m'(1)] by simp_all
  moreover have "p \<Longrightarrow> is_ok r \<and> perfect_io m'"
    using wal_append_perfect [OF assms(1) _ m'(1)] m(3) by (simp add: io_ok_def)
  ultimately have "tracks p X (es @ (if is_ok r then [?e] else [])) s'" "p \<longrightarrow> is_ok r"
    using m'(2) assms(4) by (auto simp: tracks_def io_ok_def)
  then show ?thesis by (intro exI [of _ "if is_ok r then [?e] else []"]) simp
qed

lemma advance_logged:
  assumes "codec_law X" and "wal_step X a (wal s) (clock s) = (Inr (), w, c)" and "wal s' = w"
    and "enabled a (view_of s)" and "view_of s' = apply_op a (view_of s)"
  shows "advance p X s s'"
  unfolding advance_def
proof (intro allI impI)
  fix es assume "tracks p X es s"
  from wal_step_tracks [OF assms(1) this assms(2,3)]
  obtain fs where "tracks p X (es @ fs) s'" "map entry_op fs = [a]" by auto
  moreover have "commits apply_op enabled (weaken p) (view_of s) [a] (view_of s')"
    using commits_one [where enabled = enabled and perform = apply_op and a = a and v = "view_of s"
        and weaken = "weaken p"] assms(4,5) by simp
  ultimately show "\<exists>fs. tracks p X (es @ fs) s' \<and>
      commits apply_op enabled (weaken p) (view_of s) (map entry_op fs) (view_of s')" by metis
qed

lemma advance_failed:
  assumes "codec_law X" and "wal_step X a (wal s) (clock s) = (Inl e, w, c)" and "wal s' = w"
    and "vsub (view_of s') (view_of s)"
  shows "advance p X s s'"
  unfolding advance_def
proof (intro allI impI)
  fix es assume "tracks p X es s"
  from wal_step_tracks [OF assms(1) this assms(2,3)]
  obtain fs where "tracks p X (es @ fs) s'" "map entry_op fs = []" "\<not> p" by auto
  moreover from \<open>\<not> p\<close> have "commits apply_op enabled (weaken p) (view_of s) [] (view_of s')"
    using assms(4) by (intro commits_drop) (simp add: weaken_def)
  ultimately show "\<exists>fs. tracks p X (es @ fs) s' \<and>
      commits apply_op enabled (weaken p) (view_of s) (map entry_op fs) (view_of s')" by metis
qed

section \<open>Every call advances the log\<close>

lemma advance_op:
  assumes X: "codec_law X"
    and "\<And>w c. wal_step X a (wal s) (clock s) = (Inr (), w, c) \<Longrightarrow>
      wal s' = w \<and> enabled a (view_of s) \<and> view_of s' = apply_op a (view_of s)"
    and "\<And>e w c. wal_step X a (wal s) (clock s) = (Inl e, w, c) \<Longrightarrow>
      wal s' = w \<and> vsub (view_of s') (view_of s)"
  shows "advance p X s s'"
proof (cases X a s rule: step_cases)
  case (logged w c)
  then show ?thesis using advance_logged [OF X logged] assms(2) by blast
next
  case (failed e w c)
  then show ?thesis using advance_failed [OF X failed] assms(3) by blast
qed

lemma advance_create_queue: "codec_law X \<Longrightarrow> advance p X s (snd (create_queue X n s))"
proof (cases "n |\<in>| fmdom (queues s)")
  case False
  assume "codec_law X"
  then show ?thesis
    by (rule advance_op [where a = "CreateQueue n"])
      (use False in \<open>simp_all add: create_queue_logged create_queue_failed view_of_def\<close>)
qed (simp add: create_queue_exists)

lemma advance_queue: "codec_law X \<Longrightarrow> advance p X s (snd (queue X q d s))"
proof (cases "fmlookup (queues s) q")
  case (Some xs)
  assume "codec_law X"
  then show ?thesis
    by (rule advance_op [where a = "Enqueue q d"])
      (use Some in \<open>simp_all add: queue_logged queue_failed view_of_def push_def fresh_item_def fmdom_lookup\<close>)
qed (simp add: queue_missing)

lemma advance_queue_batch: "codec_law X \<Longrightarrow> advance p X s (snd (queue_batch X q ds s))"
proof (cases "fmlookup (queues s) q")
  case (Some xs)
  assume "codec_law X"
  then show ?thesis
    by (rule advance_op [where a = "EnqueueBatch q ds"])
      (use Some in \<open>simp_all add: queue_batch_logged queue_batch_failed view_of_def push_def fmdom_lookup\<close>)
qed (simp add: queue_batch_missing)

lemma advance_dequeue:
  assumes X: "codec_law X" shows "advance p X s (snd (dequeue X q s))"
proof (cases "fmlookup (queues s) q")
  case (Some xs)
  show ?thesis
  proof (cases xs)
    case Nil
    with Some show ?thesis by (simp add: dequeue_empty)
  next
    case (Cons item rest)
    show ?thesis
      by (rule advance_op [OF X, where a = "Dequeued q (shd (uuids s))"])
        (use Some Cons in \<open>simp_all add: dequeue_failed dequeue_logged Let_def view_of_def
          deliver_def fmmap_fmupd\<close>)
  qed
qed (simp add: dequeue_missing)

lemma advance_ack: "codec_law X \<Longrightarrow> advance p X s (snd (ack X i s))"
proof (cases "fmlookup (in_flight s) i")
  case (Some t)
  assume "codec_law X"
  then show ?thesis
    by (rule advance_op [where a = "Ack i"])
      (use Some in \<open>simp_all add: ack_logged ack_failed view_of_def fmdom_lookup vsub_def\<close>)
qed (simp add: ack_missing)

lemma advance_nack: "codec_law X \<Longrightarrow> advance p X s (snd (nack X i s))"
proof (cases "fmlookup (in_flight s) i")
  case (Some t)
  assume "codec_law X"
  then show ?thesis
    by (rule advance_op [where a = "Nack i"])
      (use Some in \<open>simp_all add: nack_logged nack_failed requeue_queues view_of_def fmdom_lookup\<close>)
qed (simp add: nack_missing)

lemma advance_extend: "codec_law X \<Longrightarrow> advance p X s (snd (extend_visibility X i n s))"
proof (cases "fmlookup (in_flight s) i")
  case (Some t)
  assume "codec_law X"
  then show ?thesis
    by (rule advance_op [where a = "ExtendVisibility i n"])
      (use Some in \<open>simp_all add: extend_logged extend_failed view_of_def fmdom_lookup fmmap_fmupd fmupd_same\<close>)
qed (simp add: extend_missing)

lemma advance_nack_all: "codec_law X \<Longrightarrow> advance p X s (snd (nack_all X ids n s))"
proof (induction ids arbitrary: n s)
  case Nil
  then show ?case by simp
next
  case (Cons i ids)
  have "advance p X s (snd (nack X i s))" using Cons.prems by (rule advance_nack)
  then show ?case
    using Cons by (auto split: prod.split sum.split intro: advance_trans)
qed

lemma advance_cleanup:
  assumes "codec_law X" shows "advance p X s (snd (cleanup_expired_tasks X K n s))"
proof -
  have "advance p X s (snd (scan_expired_tasks K n s))"
    by (rule advance_same) (simp_all add: scan_state)
  then show ?thesis
    using advance_nack_all [OF assms]
    by (auto simp: cleanup_expired_tasks_def split: prod.splits sum.splits)
      (metis advance_trans snd_conv)
qed

lemma advance_ack_batch: "codec_law X \<Longrightarrow> advance p X s (snd (ack_batch X ids s))"
proof (cases "missing_tasks ids s = []")
  case True
  assume "codec_law X"
  then show ?thesis
    by (rule advance_op [where a = "AckBatch ids"])
      (use True in \<open>simp_all add: ack_batch_logged ack_batch_failed view_of_def missing_tasks_Nil\<close>)
qed (simp add: ack_batch_missing)

lemma advance_dequeue_batch:
  assumes X: "codec_law X" shows "advance p X s (snd (dequeue_batch X q n s))"
proof (cases "fmlookup (queues s) q")
  case (Some xs)
  consider "xs = []" | "xs \<noteq> []" "capacity_overflow queue_item_size (unat n)"
    | "xs \<noteq> []" "unat n = 0" | "xs \<noteq> []" "\<not> capacity_overflow queue_item_size (unat n)" "unat n \<noteq> 0"
    by blast
  then show ?thesis
  proof cases
    case 4
    let ?k = "min (length xs) (unat n)"
    let ?ids = "stake ?k (uuids s)"
    have zip: "zip ?ids (take ?k xs) = zip ?ids xs" by (simp add: zip_take_short)
    show ?thesis
      by (rule advance_op [OF X, where a = "DequeuedBatch q ?ids"])
        (use Some in \<open>simp_all add: dequeue_batch_failed [OF Some 4] dequeue_batch_logged [OF Some 4]
          Let_def deliver_all zip view_of_def fmmap_insert_tasks untimed_tasks_of\<close>)
  qed (use Some in \<open>simp_all add: dequeue_batch_empty dequeue_batch_overflow dequeue_batch_zero\<close>)
qed (simp add: dequeue_batch_missing)

lemma advance_perform: "codec_law X \<Longrightarrow> advance p X s (after X K c s)"
  by (cases c) (simp_all add: advance_create_queue advance_queue advance_dequeue advance_ack
      advance_nack advance_extend advance_cleanup advance_queue_batch advance_dequeue_batch
      advance_ack_batch)

lemma advance_run: "codec_law X \<Longrightarrow> advance p X s (run (after X K) cs s)"
  by (induction cs arbitrary: s) (auto intro: advance_trans advance_perform)

section \<open>Restarting\<close>

text \<open>The file at the log's path holds the entries \<open>es\<close>, or does not exist yet.\<close>

definition log_file :: "codec \<Rightarrow> wal_entry list \<Rightarrow> disk_file \<Rightarrow> bool" where
  "log_file X es f \<longleftrightarrow>
     (contents f = Some (encode_log X es) \<or> contents f = None \<and> es = []) \<and>
     can_read f \<and> can_append f \<and> read_limit f = None"

lemma log_file_after: "wal_ready X es m \<Longrightarrow> log_file X es (file_after m)"
  by (simp add: log_file_def file_after_def wal_ready_def)

lemma replay_log_file: "codec_law X \<Longrightarrow> log_file X es f \<Longrightarrow> replay X f = Inr es"
  by (auto simp: log_file_def replay_new) (simp add: replay_def)

lemma wal_force_dequeue [simp]: "wal (force_dequeue q i s) = wal s"
  by (simp add: force_dequeue_def Let_def split: option.split list.split)

lemma wal_force_all [simp]: "wal (foldl (\<lambda>s i. force_dequeue q i s) s ids) = wal s"
  by (induction ids arbitrary: s) simp_all

lemma log_op_None: "wal s = None \<Longrightarrow> log_op X a s = (Inr (), s)"
  by (simp add: log_op_def)

lemma wal_requeue: "wal (snd (requeue t s)) = wal s"
  by (simp add: requeue_queues)

lemma wal_replay_op:
  assumes "wal s = None" shows "wal (replay_op X a s) = None"
  using assms
  by (cases a)
    (simp_all add: op_defs log_op_None wal_requeue Let_def split: option.split)

lemma view_replay_all:
  "wal s = None \<Longrightarrow> view_of (foldl (\<lambda>s e. replay_op X (entry_op e) s) s es)
     = fold apply_op (map entry_op es) (view_of s)"
  by (induction es arbitrary: s) (simp_all add: view_replay_op wal_replay_op)

lemma view_new [simp]: "view_of (new_storage u c) = empty_view"
  by (simp add: view_of_def new_storage_def empty_view_def)

lemma wal_new_storage [simp]: "wal (new_storage u c) = None"
  by (simp add: new_storage_def)

lemma restart_log_file:
  assumes "codec_law X" and "log_file X es f"
  obtains r where "new_persistent X f u c = Inr r"
    and "view_of r = fold apply_op (map entry_op es) empty_view"
    and "\<And>p. io_ok p \<lparr>durable = [], pending = [], write_results = disk_writes f,
              flush_results = disk_flushes f\<rparr> \<Longrightarrow> tracks p X es r"
proof -
  let ?st = "foldl (\<lambda>s e. replay_op X (entry_op e) s) (new_storage u c) es"
  let ?m = "\<lparr>durable = (case contents f of None \<Rightarrow> [] | Some c \<Rightarrow> c), pending = [],
             write_results = disk_writes f, flush_results = disk_flushes f\<rparr>"
  have new: "new_persistent X f u c = Inr (?st\<lparr>wal := Some ?m\<rparr>)"
    using assms(2) by (simp add: new_persistent_def replay_log_file [OF assms] wal_new_def log_file_def)
  have view: "view_of (?st\<lparr>wal := Some ?m\<rparr>) = fold apply_op (map entry_op es) empty_view"
    using view_replay_all [of "new_storage u c" X es] by simp
  have "wal_ready X es ?m" using assms(2) by (auto simp: wal_ready_def log_file_def)
  then have "tracks p X es (?st\<lparr>wal := Some ?m\<rparr>)"
    if "io_ok p \<lparr>durable = [], pending = [], write_results = disk_writes f,
              flush_results = disk_flushes f\<rparr>" for p
    using that by (cases p) (simp_all add: tracks_def io_ok_def perfect_io_def clean_io_def)
  with new view show thesis by (rule that)
qed

text \<open>
  A run from a restart, crashed: the log replays to a view related to the one that was lost.
\<close>

lemma crash_commits:
  assumes X: "codec_law X" and f: "log_file X es f" and new: "new_persistent X f u c = Inr s0"
    and io: "io_ok p \<lparr>durable = [], pending = [], write_results = disk_writes f,
                    flush_results = disk_flushes f\<rparr>"
    and s: "s = run (after X K) calls s0"
  obtains m r fs where "wal s = Some m" and "new_persistent X (file_after m) u' c' = Inr r"
    and "commits apply_op enabled (weaken p) (view_of s0) fs (view_of s)"
    and "view_of r = fold apply_op fs (view_of s0)"
proof -
  obtain r0 where r0: "new_persistent X f u c = Inr r0"
    "view_of r0 = fold apply_op (map entry_op es) empty_view" "tracks p X es r0"
    using restart_log_file [OF X f] io by metis
  with new have s0: "view_of s0 = fold apply_op (map entry_op es) empty_view" "tracks p X es s0"
    by auto
  from advance_run [OF X, of p s0 K calls] s0(2) obtain fs
    where "tracks p X (es @ fs) s"
      and cm: "commits apply_op enabled (weaken p) (view_of s0) (map entry_op fs) (view_of s)"
    unfolding s advance_def by blast
  then obtain m where m: "wal s = Some m" "wal_ready X (es @ fs) m" by (auto simp: tracks_def)
  obtain r where "new_persistent X (file_after m) u' c' = Inr r"
    "view_of r = fold apply_op (map entry_op (es @ fs)) empty_view"
    using restart_log_file [OF X log_file_after [OF m(2)]] by metis
  with m(1) cm show thesis by (intro that) (simp_all add: s0)
qed

section \<open>Crash recovery\<close>

lemma recovered_view:
  assumes "codec_law X" and "log_file X es f"
    and "sset (disk_writes f) \<union> sset (disk_flushes f) \<subseteq> {None}"
    and "new_persistent X f u c = Inr s0"
  shows "\<exists>m r. wal (run (after X K) calls s0) = Some m \<and>
           new_persistent X (file_after m) u' c' = Inr r \<and>
           view_of r = view_of (run (after X K) calls s0)"
proof -
  have "io_ok True \<lparr>durable = [], pending = [], write_results = disk_writes f,
                    flush_results = disk_flushes f\<rparr>"
    using assms(3) by (simp add: io_ok_def perfect_io_def)
  from crash_commits [OF assms(1,2,4) this refl] obtain m r fs
    where "wal (run (after X K) calls s0) = Some m" "new_persistent X (file_after m) u' c' = Inr r"
      and cm: "commits apply_op enabled (weaken True) (view_of s0) fs (view_of (run (after X K) calls s0))"
      and "view_of r = fold apply_op fs (view_of s0)" by metis
  with exact_log.commits_replay [OF cm refl] show ?thesis by auto
qed

text \<open>
  C2: crash recovery is exact. A storage is started from a log and serves any calls, with no write
  to the log failing. When it stops at any point, starting again from the log yields a storage with
  the same queues, in the same order with the same attempt counts, and the same tasks in flight
  with the same identifiers, payloads, queues and attempts; only the delivery times are new.
\<close>

theorem restart_restores_view:
  assumes "codec_law X" and "log_file X es f"
    and "sset (disk_writes f) \<union> sset (disk_flushes f) \<subseteq> {None}"
    and "new_persistent X f u c = Inr s0"
  shows "\<exists>m r. wal (run (after X K) calls s0) = Some m \<and>
           new_persistent X (file_after m) u' c' = Inr r \<and>
           view_of r = view_of (run (after X K) calls s0)"
  by (rule recovered_view [OF assms])

lemma new_on_fresh_disk:
  "new_persistent X fresh_disk u c = Inr ((new_storage u c)\<lparr>wal := Some fresh_manager\<rparr>)"
  by (simp add: new_persistent_def replay_def wal_new_def fresh_disk_def fresh_manager_def)

lemma fresh_disk_log: "log_file X [] fresh_disk"
  by (simp add: log_file_def fresh_disk_def)

lemma fresh_disk_io: "sset (disk_writes fresh_disk) \<union> sset (disk_flushes fresh_disk) \<subseteq> {None}"
  by (simp add: fresh_disk_def)

theorem restart_restores_view_witness:
  "\<exists>m r. wal (run (after unary_codec (\<lambda>_. [])) [Create_queue ''q'', Queue ''q'' [1, 2], Dequeue_one ''q'']
           ((new_storage (sconst ''id'') (sconst 0))\<lparr>wal := Some fresh_manager\<rparr>)) = Some m \<and>
     new_persistent unary_codec (file_after m) (sconst ''new'') (sconst 7) = Inr r \<and>
     view_of r = view_of (run (after unary_codec (\<lambda>_. []))
       [Create_queue ''q'', Queue ''q'' [1, 2], Dequeue_one ''q'']
       ((new_storage (sconst ''id'') (sconst 0))\<lparr>wal := Some fresh_manager\<rparr>))"
  by (rule restart_restores_view [OF unary_codec_law fresh_disk_log fresh_disk_io new_on_fresh_disk])

section \<open>Restarts after failed writes\<close>

lemma messages_view: "messages s = queued (vqueues (view_of s)) + flying (vflights (view_of s))"
  by (simp add: messages_def flying_def fm_sum_fmmap)

lemma vsub_messages: "vsub (view_of s) (view_of r) \<Longrightarrow> messages s \<subseteq># messages r"
  by (auto simp: messages_view vsub_def flying_def intro!: fm_sum_submap)

text \<open>
  C28: a restart loses nothing when log writes fail cleanly. Even when any writes and flushes of the
  log fail, as long as a failed one leaves no bytes behind, the storage rebuilt from the log has
  the same queues as the one that stopped and all its tasks in flight: every payload held before
  is held afterwards. (It may hold more: tasks whose acknowledgement could not be logged.)
\<close>

theorem restart_keeps_messages:
  assumes "codec_law X" and "log_file X es f"
    and "\<forall>r \<in> sset (disk_writes f) \<union> sset (disk_flushes f). clean_outcome r"
    and "new_persistent X f u c = Inr s0"
  shows "\<exists>m r. wal (run (after X K) calls s0) = Some m \<and>
           new_persistent X (file_after m) u' c' = Inr r \<and>
           queues r = queues (run (after X K) calls s0) \<and>
           (\<forall>i t. fmlookup (in_flight (run (after X K) calls s0)) i = Some t \<longrightarrow>
              map_option untimed (fmlookup (in_flight r) i) = Some (untimed t)) \<and>
           messages (run (after X K) calls s0) \<subseteq># messages r"
proof -
  have "io_ok False \<lparr>durable = [], pending = [], write_results = disk_writes f,
                    flush_results = disk_flushes f\<rparr>"
    using assms(3) by (simp add: io_ok_def clean_io_def)
  from crash_commits [OF assms(1,2,4) this refl] obtain m r fs
    where m: "wal (run (after X K) calls s0) = Some m" "new_persistent X (file_after m) u' c' = Inr r"
      and cm: "commits apply_op enabled (weaken False) (view_of s0) fs (view_of (run (after X K) calls s0))"
      and r: "view_of r = fold apply_op fs (view_of s0)" by metis
  have sub: "vsub (view_of (run (after X K) calls s0)) (view_of r)"
    using lossy_log.commits_replay [OF cm vsub_refl] r by simp
  have "map_option untimed (fmlookup (in_flight r) i) = Some (untimed t)"
    if "fmlookup (in_flight (run (after X K) calls s0)) i = Some t" for i t
    using sub that unfolding vsub_def by simp
  moreover have "queues r = queues (run (after X K) calls s0)"
    using sub by (simp add: vsub_def)
  ultimately show ?thesis using m vsub_messages [OF sub] by blast
qed

text \<open>A disk that refuses the third write.\<close>

definition flaky_disk :: disk_file where
  "flaky_disk = fresh_disk\<lparr>disk_writes := None ## None ## Some (0, ''No space left'') ## sconst None\<rparr>"

theorem restart_keeps_messages_witness:
  "\<exists>s0 m r. new_persistent unary_codec flaky_disk numbered (sconst 0) = Inr s0 \<and>
     wal (run (after unary_codec listed) [Create_queue ''q'', Queue ''q'' [1], Queue ''q'' [2]] s0) = Some m \<and>
     new_persistent unary_codec (file_after m) numbered (sconst 9) = Inr r \<and>
     messages (run (after unary_codec listed) [Create_queue ''q'', Queue ''q'' [1], Queue ''q'' [2]] s0)
       \<subseteq># messages r"
proof -
  have log: "log_file unary_codec [] flaky_disk"
    using fresh_disk_log by (simp add: log_file_def flaky_disk_def)
  have io: "\<forall>r \<in> sset (disk_writes flaky_disk) \<union> sset (disk_flushes flaky_disk). clean_outcome r"
    by (auto simp: flaky_disk_def fresh_disk_def clean_outcome_def)
  obtain s0 where "new_persistent unary_codec flaky_disk numbered (sconst 0) = Inr s0"
    using restart_log_file [OF unary_codec_law log] by metis
  with restart_keeps_messages [OF unary_codec_law log io this, of listed
      "[Create_queue ''q'', Queue ''q'' [1], Queue ''q'' [2]]" numbered "sconst 9"]
  show ?thesis by metis
qed

text \<open>
  C27: one torn line loses the whole log. When the flush of a log entry fails after some but not
  all bytes of the line, the caller gets an error and the storage goes on with what it held; but a
  restart from that log does not parse the torn line, gives up on every entry before it, and
  starts empty.
\<close>

theorem torn_line_loses_log:
  assumes "codec_law X" and "prefix_law X"
    and "wal s = Some m" and "wal_ready X es m" and "fmlookup (queues s) q = Some xs"
    and "shd (write_results m) = None" and "shd (flush_results m) = Some (k, e)"
    and "l = line_of X \<lparr>entry_op = Enqueue q d, entry_time = timestamp_millis (shd (clock s))\<rparr>"
    and "0 < k" and "k < length l" and "valid_utf8 (take k l)"
  shows "\<exists>s' m' r. queue X q d s = (Inl (Err e), s') \<and> view_of s' = view_of s \<and>
    wal s' = Some m' \<and> durable m' = encode_log X es @ take k l \<and>
    new_persistent X (file_after m') u c = Inr r \<and> queues r = fmempty \<and> in_flight r = fmempty"
proof -
  let ?e = "\<lparr>entry_op = Enqueue q d, entry_time = timestamp_millis (shd (clock s))\<rparr>"
  let ?m' = "m\<lparr>write_results := stl (write_results m), flush_results := stl (flush_results m),
      pending := [], durable := encode_log X es @ take k l\<rparr>"
  have "wal_append X ?e m = (Inl e, ?m')"
    using assms(4,6-10) by (simp add: wal_append_eq [OF assms(1)] Let_def wal_ready_def)
  then have step: "wal_step X (Enqueue q d) (wal s) (clock s) = (Inl e, Some ?m', stl (clock s))"
    by (simp add: wal_step_def assms(3))
  have line: "entry_to_json X ?e = Inr l" "json_line l"
    using codec_lawD(1,2) [OF assms(1), of ?e] assms(8) by simp_all
  have lines: "lines_acc [] (take k l) = [take k l]"
    using json_line_control(1) [OF line(2)] assms(9,10)
    by (subst lines_acc_open) (auto dest: in_set_takeD)
  have "\<not> blank (take k l)"
  proof -
    obtain b j where "l = CHR ''{'' # b" "k = Suc j" using line(2) assms(9) by (auto simp: json_line_def gr0_conv_Suc)
    then show ?thesis by (subst blank.simps) (simp add: ws_len_brace)
  qed
  moreover obtain err where "entry_of_json X (take k l) = Inl err"
    using assms(2,9,10) line(1) unfolding prefix_law_def by (metis is_ok_simps(1) sum.exhaust_sel)
  ultimately have "replay X (file_after ?m') = Inl err"
    by (subst replay_file_after [OF assms(1), where es = es and rest = "take k l"])
      (simp_all add: lines assms(11))
  then show ?thesis
    using queue_failed [OF assms(5) step]
    by (simp add: new_persistent_def wal_new_def new_storage_def) (simp add: file_after_def)
qed

text \<open>A log of one entry whose next flush stops after the first byte.\<close>

definition tearing_manager :: wal_manager where
  "tearing_manager = fresh_manager\<lparr>
     durable := encode_log unary_codec [\<lparr>entry_op = CreateQueue ''q'', entry_time = 0\<rparr>],
     flush_results := Some (1, ''No space left'') ## sconst None\<rparr>"

theorem torn_line_loses_log_witness:
  "\<exists>s' m' r. queue unary_codec ''q'' [1] (one_task (Some tearing_manager)) =
      (Inl (Err ''No space left''), s') \<and> wal s' = Some m' \<and>
    new_persistent unary_codec (file_after m') numbered (sconst 0) = Inr r \<and> queues r = fmempty"
proof -
  let ?e = "\<lparr>entry_op = Enqueue ''q'' [1], entry_time = timestamp_millis (shd (clock (one_task (Some tearing_manager))))\<rparr>"
  have "wal_ready unary_codec [\<lparr>entry_op = CreateQueue ''q'', entry_time = 0\<rparr>] tearing_manager"
    by (simp add: wal_ready_def tearing_manager_def fresh_manager_def)
  moreover have line: "line_of unary_codec ?e = unary_line ?e" for e
    by (simp add: line_of_def unary_codec_def)
  moreover have "1 < length (unary_line ?e)" "take 1 (unary_line ?e) = ''{''"
    by (simp_all add: unary_line_def)
  moreover have "valid_utf8 ''{''" by (simp add: valid_utf8_def code_def)
  ultimately show ?thesis
    using torn_line_loses_log [OF unary_codec_law unary_prefix_law, of "one_task (Some tearing_manager)"
        tearing_manager "[\<lparr>entry_op = CreateQueue ''q'', entry_time = 0\<rparr>]" "''q''" "[]" 1
        "''No space left''" "unary_line ?e" "[1]" numbered "sconst 0"]
    by (fastforce simp: tearing_manager_def fresh_manager_def)
qed

end
