(* ===== verification/Replication.thy ===== *)
theory Replication
  imports Durability
begin

text \<open>
  The replicated state machine: the commands and responses of
  \<^verbatim>\<open>src/replication/types.rs\<close> and the state-machine half of \<^verbatim>\<open>CombinedStorage\<close>
  (\<^verbatim>\<open>src/replication/combined_storage.rs\<close>): applying committed entries, the last applied
  position, building and installing snapshots. A node is a storage and a position. Cluster
  membership is the type parameter \<open>'m\<close>: the code never looks inside it.
\<close>

section \<open>Commands and responses\<close>

datatype client_request =
    Req_CreateQueue string
  | Req_Enqueue string "byte list"
  | Req_Dequeue string
  | Req_Ack string
  | Req_Nack string
  | Req_ExtendVisibility string u64
  | Req_EnqueueBatch string "byte list list"
  | Req_DequeueBatch string u64
  | Req_AckBatch "string list"

datatype client_response =
    Resp_Ok
  | Resp_Task "in_flight_task option"
  | Resp_Tasks "in_flight_task list"
  | Resp_Err string

text \<open>A position in the replicated log: the term and node of the leader, and the index.\<close>

record log_id =
  log_term :: u64
  log_node :: u64
  log_index :: u64

datatype 'm payload =
    Blank
  | Normal client_request
  | Membership 'm

record 'm raft_entry =
  entry_log_id :: log_id
  entry_payload :: "'m payload"

record node =
  state_machine :: storage
  last_applied_log :: "log_id option"

text \<open>
  How the match on a storage result builds a response; a panic of the storage is the caller's.
\<close>

definition responding :: "('a \<Rightarrow> client_response) \<Rightarrow> 'a res \<times> storage \<Rightarrow> client_response res \<times> storage" where
  "responding f x =
     (case x of
        (Inr a, s) \<Rightarrow> (Inr (f a), s)
      | (Inl (Err e), s) \<Rightarrow> (Inr (Resp_Err e), s)
      | (Inl (Panic p), s) \<Rightarrow> (Inl (Panic p), s))"

fun apply_request :: "codec \<Rightarrow> client_request \<Rightarrow> storage \<Rightarrow> client_response res \<times> storage" where
  "apply_request X (Req_CreateQueue name) s = responding (\<lambda>_. Resp_Ok) (create_queue X name s)"
| "apply_request X (Req_Enqueue q d) s = responding (\<lambda>_. Resp_Ok) (queue X q d s)"
| "apply_request X (Req_Dequeue q) s = responding Resp_Task (dequeue X q s)"
| "apply_request X (Req_Ack i) s = responding (\<lambda>_. Resp_Ok) (ack X i s)"
| "apply_request X (Req_Nack i) s = responding (\<lambda>_. Resp_Ok) (nack X i s)"
| "apply_request X (Req_ExtendVisibility i n) s = responding (\<lambda>_. Resp_Ok) (extend_visibility X i n s)"
| "apply_request X (Req_EnqueueBatch q ds) s = responding (\<lambda>_. Resp_Ok) (queue_batch X q ds s)"
| "apply_request X (Req_DequeueBatch q n) s = responding Resp_Tasks (dequeue_batch X q n s)"
| "apply_request X (Req_AckBatch ids) s = responding (\<lambda>_. Resp_Ok) (ack_batch X ids s)"

definition apply_payload :: "codec \<Rightarrow> 'm payload \<Rightarrow> storage \<Rightarrow> client_response res \<times> storage" where
  "apply_payload X p s =
     (case p of
        Blank \<Rightarrow> (Inr Resp_Ok, s)
      | Normal req \<Rightarrow> apply_request X req s
      | Membership _ \<Rightarrow> (Inr Resp_Ok, s))"

text \<open>
  \<^verbatim>\<open>apply_to_state_machine\<close>: the position moves after each entry; a panic leaves the loop with
  the entries before it applied.
\<close>

fun apply_to_state_machine ::
    "codec \<Rightarrow> 'm raft_entry list \<Rightarrow> node \<Rightarrow> client_response list res \<times> node" where
  "apply_to_state_machine X [] n = (Inr [], n)"
| "apply_to_state_machine X (e # es) n =
     (case apply_payload X (entry_payload e) (state_machine n) of
        (Inl p, s) \<Rightarrow> (Inl p, n\<lparr>state_machine := s\<rparr>)
      | (Inr r, s) \<Rightarrow>
          (case apply_to_state_machine X es
                  (n\<lparr>state_machine := s, last_applied_log := Some (entry_log_id e)\<rparr>) of
             (Inl p, n') \<Rightarrow> (Inl p, n')
           | (Inr rs, n') \<Rightarrow> (Inr (r # rs), n')))"

text \<open>\<^verbatim>\<open>StoredMembership\<close>: a membership with the position it was decided at.\<close>

type_synonym 'm stored_membership = "log_id option \<times> 'm"

definition last_applied_state :: "'m \<Rightarrow> node \<Rightarrow> log_id option \<times> 'm stored_membership" where
  "last_applied_state no_members n = (last_applied_log n, (last_applied_log n, no_members))"

section \<open>Snapshots\<close>

record 'm snapshot_meta =
  meta_last_log_id :: "log_id option"
  meta_last_membership :: "'m stored_membership"
  meta_snapshot_id :: string

record 'm snapshot =
  snapshot_meta :: "'m snapshot_meta"
  snapshot_data :: "byte list"

type_synonym saved_state = "(string, queue_item list) fmap \<times> (string, in_flight_task) fmap"

text \<open>
  The error of the consensus library the code builds: reading a snapshot, known by its meta data, or
  writing one, with the message of the failure.
\<close>

datatype 'm storage_error = Snapshot_read "'m snapshot_meta" string | Snapshot_write string

definition build_snapshot ::
    "saved_state json \<Rightarrow> key_order \<Rightarrow> 'm \<Rightarrow> node \<Rightarrow> 'm storage_error + 'm snapshot" where
  "build_snapshot J K no_members n =
     (case to_vec J (get_snapshot_data K (state_machine n)) of
        Inl e \<Rightarrow> Inl (Snapshot_write e)
      | Inr data \<Rightarrow>
          let last_log = last_applied_log n;
              meta = \<lparr>meta_last_log_id = last_log, meta_last_membership = (last_log, no_members),
                      meta_snapshot_id = ''snap-'' @ decimal (case last_log of None \<Rightarrow> 0 | Some l \<Rightarrow> unat (log_index l))\<rparr>
          in Inr \<lparr>snapshot_meta = meta, snapshot_data = data\<rparr>)"

definition install_snapshot ::
    "saved_state json \<Rightarrow> key_order \<Rightarrow> 'm snapshot_meta \<Rightarrow> byte list \<Rightarrow> node
      \<Rightarrow> ('m storage_error + unit) \<times> node" where
  "install_snapshot J K meta data n =
     (case from_slice J data of
        Inl e \<Rightarrow> (Inl (Snapshot_read meta e), n)
      | Inr (qs, fl) \<Rightarrow>
          (Inr (), n\<lparr>state_machine := restore_from_snapshot K qs fl (state_machine n),
                     last_applied_log := meta_last_log_id meta\<rparr>))"

definition get_current_snapshot :: "node \<Rightarrow> 'm snapshot option" where
  "get_current_snapshot n = None"

definition begin_receiving_snapshot :: "byte list" where
  "begin_receiving_snapshot = []"

section \<open>Applying entries\<close>

lemma responding_snd [simp]: "snd (responding f x) = snd x"
  by (auto simp: responding_def split: prod.split sum.split fault.split)

lemma responding_cong:
  "fst x = fst y \<Longrightarrow> fst (responding f x) = fst (responding f y)"
  by (cases x; cases y) (auto simp: responding_def split: sum.split fault.split)

text \<open>The call of the storage a command makes.\<close>

fun call_of :: "client_request \<Rightarrow> call" where
  "call_of (Req_CreateQueue n) = Create_queue n"
| "call_of (Req_Enqueue q d) = Queue q d"
| "call_of (Req_Dequeue q) = Dequeue_one q"
| "call_of (Req_Ack i) = Ack_one i"
| "call_of (Req_Nack i) = Nack_one i"
| "call_of (Req_ExtendVisibility i n) = Extend_visibility i n"
| "call_of (Req_EnqueueBatch q ds) = Queue_batch q ds"
| "call_of (Req_DequeueBatch q n) = Dequeue_batch q n"
| "call_of (Req_AckBatch ids) = Ack_batch ids"

lemma apply_request_state: "snd (apply_request X r s) = after X K (call_of r) s"
  by (cases r) simp_all

fun calls_of :: "'m raft_entry list \<Rightarrow> call list" where
  "calls_of [] = []"
| "calls_of (e # es) =
     (case entry_payload e of Normal r \<Rightarrow> call_of r # calls_of es | _ \<Rightarrow> calls_of es)"

section \<open>Replicas that apply the same entries\<close>

text \<open>The commands that take no identifier from the node that applies them.\<close>

fun deterministic :: "client_request \<Rightarrow> bool" where
  "deterministic (Req_Dequeue q) = False"
| "deterministic (Req_DequeueBatch q n) = False"
| "deterministic r = True"

lemma no_log: "wal s = None \<Longrightarrow> wal_step X a (wal s) (clock s) = (Inr (), None, clock s)"
  by simp

lemma view_eqD:
  assumes "view_of s = view_of t"
  shows "queues s = queues t"
    and "map_option untimed (fmlookup (in_flight s) i) = map_option untimed (fmlookup (in_flight t) i)"
proof -
  from assms have "vqueues (view_of s) = vqueues (view_of t)" "vflights (view_of s) = vflights (view_of t)"
    by simp_all
  then show "queues s = queues t"
    and "map_option untimed (fmlookup (in_flight s) i) = map_option untimed (fmlookup (in_flight t) i)"
    by (simp_all flip: fmlookup_map)
qed

lemma view_eq_dom:
  assumes "view_of s = view_of t"
  shows "i |\<in>| fmdom (in_flight s) \<longleftrightarrow> i |\<in>| fmdom (in_flight t)"
  using view_eqD(2) [OF assms, of i]
  by (cases "fmlookup (in_flight s) i"; cases "fmlookup (in_flight t) i") (simp_all add: fmdom_lookup)

text \<open>The log entry that means what a deterministic command does.\<close>

fun op_of :: "client_request \<Rightarrow> wal_op" where
  "op_of (Req_CreateQueue n) = CreateQueue n"
| "op_of (Req_Enqueue q d) = Enqueue q d"
| "op_of (Req_Ack i) = Ack i"
| "op_of (Req_Nack i) = Nack i"
| "op_of (Req_ExtendVisibility i n) = ExtendVisibility i n"
| "op_of (Req_EnqueueBatch q ds) = EnqueueBatch q ds"
| "op_of (Req_AckBatch ids) = AckBatch ids"
| "op_of (Req_Dequeue q) = AckBatch []"
| "op_of (Req_DequeueBatch q n) = AckBatch []"

lemma extend_any_duration:
  "wal s = None \<Longrightarrow> extend_visibility X i n s = extend_visibility X i m s"
  by (simp add: extend_visibility_def log_op_None split: option.split)

lemma apply_request_replays:
  assumes "wal s = None" and "deterministic r"
  shows "snd (apply_request X r s) = replay_op X (op_of r) s"
proof (cases r)
  case (Req_ExtendVisibility i n)
  then show ?thesis using extend_any_duration [OF assms(1), of X i n 0] by simp
qed (use assms(2) in simp_all)

lemma apply_request_response:
  assumes v: "view_of s = view_of t" and w: "wal s = None" "wal t = None" and "deterministic r"
  shows "fst (apply_request X r s) = fst (apply_request X r t)"
proof -
  note q = view_eqD(1) [OF v] and f = view_eqD(2) [OF v]
  note step = no_log [OF w(1)] no_log [OF w(2)]
  have miss: "missing_tasks ids s = missing_tasks ids t" for ids
    by (simp add: missing_tasks_def view_eq_dom [OF v])
  show ?thesis
  proof (cases r)
    case (Req_CreateQueue n)
    then show ?thesis
      using q by (cases "n |\<in>| fmdom (queues t)")
        (auto intro!: responding_cong simp: create_queue_exists create_queue_logged [OF _ step(1)]
          create_queue_logged [OF _ step(2)])
  next
    case (Req_Enqueue n d)
    then show ?thesis
      using q by (cases "fmlookup (queues t) n")
        (auto intro!: responding_cong simp: queue_missing queue_logged [OF _ step(1)] queue_logged [OF _ step(2)])
  next
    case (Req_EnqueueBatch n ds)
    then show ?thesis
      using q by (cases "fmlookup (queues t) n")
        (auto intro!: responding_cong simp: queue_batch_missing queue_batch_logged [OF _ step(1)]
          queue_batch_logged [OF _ step(2)])
  next
    case (Req_Ack i)
    then show ?thesis
      using f [of i] by (cases "fmlookup (in_flight t) i")
        (auto intro!: responding_cong simp: ack_missing ack_logged [OF _ step(1)] ack_logged [OF _ step(2)])
  next
    case (Req_AckBatch ids)
    then show ?thesis
      by (cases "missing_tasks ids t = []")
        (auto intro!: responding_cong simp: miss ack_batch_missing ack_batch_logged [OF _ step(1)]
          ack_batch_logged [OF _ step(2)])
  next
    case (Req_ExtendVisibility i n)
    then show ?thesis
      using f [of i] by (cases "fmlookup (in_flight t) i")
        (auto intro!: responding_cong simp: extend_missing extend_logged [OF _ step(1)] extend_logged [OF _ step(2)])
  next
    case (Req_Nack i)
    show ?thesis
    proof (cases "fmlookup (in_flight t) i")
      case None
      then show ?thesis
        using Req_Nack f [of i] by (auto intro!: responding_cong simp: nack_missing)
    next
      case (Some a)
      then obtain b where b: "fmlookup (in_flight s) i = Some b" "untimed b = untimed a"
        using f [of i] by auto
      then have "task_attempts b = task_attempts a" "task_queue b = task_queue a"
        using untimed_sel(3,4) by metis+
      then show ?thesis
        using Req_Nack Some b(1) q
        by (auto intro!: responding_cong simp: nack_logged [OF _ step(1)] nack_logged [OF _ step(2)] requeue_result)
    qed
  qed (use assms(4) in simp_all)
qed

fun entry_deterministic :: "'m raft_entry \<Rightarrow> bool" where
  "entry_deterministic e = (case entry_payload e of Normal r \<Rightarrow> deterministic r | _ \<Rightarrow> True)"

lemma apply_payload_agree:
  assumes "view_of s = view_of t" and "wal s = None" and "wal t = None"
    and "case p of Normal r \<Rightarrow> deterministic r | _ \<Rightarrow> True"
  shows "fst (apply_payload X p s) = fst (apply_payload X p t) \<and>
    view_of (snd (apply_payload X p s)) = view_of (snd (apply_payload X p t)) \<and>
    wal (snd (apply_payload X p s)) = None \<and> wal (snd (apply_payload X p t)) = None"
proof (cases p)
  case (Normal r)
  then have "deterministic r" using assms(4) by simp
  then show ?thesis
    using Normal assms(1-3) apply_request_response [OF assms(1-3), of r X]
    by (simp add: apply_payload_def apply_request_replays view_replay_op wal_replay_op)
qed (use assms in \<open>simp_all add: apply_payload_def\<close>)

text \<open>
  C24: replicas stay equal under commands other than dequeues. Two nodes without a local log whose
  storages differ at most in delivery times, identifiers to come and clocks, and which apply the
  same entries in the same order, with no dequeue among them, give the same responses, reach the
  same position, and again differ at most in those.
\<close>

theorem replicas_agree:
  assumes "view_of (state_machine m) = view_of (state_machine n)"
    and "wal (state_machine m) = None" and "wal (state_machine n) = None"
    and "last_applied_log m = last_applied_log n"
    and "\<forall>e\<in>set es. entry_deterministic e"
  shows "fst (apply_to_state_machine X es m) = fst (apply_to_state_machine X es n) \<and>
    last_applied_log (snd (apply_to_state_machine X es m)) = last_applied_log (snd (apply_to_state_machine X es n)) \<and>
    view_of (state_machine (snd (apply_to_state_machine X es m))) =
      view_of (state_machine (snd (apply_to_state_machine X es n)))"
  using assms
proof (induction es arbitrary: m n)
  case Nil
  then show ?case by simp
next
  case (Cons e es)
  obtain r s where m: "apply_payload X (entry_payload e) (state_machine m) = (r, s)" by fastforce
  obtain r' t where n: "apply_payload X (entry_payload e) (state_machine n) = (r', t)" by fastforce
  have agree: "r = r'" "view_of s = view_of t" "wal s = None" "wal t = None"
    using apply_payload_agree [OF Cons.prems(1-3), of "entry_payload e" X] Cons.prems(5) m n by auto
  let ?m = "m\<lparr>state_machine := s, last_applied_log := Some (entry_log_id e)\<rparr>"
  let ?n = "n\<lparr>state_machine := t, last_applied_log := Some (entry_log_id e)\<rparr>"
  have IH: "fst (apply_to_state_machine X es ?m) = fst (apply_to_state_machine X es ?n) \<and>
    last_applied_log (snd (apply_to_state_machine X es ?m)) = last_applied_log (snd (apply_to_state_machine X es ?n)) \<and>
    view_of (state_machine (snd (apply_to_state_machine X es ?m))) =
      view_of (state_machine (snd (apply_to_state_machine X es ?n)))"
    using Cons.prems(5) agree by (intro Cons.IH) simp_all
  show ?case
    using IH agree Cons.prems(4) m n by (cases r') (auto split: prod.splits sum.splits)
qed

text \<open>A node at the start of the log, on which one message was queued.\<close>

definition fresh_node :: "string stream \<Rightarrow> node" where
  "fresh_node u = \<lparr>state_machine = (new_storage u (sconst 0))\<lparr>queues := fmupd ''q'' [fresh_item [7]] fmempty\<rparr>,
     last_applied_log = None\<rparr>"

definition at_index :: "u64 \<Rightarrow> 'm payload \<Rightarrow> 'm raft_entry" where
  "at_index k p = \<lparr>entry_log_id = \<lparr>log_term = 1, log_node = 1, log_index = k\<rparr>, entry_payload = p\<rparr>"

lemma entry_payload_at_index: "entry_payload (at_index k p) = p"
  by (simp add: at_index_def)

theorem replicas_agree_witness:
  "fst (apply_to_state_machine unary_codec
       [at_index 1 (Membership ()), at_index 2 (Normal (Req_Enqueue ''q'' [8]))] (fresh_node numbered)) =
   fst (apply_to_state_machine unary_codec
       [at_index 1 (Membership ()), at_index 2 (Normal (Req_Enqueue ''q'' [8]))] (fresh_node (stl numbered)))"
proof -
  have v: "view_of (state_machine (fresh_node u)) = \<lparr>vqueues = fmupd ''q'' [fresh_item [7]] fmempty, vflights = fmempty\<rparr>" for u
    by (simp add: fresh_node_def view_of_def new_storage_def)
  then show ?thesis
    using replicas_agree [of "fresh_node numbered" "fresh_node (stl numbered)"
        "[at_index 1 (Membership ()), at_index 2 (Normal (Req_Enqueue ''q'' [8]))]" unary_codec]
    by (simp add: fresh_node_def at_index_def)
qed

text \<open>
  C25: replicas come apart over a dequeue. Two nodes with the same storage, up to delivery times,
  apply the same two entries: a dequeue, and the acknowledgement of the task by the identifier the
  first node generated. The first node delivers and forgets the task. The second generated another
  identifier, so the acknowledgement fails there, and the message it acknowledges stays in flight.
\<close>

theorem acked_task_survives_on_follower:
  assumes v: "view_of (state_machine m) = view_of (state_machine n)"
    and w: "wal (state_machine m) = None" "wal (state_machine n) = None"
    and wf: "well_formed (state_machine m)" "well_formed (state_machine n)"
    and q: "fmlookup (queues (state_machine m)) q = Some (item # rest)"
    and differ: "shd (uuids (state_machine m)) \<noteq> shd (uuids (state_machine n))"
      "shd (uuids (state_machine m)) |\<notin>| fmdom (in_flight (state_machine n))"
    and es: "entry_payload e1 = Normal (Req_Dequeue q)"
      "entry_payload e2 = Normal (Req_Ack (shd (uuids (state_machine m))))"
  shows "\<exists>t f. task_data t = item_data item \<and> task_data f = item_data item \<and>
    fst (apply_to_state_machine X [e1, e2] m) = Inr [Resp_Task (Some t), Resp_Ok] \<and>
    fst (apply_to_state_machine X [e1, e2] n) = Inr [Resp_Task (Some f), Resp_Err ''Task not found''] \<and>
    in_flight (state_machine (snd (apply_to_state_machine X [e1, e2] m))) = in_flight (state_machine m) \<and>
    in_flight (state_machine (snd (apply_to_state_machine X [e1, e2] n))) =
      fmupd (task_id f) f (in_flight (state_machine n))"
proof -
  let ?s = "state_machine m" and ?t = "state_machine n"
  let ?a = "task_of (shd (uuids ?s)) q (shd (clock ?s)) item"
  let ?f = "task_of (shd (uuids ?t)) q (shd (clock ?t)) item"
  have q': "fmlookup (queues ?t) q = Some (item # rest)"
    using q view_eqD(1) [OF v] by simp
  have fresh: "fmlookup (in_flight ?s) (shd (uuids ?s)) = None"
    by (rule ids_ok_fresh [OF well_formedD(2) [OF wf(1)]])
  note deq = dequeue_logged [OF q no_log [OF w(1)]] dequeue_logged [OF q' no_log [OF w(2)]]
  have "fst (apply_to_state_machine X [e1, e2] m) = Inr [Resp_Task (Some ?a), Resp_Ok] \<and>
      in_flight (state_machine (snd (apply_to_state_machine X [e1, e2] m))) = in_flight ?s"
    using es fresh
    by (simp add: apply_payload_def responding_def deq(1) Let_def ack_def log_op_def w fmdrop_absent)
  moreover have "fst (apply_to_state_machine X [e1, e2] n) =
      Inr [Resp_Task (Some ?f), Resp_Err ''Task not found''] \<and>
      in_flight (state_machine (snd (apply_to_state_machine X [e1, e2] n))) = fmupd (task_id ?f) ?f (in_flight ?t)"
    using es differ
    by (simp add: apply_payload_def responding_def deq(2) Let_def ack_def fmdom_lookup)
  ultimately show ?thesis by (intro exI [of _ ?a] exI [of _ ?f]) simp
qed

theorem acked_task_survives_on_follower_witness:
  "in_flight (state_machine (snd (apply_to_state_machine unary_codec
     [at_index 1 (Normal (Req_Dequeue ''q'') :: unit payload), at_index 2 (Normal (Req_Ack (shd numbered)))]
     (fresh_node (stl numbered))))) \<noteq> fmempty"
proof -
  have v: "view_of (state_machine (fresh_node u)) = \<lparr>vqueues = fmupd ''q'' [fresh_item [7]] fmempty, vflights = fmempty\<rparr>" for u
    by (simp add: fresh_node_def view_of_def new_storage_def)
  have wf: "unrepeated u \<Longrightarrow> well_formed (state_machine (fresh_node u))" for u
    by (simp add: fresh_node_def new_storage_def well_formed_def flights_ok_def ids_ok_def)
  have sel: "wal (state_machine (fresh_node u)) = None" "uuids (state_machine (fresh_node u)) = u"
    "in_flight (state_machine (fresh_node u)) = fmempty"
    "fmlookup (queues (state_machine (fresh_node u))) ''q'' = Some [fresh_item [7]]" for u
    by (simp_all add: fresh_node_def new_storage_def)
  have "shd numbered \<noteq> shd (stl numbered)"
    using unrepeated_shd [OF unrepeated_numbered] shd_sset [of "stl numbered"] by auto
  then obtain f where "in_flight (state_machine (snd (apply_to_state_machine unary_codec
     [at_index 1 (Normal (Req_Dequeue ''q'') :: unit payload), at_index 2 (Normal (Req_Ack (shd numbered)))]
     (fresh_node (stl numbered))))) = fmupd (task_id f) f fmempty"
    using acked_task_survives_on_follower [of "fresh_node numbered" "fresh_node (stl numbered)" "''q''"
        "fresh_item [7]" "[]" "at_index 1 (Normal (Req_Dequeue ''q'') :: unit payload)"
        "at_index 2 (Normal (Req_Ack (shd numbered)))" unary_codec]
    by (auto simp: v sel wf unrepeated_stl entry_payload_at_index simp del: apply_to_state_machine.simps)
  moreover have "fmupd k x fmempty \<noteq> fmempty" for k :: string and x :: in_flight_task
    by (auto dest: arg_cong [where f = fmdom])
  ultimately show ?thesis by (simp only: not_False_eq_True)
qed

section \<open>Snapshots between nodes\<close>

text \<open>
  C35: a snapshot carries a node's state to another node. Whatever the receiver held, after
  installing what the sender built it has the sender's queues, tasks in flight (with their delivery
  times) and position in the log; it keeps only its own log, identifiers and clock.
\<close>

theorem snapshot_transfers_state:
  assumes "json_law J" and "enumerates K" and "enumerates L"
  shows "\<exists>snap. build_snapshot J K no_members m = Inr snap \<and>
    install_snapshot J L (snapshot_meta snap) (snapshot_data snap) n =
      (Inr (), \<lparr>state_machine = (state_machine n)\<lparr>queues := queues (state_machine m),
                 in_flight := in_flight (state_machine m)\<rparr>,
                last_applied_log = last_applied_log m\<rparr>)"
proof -
  let ?d = "get_snapshot_data K (state_machine m)"
  obtain b where b: "to_vec J ?d = Inr b" "from_slice J b = Inr ?d"
    using assms(1) unfolding json_law_def by blast
  have "case_prod (\<lambda>qs fl. restore_from_snapshot L qs fl t) ?d =
      t\<lparr>queues := queues (state_machine m), in_flight := in_flight (state_machine m)\<rparr>" for t
    by (simp add: get_snapshot_data_def restore_from_snapshot_def insert_all_id [OF assms(2)]
        insert_all_id [OF assms(3)])
  then show ?thesis
    using b by (auto simp: build_snapshot_def install_snapshot_def Let_def split: prod.split)
qed

text \<open>
  Applied membership changes are forgotten. Whatever memberships were among the entries applied,
  a node reports, and puts into its snapshots, the empty default membership at its position.
\<close>

lemma membership_forgotten:
  assumes "apply_to_state_machine X (es @ [e]) n = (Inr rs, n')"
    and "entry_payload e = Membership members" and "build_snapshot J K no_members n' = Inr snap"
  shows "last_applied_state no_members n' = (Some (entry_log_id e), (Some (entry_log_id e), no_members)) \<and>
    meta_last_membership (snapshot_meta snap) = (Some (entry_log_id e), no_members)"
proof -
  have "last_applied_log n' = Some (entry_log_id e)"
    using assms(1)
  proof (induction es arbitrary: n rs)
    case Nil
    then show ?case by (auto simp: apply_payload_def assms(2))
  next
    case (Cons a es)
    then show ?case by (auto split: prod.splits sum.splits)
  qed
  then show ?thesis
    using assms(3) by (auto simp: last_applied_state_def build_snapshot_def Let_def split: sum.splits)
qed

instance queue_item_ext :: (countable) countable
  by (rule countable_classI [where f = "\<lambda>r. to_nat (item_data r, item_attempts r, queue_item.more r)"])
    (auto intro: queue_item.equality)

instance in_flight_task_ext :: (countable) countable
  by (rule countable_classI [where f = "\<lambda>r. to_nat (task_id r, task_data r, consumed_at r,
      task_queue r, task_attempts r, in_flight_task.more r)"])
    (auto intro: in_flight_task.equality)

theorem snapshot_transfers_state_witness:
  "\<exists>snap. build_snapshot counting_json listed () (fresh_node numbered) = Inr snap \<and>
    queues (state_machine (snd (install_snapshot counting_json listed (snapshot_meta snap)
      (snapshot_data snap) \<lparr>state_machine = one_task None, last_applied_log = None\<rparr>))) =
    fmupd ''q'' [fresh_item [7]] fmempty"
  using snapshot_transfers_state [OF counting_json_law listed_enumerates listed_enumerates,
      of "()" "fresh_node numbered" "\<lparr>state_machine = one_task None, last_applied_log = None\<rparr>"]
  by (auto simp: fresh_node_def)

lemma membership_forgotten_witness:
  "last_applied_state ([] :: nat list) (snd (apply_to_state_machine unary_codec
      [at_index 1 (Membership [1 :: nat])] (fresh_node numbered))) =
    (Some (entry_log_id (at_index 1 (Membership [1 :: nat]))),
     (Some (entry_log_id (at_index 1 (Membership [1 :: nat]))), []))"
proof -
  let ?e = "at_index 1 (Membership [1 :: nat])"
  let ?n' = "(fresh_node numbered)\<lparr>last_applied_log := Some (entry_log_id ?e)\<rparr>"
  have "apply_to_state_machine unary_codec ([] @ [?e]) (fresh_node numbered) = (Inr [Resp_Ok], ?n')"
    by (simp add: apply_payload_def entry_payload_at_index fresh_node_def)
  moreover obtain snap where "build_snapshot counting_json listed [] ?n' = Inr (snap :: nat list snapshot)"
    by (simp add: build_snapshot_def counting_json_def Let_def)
  ultimately show ?thesis
    using membership_forgotten [of unary_codec "[]" ?e "fresh_node numbered" "[Resp_Ok]" ?n' "[1 :: nat]"
        counting_json listed "[] :: nat list" snap]
    by (simp add: entry_payload_at_index)
qed

end
