(* ===== verification/Log_Store.thy ===== *)
theory Log_Store
  imports Replication
begin

text \<open>
  The log half of \<^verbatim>\<open>CombinedStorage\<close>
  (\<^verbatim>\<open>src/replication/combined_storage.rs\<close>): the replicated log and the vote in two trees
  of a \<^verbatim>\<open>sled\<close> database. A tree is an ordered map from byte strings to byte strings, as
  \<^verbatim>\<open>sled\<close> documents it; log indices are its keys in big-endian order. Every call of the
  database can fail, and the code turns a failure into a panic.
\<close>

section \<open>Big-endian keys\<close>

text \<open>\<^verbatim>\<open>u64::to_be_bytes\<close> and \<^verbatim>\<open>from_be_bytes\<close>.\<close>

fun be_bytes_from :: "nat \<Rightarrow> nat \<Rightarrow> byte list" where
  "be_bytes_from 0 n = []"
| "be_bytes_from (Suc k) n = of_nat (n div 256 ^ k) # be_bytes_from k (n mod 256 ^ k)"

definition to_be_bytes :: "u64 \<Rightarrow> byte list" where
  "to_be_bytes w = be_bytes_from 8 (unat w)"

definition from_be_bytes :: "byte list \<Rightarrow> u64" where
  "from_be_bytes bs = of_nat (foldl (\<lambda>n b. n * 256 + unat b) 0 bs)"

section \<open>The database\<close>

text \<open>
  The two trees, and whether each of the future calls of the database fails.
\<close>

record sled =
  logs :: "(byte list, byte list) fmap"
  store :: "(byte list, byte list) fmap"
  faults :: "bool stream"

text \<open>A call of the database followed by \<^verbatim>\<open>expect(msg)\<close>.\<close>

definition expecting :: "string \<Rightarrow> (sled \<Rightarrow> 'a res \<times> sled) \<Rightarrow> sled \<Rightarrow> 'a res \<times> sled" where
  "expecting msg f db =
     (let db' = db\<lparr>faults := stl (faults db)\<rparr> in
      if shd (faults db) then (Inl (Panic msg), db') else f db')"

text \<open>Sequencing: a panic ends the function.\<close>

definition and_then :: "'a res \<times> sled \<Rightarrow> ('a \<Rightarrow> sled \<Rightarrow> 'b res \<times> sled) \<Rightarrow> 'b res \<times> sled" where
  "and_then x f = (case x of (Inl p, db) \<Rightarrow> (Inl p, db) | (Inr a, db) \<Rightarrow> f a db)"

definition open_tree :: "string \<Rightarrow> sled \<Rightarrow> unit res \<times> sled" where
  "open_tree msg = expecting msg (\<lambda>db. (Inr (), db))"

definition flush_db :: "sled \<Rightarrow> unit res \<times> sled" where
  "flush_db = expecting ''flush error'' (\<lambda>db. (Inr (), db))"

definition insert_log :: "byte list \<Rightarrow> byte list \<Rightarrow> sled \<Rightarrow> unit res \<times> sled" where
  "insert_log k v = expecting ''sled error'' (\<lambda>db. (Inr (), db\<lparr>logs := fmupd k v (logs db)\<rparr>))"

definition insert_store :: "byte list \<Rightarrow> byte list \<Rightarrow> sled \<Rightarrow> unit res \<times> sled" where
  "insert_store k v = expecting ''sled error'' (\<lambda>db. (Inr (), db\<lparr>store := fmupd k v (store db)\<rparr>))"

text \<open>The keys of the log tree in their order, which is that of the byte strings.\<close>

definition log_keys :: "sled \<Rightarrow> byte list list" where
  "log_keys db = sorted_list_of_fset (fmdom (logs db))"

text \<open>
  Iterating over a range: each step is a call that can fail. \<open>iterate f ks\<close> runs \<open>f\<close> on each
  key until it says to stop.
\<close>

fun iterate :: "(byte list \<Rightarrow> byte list \<Rightarrow> 'a \<Rightarrow> 'a res \<times> bool) \<Rightarrow> byte list list \<Rightarrow> 'a \<Rightarrow> sled \<Rightarrow> 'a res \<times> sled" where
  "iterate f [] acc db = (Inr acc, db)"
| "iterate f (k # ks) acc db =
     and_then (expecting ''sled error'' (\<lambda>db. (Inr (the (fmlookup (logs db) k)), db)) db)
       (\<lambda>v db. case f k v acc of
                 (Inl p, _) \<Rightarrow> (Inl p, db)
               | (Inr acc', go) \<Rightarrow> if go then iterate f ks acc' db else (Inr acc', db))"

text \<open>\<^verbatim>\<open>Tree::apply_batch\<close> of removals.\<close>

definition apply_removals :: "byte list list \<Rightarrow> sled \<Rightarrow> unit res \<times> sled" where
  "apply_removals ks = expecting ''sled error'' (\<lambda>db. (Inr (), db\<lparr>logs := drop_all ks (logs db)\<rparr>))"

definition unwrap :: "string \<Rightarrow> string + 'a \<Rightarrow> 'a res" where
  "unwrap msg r = (case r of Inl _ \<Rightarrow> Inl (Panic msg) | Inr a \<Rightarrow> Inr a)"

section \<open>The log reader\<close>

datatype bound = Included u64 | Excluded u64 | Unbounded

definition range_start :: "bound \<Rightarrow> u64" where
  "range_start b = (case b of Included i \<Rightarrow> i | Excluded i \<Rightarrow> i + 1 | Unbounded \<Rightarrow> 0)"

definition past_end :: "bound \<Rightarrow> u64 \<Rightarrow> bool" where
  "past_end b i = (case b of Included e \<Rightarrow> e < i | Excluded e \<Rightarrow> e \<le> i | Unbounded \<Rightarrow> False)"

text \<open>The body of the loop: the index from the key, the end bound, the entry from the value.\<close>

definition read_entry ::
    "'e json \<Rightarrow> bound \<Rightarrow> byte list \<Rightarrow> byte list \<Rightarrow> 'e list \<Rightarrow> 'e list res \<times> bool" where
  "read_entry E hi k v acc =
     (if length k \<noteq> 8 then (Inl (Panic ''called Result::unwrap() on an Err value''), False)
      else if past_end hi (from_be_bytes k) then (Inr acc, False)
      else (case unwrap ''deserialize error'' (from_slice E v) of
              Inl p \<Rightarrow> (Inl p, False)
            | Inr e \<Rightarrow> (Inr (acc @ [e]), True)))"

definition try_get_log_entries :: "'e json \<Rightarrow> bound \<Rightarrow> bound \<Rightarrow> sled \<Rightarrow> 'e list res \<times> sled" where
  "try_get_log_entries E lo hi db =
     and_then (open_tree ''failed to open logs tree'' db) (\<lambda>_ db.
       iterate (read_entry E hi)
         (filter (\<lambda>k. to_be_bytes (range_start lo) \<le> k) (log_keys db)) [] db)"

section \<open>The log and the vote\<close>

record log_state =
  last_purged_log_id :: "log_id option"
  last_log_id :: "log_id option"

definition get_log_state :: "'m raft_entry json \<Rightarrow> sled \<Rightarrow> log_state res \<times> sled" where
  "get_log_state E db =
     and_then (open_tree ''failed to open logs tree'' db) (\<lambda>_ db.
       and_then (expecting ''sled error'' (\<lambda>db. (Inr (if log_keys db = [] then None
                   else fmlookup (logs db) (last (log_keys db))), db)) db) (\<lambda>last db.
         case last of
           None \<Rightarrow> (Inr \<lparr>last_purged_log_id = None, last_log_id = None\<rparr>, db)
         | Some value \<Rightarrow>
             (case unwrap ''deserialize error'' (from_slice E value) of
                Inl p \<Rightarrow> (Inl p, db)
              | Inr e \<Rightarrow> (Inr \<lparr>last_purged_log_id = None, last_log_id = Some (entry_log_id e)\<rparr>, db))))"

definition ascii :: "string \<Rightarrow> byte list" where
  "ascii s = map of_char s"

definition save_vote :: "'v json \<Rightarrow> 'v \<Rightarrow> sled \<Rightarrow> unit res \<times> sled" where
  "save_vote V vote db =
     and_then (open_tree ''failed to open store tree'' db) (\<lambda>_ db.
       case unwrap ''called Result::unwrap() on an Err value'' (to_vec V vote) of
         Inl p \<Rightarrow> (Inl p, db)
       | Inr val \<Rightarrow> and_then (insert_store (ascii ''vote'') val db) (\<lambda>_. flush_db))"

definition read_vote :: "'v json \<Rightarrow> sled \<Rightarrow> 'v option res \<times> sled" where
  "read_vote V db =
     and_then (open_tree ''failed to open store tree'' db) (\<lambda>_ db.
       and_then (expecting ''sled error'' (\<lambda>db. (Inr (fmlookup (store db) (ascii ''vote'')), db)) db)
         (\<lambda>got db. case got of
            None \<Rightarrow> (Inr None, db)
          | Some val \<Rightarrow>
              (case unwrap ''deserialize error'' (from_slice V val) of
                 Inl p \<Rightarrow> (Inl p, db)
               | Inr vote \<Rightarrow> (Inr (Some vote), db))))"

fun insert_entries :: "'m raft_entry json \<Rightarrow> 'm raft_entry list \<Rightarrow> sled \<Rightarrow> unit res \<times> sled" where
  "insert_entries E [] db = (Inr (), db)"
| "insert_entries E (e # es) db =
     (case unwrap ''called Result::unwrap() on an Err value'' (to_vec E e) of
        Inl p \<Rightarrow> (Inl p, db)
      | Inr value \<Rightarrow>
          and_then (insert_log (to_be_bytes (log_index (entry_log_id e))) value db)
            (\<lambda>_. insert_entries E es))"

definition append_to_log :: "'m raft_entry json \<Rightarrow> 'm raft_entry list \<Rightarrow> sled \<Rightarrow> unit res \<times> sled" where
  "append_to_log E es db =
     and_then (open_tree ''failed to open logs tree'' db) (\<lambda>_ db.
       and_then (insert_entries E es db) (\<lambda>_. flush_db))"

definition collect_key :: "byte list \<Rightarrow> byte list \<Rightarrow> byte list list \<Rightarrow> byte list list res \<times> bool" where
  "collect_key k v acc = (Inr (acc @ [k]), True)"

definition delete_conflict_logs_since :: "log_id \<Rightarrow> sled \<Rightarrow> unit res \<times> sled" where
  "delete_conflict_logs_since l db =
     and_then (open_tree ''failed to open logs tree'' db) (\<lambda>_ db.
       and_then (iterate collect_key
           (filter (\<lambda>k. to_be_bytes (log_index l) \<le> k) (log_keys db)) [] db) (\<lambda>batch db.
         and_then (apply_removals batch db) (\<lambda>_. flush_db)))"

definition purge_logs_upto :: "log_id json \<Rightarrow> log_id \<Rightarrow> sled \<Rightarrow> unit res \<times> sled" where
  "purge_logs_upto J l db =
     and_then (open_tree ''failed to open logs tree'' db) (\<lambda>_ db.
       and_then (iterate collect_key
           (filter (\<lambda>k. k \<le> to_be_bytes (log_index l)) (log_keys db)) [] db) (\<lambda>batch db.
         and_then (apply_removals batch db) (\<lambda>_ db.
           and_then (open_tree ''failed to open store tree'' db) (\<lambda>_ db.
             case unwrap ''called Result::unwrap() on an Err value'' (to_vec J l) of
               Inl p \<Rightarrow> (Inl p, db)
             | Inr val \<Rightarrow> and_then (insert_store (ascii ''last_purged_log_id'') val db) (\<lambda>_. flush_db)))))"

section \<open>Keys are in index order\<close>

lemma byte_of_nat:
  "a < 256 \<Longrightarrow> b < 256 \<Longrightarrow> (of_nat a :: byte) < of_nat b \<longleftrightarrow> a < b"
  "a < 256 \<Longrightarrow> b < 256 \<Longrightarrow> (of_nat a :: byte) = of_nat b \<longleftrightarrow> a = b"
  by (simp_all add: word_less_nat_alt word_unat_eq_iff unat_of_nat)

lemma less_div_mod:
  "(m :: nat) < n \<longleftrightarrow> m div b < n div b \<or> m div b = n div b \<and> m mod b < n mod b"
proof -
  have "n \<le> m \<Longrightarrow> n div b \<le> m div b" "m \<le> n \<Longrightarrow> m div b \<le> n div b"
    by (simp_all add: div_le_mono)
  moreover have "m div b = n div b \<Longrightarrow> m < n \<longleftrightarrow> m mod b < n mod b"
    by (metis div_mult_mod_eq nat_add_left_cancel_less)
  ultimately show ?thesis by linarith
qed

lemma be_bytes_less:
  "m < 256 ^ k \<Longrightarrow> n < 256 ^ k \<Longrightarrow> be_bytes_from k m < be_bytes_from k n \<longleftrightarrow> m < n"
proof (induction k arbitrary: m n)
  case (Suc k)
  let ?B = "256 ^ k :: nat"
  have div: "m div ?B < 256" "n div ?B < 256"
    using Suc.prems by (simp_all add: less_mult_imp_div_less mult.commute)
  have IH: "be_bytes_from k (m mod ?B) < be_bytes_from k (n mod ?B) \<longleftrightarrow> m mod ?B < n mod ?B"
    by (rule Suc.IH) simp_all
  show ?case using less_div_mod [of m n ?B] by (simp add: byte_of_nat [OF div] IH)
qed simp

lemma be_bytes_read:
  "n < 256 ^ k \<Longrightarrow> foldl (\<lambda>a b. a * 256 + unat b) a (be_bytes_from k n) = a * 256 ^ k + n"
proof (induction k arbitrary: a n)
  case (Suc k)
  let ?B = "256 ^ k :: nat"
  have "n div ?B < 256" using Suc.prems by (simp add: less_mult_imp_div_less mult.commute)
  then have "unat (of_nat (n div ?B) :: byte) = n div ?B" by (simp add: unat_of_nat)
  then show ?case
    using Suc.IH [of "n mod ?B" "a * 256 + n div ?B"] div_mult_mod_eq [of n ?B]
    by (simp add: algebra_simps)
qed simp

lemma u64_bound: "unat (w :: u64) < 256 ^ 8"
proof -
  have "unat w < 2 ^ LENGTH(64)" by (rule unsigned_less)
  then show ?thesis by simp
qed

lemma length_be_bytes_from: "length (be_bytes_from k n) = k"
  by (induction k arbitrary: n) simp_all

lemma length_to_be_bytes [simp]: "length (to_be_bytes w) = 8"
  by (simp add: to_be_bytes_def length_be_bytes_from)

lemma from_to_be_bytes [simp]: "from_be_bytes (to_be_bytes w) = w"
  by (simp add: from_be_bytes_def to_be_bytes_def be_bytes_read [OF u64_bound])

lemma to_be_bytes_less [simp]: "to_be_bytes v < to_be_bytes w \<longleftrightarrow> v < w"
  by (simp add: to_be_bytes_def be_bytes_less [OF u64_bound u64_bound] word_less_nat_alt)

lemma to_be_bytes_eq [simp]: "to_be_bytes v = to_be_bytes w \<longleftrightarrow> v = w"
  by (metis from_to_be_bytes)

lemma to_be_bytes_le [simp]: "to_be_bytes v \<le> to_be_bytes w \<longleftrightarrow> v \<le> w"
  by (metis linorder_not_less to_be_bytes_less)

text \<open>
  The keys of the log tree are the indices. The big-endian form of an index has eight bytes and
  reads back as the index, and the byte order of two keys, in which the tree iterates and compares
  range bounds, is the numeric order of their indices.
\<close>

lemma keys_in_index_order:
  "length (to_be_bytes v) = 8 \<and> from_be_bytes (to_be_bytes v) = v \<and>
    (to_be_bytes v < to_be_bytes w \<longleftrightarrow> v < w) \<and> (to_be_bytes v = to_be_bytes w \<longleftrightarrow> v = w)"
  by simp

section \<open>The log as a map from indices to entries\<close>

definition healthy :: "sled \<Rightarrow> bool" where
  "healthy db \<longleftrightarrow> faults db = sconst False"

text \<open>The tree holds exactly the entries of \<open>M\<close>, each under its index.\<close>

definition represents :: "'m raft_entry json \<Rightarrow> sled \<Rightarrow> (u64, 'm raft_entry) fmap \<Rightarrow> bool" where
  "represents E db M \<longleftrightarrow>
     fset (fmdom (logs db)) = to_be_bytes ` fset (fmdom M) \<and>
     (\<forall>i e. fmlookup M i = Some e \<longrightarrow>
        (\<exists>v. fmlookup (logs db) (to_be_bytes i) = Some v \<and> from_slice E v = Inr e) \<and>
        log_index (entry_log_id e) = i)"

definition log_indices :: "(u64, 'm raft_entry) fmap \<Rightarrow> u64 list" where
  "log_indices M = sorted_list_of_fset (fmdom M)"

definition entries_between :: "bound \<Rightarrow> bound \<Rightarrow> (u64, 'm raft_entry) fmap \<Rightarrow> 'm raft_entry list" where
  "entries_between lo hi M =
     map (\<lambda>i. the (fmlookup M i))
       (filter (\<lambda>i. range_start lo \<le> i \<and> \<not> past_end hi i) (log_indices M))"

lemma expecting_healthy: "healthy db \<Longrightarrow> expecting msg f db = f db"
proof -
  assume "healthy db"
  then have "db\<lparr>faults := stl (faults db)\<rparr> = db" "shd (faults db) = False"
    by (simp_all add: healthy_def)
  then show ?thesis by (simp add: expecting_def Let_def)
qed

lemma healthy_upd [simp]:
  "healthy (db\<lparr>logs := l\<rparr>) = healthy db" "healthy (db\<lparr>store := l\<rparr>) = healthy db"
  by (simp_all add: healthy_def)

lemma and_then_simps [simp]:
  "and_then (Inr a, db) f = f a db" "and_then (Inl p, db) f = (Inl p, db)"
  by (simp_all add: and_then_def)

lemma unwrap_simps [simp]: "unwrap msg (Inr a) = Inr a" "unwrap msg (Inl e) = Inl (Panic msg)"
  by (simp_all add: unwrap_def)

lemmas healthy_calls = open_tree_def flush_db_def insert_log_def insert_store_def
  apply_removals_def expecting_healthy

lemma sorted_list_image:
  assumes "strict_mono_on (fset A) f" and "fset B = f ` fset A"
  shows "sorted_list_of_fset B = map f (sorted_list_of_fset A)"
proof -
  have "sorted_wrt (<) (sorted_list_of_fset A)" by (simp add: sorted_list_of_fset.rep_eq)
  then have "sorted_wrt (<) (map f (sorted_list_of_fset A))"
    unfolding sorted_wrt_map
    by (rule sorted_wrt_mono_rel [rotated])
      (use assms(1) in \<open>auto simp: strict_mono_on_def sorted_list_of_fset.rep_eq\<close>)
  then show ?thesis
    using assms(2)
    by (intro strict_sorted_equal) (auto simp: sorted_list_of_fset.rep_eq)
qed

lemma log_keys_eq: "represents E db M \<Longrightarrow> log_keys db = map to_be_bytes (log_indices M)"
  unfolding log_keys_def log_indices_def
  by (rule sorted_list_image) (auto simp: represents_def strict_mono_on_def)

lemma set_log_indices [simp]: "set (log_indices M) = fset (fmdom M)"
  by (simp add: log_indices_def sorted_list_of_fset.rep_eq)

lemma sorted_log_indices: "sorted_wrt (<) (log_indices M)"
  by (simp add: log_indices_def sorted_list_of_fset.rep_eq)

lemma iterate_collect: "healthy db \<Longrightarrow> iterate collect_key ks acc db = (Inr (acc @ ks), db)"
  by (induction ks arbitrary: acc) (simp_all add: expecting_healthy collect_key_def)

lemma takeWhile_eq_filter_sorted:
  assumes "sorted_wrt (<) xs" and "\<And>x y. x < y \<Longrightarrow> P y \<Longrightarrow> P x"
  shows "takeWhile P xs = filter P xs"
  using assms(1)
proof (induction xs)
  case (Cons x xs)
  show ?case
  proof (cases "P x")
    case True
    then show ?thesis using Cons by simp
  next
    case False
    then have "\<forall>y\<in>set xs. \<not> P y" using Cons.prems assms(2) by auto
    then have "filter P xs = []" by (simp add: filter_empty_conv)
    then show ?thesis using False by simp
  qed
qed simp

lemma iterate_read:
  assumes "healthy db" and "represents E db M" and "set is \<subseteq> fset (fmdom M)"
  shows "iterate (read_entry E hi) (map to_be_bytes is) acc db =
    (Inr (acc @ map (\<lambda>i. the (fmlookup M i)) (takeWhile (\<lambda>i. \<not> past_end hi i) is)), db)"
  using assms(3)
proof (induction "is" arbitrary: acc)
  case (Cons i "is")
  then obtain e where e: "fmlookup M i = Some e" by (auto simp: fmdom_lookup)
  then obtain v where "fmlookup (logs db) (to_be_bytes i) = Some v" "from_slice E v = Inr e"
    using assms(2) unfolding represents_def by blast
  then show ?case
    using Cons e by (simp add: expecting_healthy [OF assms(1)] read_entry_def)
qed simp

lemma past_end_mono: "i < j \<Longrightarrow> \<not> past_end hi j \<Longrightarrow> \<not> past_end hi i"
  by (cases hi) (auto simp: past_end_def)

lemma read_refines:
  assumes "healthy db" and "represents E db M"
  shows "try_get_log_entries E lo hi db = (Inr (entries_between lo hi M), db)"
proof -
  have "filter (\<lambda>k. to_be_bytes (range_start lo) \<le> k) (log_keys db) =
      map to_be_bytes (filter (\<lambda>i. range_start lo \<le> i) (log_indices M))"
    by (simp add: log_keys_eq [OF assms(2)] filter_map comp_def)
  moreover have "takeWhile (\<lambda>i. \<not> past_end hi i) (filter (\<lambda>i. range_start lo \<le> i) (log_indices M)) =
      filter (\<lambda>i. range_start lo \<le> i \<and> \<not> past_end hi i) (log_indices M)"
    using sorted_log_indices [of M] past_end_mono
    by (subst takeWhile_eq_filter_sorted) (auto intro: sorted_wrt_filter simp: conj_commute)
  ultimately show ?thesis
    using iterate_read [OF assms, of "filter (\<lambda>i. range_start lo \<le> i) (log_indices M)" hi "[]"]
    by (simp add: try_get_log_entries_def open_tree_def expecting_healthy assms(1) entries_between_def)
qed

lemma represents_store [simp]: "represents E (db\<lparr>store := t\<rparr>) M = represents E db M"
  by (simp add: represents_def)

definition put_entry :: "'m raft_entry \<Rightarrow> (u64, 'm raft_entry) fmap \<Rightarrow> (u64, 'm raft_entry) fmap" where
  "put_entry e M = fmupd (log_index (entry_log_id e)) e M"

lemma represents_put:
  assumes "represents E db M" and "from_slice E v = Inr e"
  shows "represents E (db\<lparr>logs := fmupd (to_be_bytes (log_index (entry_log_id e))) v (logs db)\<rparr>) (put_entry e M)"
  using assms by (auto simp: represents_def put_entry_def)

lemma insert_entries_refines:
  assumes "json_law E"
  shows "healthy db \<Longrightarrow> represents E db M \<Longrightarrow>
    \<exists>db'. insert_entries E es db = (Inr (), db') \<and> healthy db' \<and> store db' = store db \<and>
          represents E db' (fold put_entry es M)"
proof (induction es arbitrary: db M)
  case (Cons e es)
  obtain v where v: "to_vec E e = Inr v" "from_slice E v = Inr e"
    by (rule json_lawE [OF assms])
  then show ?case
    using Cons.IH [OF _ represents_put [OF Cons.prems(2) v(2)]] Cons.prems(1)
    by (simp add: insert_log_def expecting_healthy)
qed simp

lemma append_refines:
  assumes "json_law E" and "healthy db" and "represents E db M"
  shows "\<exists>db'. append_to_log E es db = (Inr (), db') \<and> healthy db' \<and> store db' = store db \<and>
    represents E db' (fold put_entry es M)"
proof -
  obtain db' where "insert_entries E es db = (Inr (), db')" "healthy db'" "store db' = store db"
    "represents E db' (fold put_entry es M)"
    using insert_entries_refines [OF assms] by blast
  then show ?thesis
    by (simp add: append_to_log_def healthy_calls assms(2))
qed

lemma represents_drop:
  assumes "represents E db M"
  shows "represents E (db\<lparr>logs := drop_all (map to_be_bytes (filter P (log_indices M))) (logs db)\<rparr>)
    (fmfilter (\<lambda>i. \<not> P i) M)"
proof -
  let ?l = "drop_all (map to_be_bytes (filter P (log_indices M))) (logs db)"
  have "fset (fmdom ?l) = fset (fmdom (logs db)) - to_be_bytes ` {i \<in> fset (fmdom M). P i}"
    by (auto simp: fmdom_lookup split: if_splits)
  also have "\<dots> = to_be_bytes ` {i \<in> fset (fmdom M). \<not> P i}"
    using assms by (auto simp: represents_def)
  also have "{i \<in> fset (fmdom M). \<not> P i} = fset (fmdom (fmfilter (\<lambda>i. \<not> P i) M))"
    by auto
  finally show ?thesis
    using assms by (auto simp: represents_def)
qed

lemma delete_refines:
  assumes "healthy db" and "represents E db M"
  shows "\<exists>db'. delete_conflict_logs_since l db = (Inr (), db') \<and> healthy db' \<and> store db' = store db \<and>
    represents E db' (fmfilter (\<lambda>i. i < log_index l) M)"
proof -
  have "filter (\<lambda>k. to_be_bytes (log_index l) \<le> k) (log_keys db) =
      map to_be_bytes (filter (\<lambda>i. log_index l \<le> i) (log_indices M))"
    by (simp add: log_keys_eq [OF assms(2)] filter_map comp_def)
  then show ?thesis
    using represents_drop [OF assms(2), of "\<lambda>i. log_index l \<le> i"]
    by (simp add: delete_conflict_logs_since_def healthy_calls assms(1) iterate_collect not_le)
qed

lemma purge_refines:
  assumes "json_law J" and "healthy db" and "represents E db M"
  shows "\<exists>db'. purge_logs_upto J l db = (Inr (), db') \<and> healthy db' \<and>
    (\<forall>k. k \<noteq> ascii ''last_purged_log_id'' \<longrightarrow> fmlookup (store db') k = fmlookup (store db) k) \<and>
    represents E db' (fmfilter (\<lambda>i. log_index l < i) M)"
proof -
  obtain b where b: "to_vec J l = Inr b" by (rule json_lawE [OF assms(1)])
  have "filter (\<lambda>k. k \<le> to_be_bytes (log_index l)) (log_keys db) =
      map to_be_bytes (filter (\<lambda>i. i \<le> log_index l) (log_indices M))"
    by (simp add: log_keys_eq [OF assms(3)] filter_map comp_def)
  then show ?thesis
    using represents_drop [OF assms(3), of "\<lambda>i. i \<le> log_index l"] b
    by (simp add: purge_logs_upto_def healthy_calls assms(2) iterate_collect not_le)
qed

definition last_entry :: "(u64, 'm raft_entry) fmap \<Rightarrow> 'm raft_entry option" where
  "last_entry M = (if log_indices M = [] then None else fmlookup M (last (log_indices M)))"

lemma state_refines:
  assumes "healthy db" and "represents E db M"
  shows "get_log_state E db =
    (Inr \<lparr>last_purged_log_id = None, last_log_id = map_option entry_log_id (last_entry M)\<rparr>, db)"
proof (cases "log_indices M = []")
  case True
  then show ?thesis
    by (simp add: get_log_state_def healthy_calls assms(1) log_keys_eq [OF assms(2)] last_entry_def)
next
  case False
  then have "last (log_indices M) \<in> fset (fmdom M)" using set_log_indices [of M] last_in_set by metis
  then obtain e where "fmlookup M (last (log_indices M)) = Some e" by (auto simp: fmdom_lookup)
  moreover obtain v where "fmlookup (logs db) (to_be_bytes (last (log_indices M))) = Some v" "from_slice E v = Inr e"
    using assms(2) calculation unfolding represents_def by blast
  ultimately show ?thesis
    using False
    by (simp add: get_log_state_def healthy_calls assms(1) log_keys_eq [OF assms(2)] last_entry_def last_map)
qed

section \<open>The log store refines its abstract map\<close>

datatype 'm log_write = Append "'m raft_entry list" | Delete_since log_id | Purge_upto log_id

fun log_step :: "'m raft_entry json \<Rightarrow> log_id json \<Rightarrow> 'm log_write \<Rightarrow> sled \<Rightarrow> sled" where
  "log_step E J (Append es) db = snd (append_to_log E es db)"
| "log_step E J (Delete_since l) db = snd (delete_conflict_logs_since l db)"
| "log_step E J (Purge_upto l) db = snd (purge_logs_upto J l db)"

fun step_spec :: "'m log_write \<Rightarrow> (u64, 'm raft_entry) fmap \<Rightarrow> (u64, 'm raft_entry) fmap" where
  "step_spec (Append es) M = fold put_entry es M"
| "step_spec (Delete_since l) M = fmfilter (\<lambda>i. i < log_index l) M"
| "step_spec (Purge_upto l) M = fmfilter (\<lambda>i. log_index l < i) M"

text \<open>The laws are part of the relation, so that the interpretation holds for all codecs.\<close>

definition log_rel :: "'m raft_entry json \<Rightarrow> log_id json \<Rightarrow> sled \<Rightarrow> (u64, 'm raft_entry) fmap \<Rightarrow> bool" where
  "log_rel E J db M \<longleftrightarrow> json_law E \<and> json_law J \<and> healthy db \<and> represents E db M"

interpretation log_store: refinement "log_step E J" step_spec "log_rel E J"
  for E :: "'m raft_entry json" and J :: "log_id json"
proof
  fix db M and w :: "'m log_write"
  assume rel: "log_rel E J db M"
  then have laws: "json_law E" "json_law J" "healthy db" "represents E db M"
    by (simp_all add: log_rel_def)
  show "log_rel E J (log_step E J w db) (step_spec w M)"
  proof (cases w)
    case (Append es)
    then show ?thesis using append_refines [OF laws(1,3,4), of es] laws(1,2) by (auto simp: log_rel_def)
  next
    case (Delete_since l)
    then show ?thesis using delete_refines [OF laws(3,4), of l] laws(1,2) by (auto simp: log_rel_def)
  next
    case (Purge_upto l)
    then show ?thesis using purge_refines [OF laws(2,3,4), of l] laws(1,2) by (auto simp: log_rel_def)
  qed
qed

text \<open>
  C23: the log store is a map from indices to entries. After any appends, truncations and purges
  of an empty log, on a database without failures, reading a range returns exactly the entries that
  the same writes leave in a map from index to entry (append: set each entry under its index,
  replacing; truncate: drop the indices from a position on; purge: drop those up to a position)
  whose index is in the range, in index order; and the reported last position is that of the
  entry with the greatest index.
\<close>

theorem log_store_refines_map:
  assumes "json_law E" and "json_law J" and "faults db = sconst False" and "logs db = fmempty"
  shows "let db' = run (log_step E J) ws db; M = run step_spec ws fmempty in
    try_get_log_entries E lo hi db' = (Inr (entries_between lo hi M), db') \<and>
    get_log_state E db' =
      (Inr \<lparr>last_purged_log_id = None, last_log_id = map_option entry_log_id (last_entry M)\<rparr>, db')"
proof -
  have "log_rel E J db fmempty"
    using assms by (simp add: log_rel_def healthy_def represents_def)
  then have "log_rel E J (run (log_step E J) ws db) (run step_spec ws fmempty)"
    by (rule log_store.run_refines)
  then show ?thesis
    by (simp add: log_rel_def Let_def read_refines state_refines)
qed

instance client_request :: countable
  by countable_datatype

instance payload :: (countable) countable
  by countable_datatype

instance log_id_ext :: (countable) countable
  by (rule countable_classI [where f = "\<lambda>r. to_nat (log_term r, log_node r, log_index r, log_id.more r)"])
    (auto intro: log_id.equality)

instance raft_entry_ext :: (countable, countable) countable
  by (rule countable_classI [where f = "\<lambda>r. to_nat (entry_log_id r, entry_payload r, raft_entry.more r)"])
    (auto intro: raft_entry.equality)

definition empty_db :: sled where
  "empty_db = \<lparr>logs = fmempty, store = fmempty, faults = sconst False\<rparr>"

lemma empty_db_log: "json_law E \<Longrightarrow> json_law J \<Longrightarrow> log_rel E J empty_db fmempty"
  by (simp add: log_rel_def healthy_def represents_def empty_db_def)

theorem log_store_refines_map_witness:
  "fst (try_get_log_entries (counting_json :: unit raft_entry json) (Included 1) (Excluded 9)
     (run (log_step counting_json counting_json)
       [Append [at_index 1 (Blank :: unit payload), at_index 2 Blank], Delete_since (entry_log_id (at_index 2 (Blank :: unit payload))),
        Append [at_index 2 (Normal (Req_Dequeue ''q''))]] empty_db)) =
   Inr [at_index 1 Blank, at_index 2 (Normal (Req_Dequeue ''q''))]"
proof -
  let ?ws = "[Append [at_index 1 (Blank :: unit payload), at_index 2 Blank], Delete_since (entry_log_id (at_index 2 (Blank :: unit payload))),
      Append [at_index 2 (Normal (Req_Dequeue ''q''))]]"
  have M: "run step_spec ?ws fmempty =
      fmupd 1 (at_index 1 Blank) (fmupd 2 (at_index 2 (Normal (Req_Dequeue ''q''))) fmempty)"
    by (rule fmap_ext) (auto simp: put_entry_def at_index_def)
  have "sorted_list_of_fset {|1 :: u64, 2|} = [1, 2]"
    by (simp add: sorted_list_of_fset.rep_eq)
  moreover have "\<not> (9 :: u64) \<le> 1" by (simp add: word_le_nat_alt)
  ultimately have "entries_between (Included 1) (Excluded 9) (run step_spec ?ws fmempty) =
      [at_index 1 Blank, at_index 2 (Normal (Req_Dequeue ''q''))]"
    unfolding M by (simp add: entries_between_def log_indices_def range_start_def past_end_def)
  then show ?thesis
    using log_store_refines_map [of "counting_json :: unit raft_entry json" counting_json empty_db,
        where lo = "Included 1" and hi = "Excluded 9" and ws = ?ws]
    by (simp add: counting_json_law empty_db_def Let_def del: run.simps step_spec.simps)
qed

lemma vote_key: "ascii ''vote'' \<noteq> ascii ''last_purged_log_id''"
  by (simp add: ascii_def)

lemma log_step_vote:
  assumes "log_rel E J db M"
  shows "fmlookup (store (log_step E J w db)) (ascii ''vote'') = fmlookup (store db) (ascii ''vote'')"
proof -
  have laws: "json_law E" "json_law J" "healthy db" "represents E db M"
    using assms by (simp_all add: log_rel_def)
  show ?thesis
  proof (cases w)
    case (Append es)
    then show ?thesis using append_refines [OF laws(1,3,4), of es] by auto
  next
    case (Delete_since l)
    then show ?thesis using delete_refines [OF laws(3,4), of l] by auto
  next
    case (Purge_upto l)
    then show ?thesis using purge_refines [OF laws(2,3,4), of l] vote_key by auto
  qed
qed

lemma run_vote:
  "log_rel E J db M \<Longrightarrow>
     fmlookup (store (run (log_step E J) ws db)) (ascii ''vote'') = fmlookup (store db) (ascii ''vote'')"
proof (induction ws arbitrary: db M)
  case (Cons w ws)
  have "log_rel E J (log_step E J w db) (step_spec w M)"
    by (rule log_store.simulates [OF Cons.prems])
  then show ?case using Cons.IH log_step_vote [OF Cons.prems, of w] by simp
qed simp

text \<open>
  A saved vote is kept. On a database without failures, a vote that was saved is what is read
  back, after any later appends, truncations and purges of the log.
\<close>

lemma vote_survives:
  assumes "json_law V" and "log_rel E J db M"
  shows "\<exists>db1. save_vote V vote db = (Inr (), db1) \<and>
    read_vote V (run (log_step E J) ws db1) = (Inr (Some vote), run (log_step E J) ws db1)"
proof -
  obtain b where b: "to_vec V vote = Inr b" "from_slice V b = Inr vote"
    by (rule json_lawE [OF assms(1)])
  let ?db1 = "db\<lparr>store := fmupd (ascii ''vote'') b (store db)\<rparr>"
  have "healthy db" using assms(2) by (simp add: log_rel_def)
  then have "save_vote V vote db = (Inr (), ?db1)"
    by (simp add: save_vote_def healthy_calls b)
  moreover have rel: "log_rel E J ?db1 M" using assms(2) by (simp add: log_rel_def)
  moreover have "healthy (run (log_step E J) ws ?db1)"
    using log_store.run_refines [OF rel, of ws] by (simp add: log_rel_def)
  moreover have "fmlookup (store (run (log_step E J) ws ?db1)) (ascii ''vote'') = Some b"
    using run_vote [OF rel, of ws] by simp
  ultimately show ?thesis by (simp add: read_vote_def healthy_calls b)
qed

lemma vote_survives_witness:
  "\<exists>db1. save_vote counting_json (3 :: nat, True) empty_db = (Inr (), db1) \<and>
    fst (read_vote counting_json (run (log_step (counting_json :: unit raft_entry json) counting_json)
      [Append [at_index 1 Blank], Purge_upto (entry_log_id (at_index 1 (Blank :: unit payload)))] db1)) =
    Inr (Some (3 :: nat, True))"
  using vote_survives [OF counting_json_law empty_db_log [OF counting_json_law counting_json_law],
      where vote = "(3 :: nat, True)" and ws = "[Append [at_index 1 (Blank :: unit payload)],
        Purge_upto (entry_log_id (at_index 1 (Blank :: unit payload)))]"]
  by (auto simp del: run.simps)

section \<open>Restarting a node\<close>

text \<open>
  \<^verbatim>\<open>CombinedStorage::new\<close> with the empty storage of cluster mode
  (\<^verbatim>\<open>src/main.rs\<close>): the database is opened again, the state machine starts empty and
  nothing is applied.
\<close>

definition combined_new :: "string stream \<Rightarrow> instant stream \<Rightarrow> node" where
  "combined_new u c = \<lparr>state_machine = new_storage u c, last_applied_log = None\<rparr>"

text \<open>
  C36: a purge followed by a restart forgets what was purged. Whatever a node had applied, if its
  log is purged up to a position that covers all its entries and the node restarts, then what it
  offers to the consensus library is an empty node: no log, no last position, no purged position
  (although the purge stored one), nothing applied, no snapshot, and an empty state machine.
\<close>

theorem purge_then_restart_forgets:
  assumes "json_law J" and "healthy db" and "represents E db M"
    and "\<forall>i. i |\<in>| fmdom M \<longrightarrow> i \<le> log_index l"
  shows "\<exists>db'. purge_logs_upto J l db = (Inr (), db') \<and>
    (\<exists>b. fmlookup (store db') (ascii ''last_purged_log_id'') = Some b \<and> from_slice J b = Inr l) \<and>
    try_get_log_entries E Unbounded Unbounded db' = (Inr [], db') \<and>
    get_log_state E db' = (Inr \<lparr>last_purged_log_id = None, last_log_id = None\<rparr>, db') \<and>
    last_applied_state no_members (combined_new u c) = (None, (None, no_members)) \<and>
    get_current_snapshot (combined_new u c) = None \<and>
    messages (state_machine (combined_new u c)) = {#}"
proof -
  obtain b where b: "to_vec J l = Inr b" "from_slice J b = Inr l" by (rule json_lawE [OF assms(1)])
  obtain db' where db': "purge_logs_upto J l db = (Inr (), db')" "healthy db'"
    "represents E db' (fmfilter (\<lambda>i. log_index l < i) M)"
    using purge_refines [OF assms(1-3)] by blast
  have "fmfilter (\<lambda>i. log_index l < i) M = fmempty"
    using assms(4) by (intro fmap_ext) (auto simp: fmdom_lookup not_less [symmetric])
  then have empty: "represents E db' fmempty" using db'(3) by simp
  have none: "log_indices fmempty = []" by (simp add: log_indices_def sorted_list_of_fset.rep_eq)
  have "fmlookup (store db') (ascii ''last_purged_log_id'') = Some b"
    using db'(1) by (simp add: purge_logs_upto_def healthy_calls assms(2) iterate_collect b) (auto simp: prod_eq_iff)
  then show ?thesis
    using db'(1) b read_refines [OF db'(2) empty, of Unbounded Unbounded] state_refines [OF db'(2) empty]
    by (simp add: none entries_between_def last_entry_def last_applied_state_def combined_new_def
        get_current_snapshot_def messages_def queued_def flying_def new_storage_def)
qed

theorem purge_then_restart_forgets_witness:
  "\<exists>db'. purge_logs_upto counting_json (entry_log_id (at_index 1 (Blank :: unit payload)))
      (log_step (counting_json :: unit raft_entry json) counting_json (Append [at_index 1 Blank]) empty_db) =
      (Inr (), db') \<and>
    get_log_state (counting_json :: unit raft_entry json) db' =
      (Inr \<lparr>last_purged_log_id = None, last_log_id = None\<rparr>, db')"
proof -
  let ?E = "counting_json :: unit raft_entry json" and ?e = "at_index 1 (Blank :: unit payload)"
  have "log_rel ?E counting_json (log_step ?E counting_json (Append [?e]) empty_db) (step_spec (Append [?e]) fmempty)"
    by (rule log_store.simulates [OF empty_db_log [OF counting_json_law counting_json_law]])
  then have "healthy (log_step ?E counting_json (Append [?e]) empty_db)"
    "represents ?E (log_step ?E counting_json (Append [?e]) empty_db) (fmupd 1 ?e fmempty)"
    by (simp_all add: log_rel_def put_entry_def at_index_def)
  then show ?thesis
    using purge_then_restart_forgets [OF counting_json_law, where l = "entry_log_id ?e"]
    by (fastforce simp: at_index_def)
qed

end
