(* ===== verification/Http.thy ===== *)
theory Http
  imports Log_Store
begin

text \<open>
  The HTTP interface of \<^verbatim>\<open>src/lib.rs\<close>: the queue-name check, the password check, every
  handler, the routes with their body limits, and the background cleanup. The consensus library is
  a parameter (\<open>raft_api\<close>, on its own state \<open>'r\<close>), and so are JSON and MessagePack
  (\<open>values\<close>, on documents \<open>'j\<close>), the constant-time comparison and the request extractors of
  the web framework. A response keeps the headers its handler sets.
\<close>

section \<open>Application state, requests and responses\<close>

datatype write_outcome = Written client_response | Forward_to_leader string | Write_failed string

datatype read_outcome = Is_leader | Read_forward string | Read_failed string

datatype raft_rpc =
    Vote "byte list"
  | Append_entries "byte list"
  | Install_snapshot "byte list"
  | Initialize "byte list"
  | Add_learner "byte list"
  | Change_membership "byte list"

text \<open>
  What the handlers call on the consensus library. A call can change the library's state and,
  through the state machine it drives, the storage. The RPCs answer with a JSON text or an error.
\<close>

record 'r raft_api =
  client_write :: "client_request \<Rightarrow> 'r \<Rightarrow> storage \<Rightarrow> write_outcome \<times> 'r \<times> storage"
  ensure_linearizable :: "'r \<Rightarrow> storage \<Rightarrow> read_outcome \<times> 'r \<times> storage"
  rpc :: "raft_rpc \<Rightarrow> 'r \<Rightarrow> storage \<Rightarrow> (string + string) \<times> 'r \<times> storage"
  metrics :: "'r \<Rightarrow> string"
  is_leader :: "'r \<Rightarrow> bool"

record 'r app_state =
  app_storage :: storage
  password :: string
  raft :: "'r option"
  heartbeat_duration :: u64

text \<open>Documents: \<^verbatim>\<open>serde_json\<close> and \<^verbatim>\<open>rmp_serde\<close> on \<^verbatim>\<open>serde_json::Value\<close>.\<close>

record 'j "values" =
  json_list :: "byte list \<Rightarrow> string + 'j list"
  msgpack_list :: "byte list \<Rightarrow> string + 'j list"
  json_bytes :: "'j \<Rightarrow> string + byte list"
  msgpack_bytes :: "'j \<Rightarrow> string + byte list"
  json_value :: "byte list \<Rightarrow> string + 'j"
  msgpack_value :: "byte list \<Rightarrow> string + 'j"
  json_null :: 'j
  msgpack_items :: "(string \<times> 'j) list \<Rightarrow> string + byte list"

datatype 'j body =
    No_body
  | Text string
  | Raw "byte list"
  | Json_text string
  | Stats_report stats
  | Items "(string \<times> 'j) list"
  | Health "string option"

record 'j response =
  status :: nat
  headers :: "(string \<times> string) list"
  body :: "'j body"

definition only_status :: "nat \<Rightarrow> 'j response" where
  "only_status n = \<lparr>status = n, headers = [], body = No_body\<rparr>"

definition text_response :: "nat \<Rightarrow> string \<Rightarrow> 'j response" where
  "text_response n t = \<lparr>status = n, headers = [], body = Text t\<rparr>"

definition not_leader :: "string \<Rightarrow> 'j response" where
  "not_leader l = text_response 503 (''Not leader. Leader is: '' @ l)"

section \<open>Queue names\<close>

definition max_queue_name_length :: nat where
  "max_queue_name_length = 128"

text \<open>The characters allowed: ASCII letters and digits, underscore and hyphen.\<close>

definition name_char :: "char \<Rightarrow> bool" where
  "name_char c \<longleftrightarrow>
     48 \<le> code c \<and> code c \<le> 57 \<or> 65 \<le> code c \<and> code c \<le> 90 \<or> 97 \<le> code c \<and> code c \<le> 122 \<or>
     c = CHR ''_'' \<or> c = CHR ''-''"

definition validate_queue_name :: "string \<Rightarrow> string + unit" where
  "validate_queue_name name =
     (if name = [] then Inl ''Queue name cannot be empty''
      else if max_queue_name_length < length name
      then Inl (''Queue name exceeds maximum length of '' @ decimal max_queue_name_length @ '' characters'')
      else if \<not> list_all name_char name
      then Inl ''Queue name can only contain alphanumeric characters, underscores, and hyphens''
      else Inr ())"

section \<open>Single-message handlers\<close>

text \<open>The match on the outcome of a write whose response carries nothing, as each handler has it.\<close>

definition unit_outcome :: "nat \<Rightarrow> nat \<Rightarrow> write_outcome \<Rightarrow> 'j response" where
  "unit_outcome good bad w =
     (case w of
        Written Resp_Ok \<Rightarrow> only_status good
      | Written (Resp_Err e) \<Rightarrow> text_response bad e
      | Written _ \<Rightarrow> text_response 500 ''Invalid response type''
      | Forward_to_leader l \<Rightarrow> not_leader l
      | Write_failed e \<Rightarrow> text_response 500 e)"

definition unit_result :: "nat \<Rightarrow> nat \<Rightarrow> unit res \<Rightarrow> 'j response res" where
  "unit_result good bad r =
     (case r of
        Inr _ \<Rightarrow> Inr (only_status good)
      | Inl (Err e) \<Rightarrow> Inr (text_response bad e)
      | Inl (Panic p) \<Rightarrow> Inl (Panic p))"

text \<open>A write through the consensus library, when there is one.\<close>

definition replicated ::
    "'r raft_api \<Rightarrow> client_request \<Rightarrow> 'r \<Rightarrow> 'r app_state \<Rightarrow> write_outcome \<times> 'r app_state" where
  "replicated R req r st =
     (case client_write R req r (app_storage st) of
        (w, r', s) \<Rightarrow> (w, st\<lparr>raft := Some r', app_storage := s\<rparr>))"

text \<open>A call of the storage, when there is none.\<close>

definition standalone :: "(storage \<Rightarrow> 'a \<times> storage) \<Rightarrow> 'r app_state \<Rightarrow> 'a \<times> 'r app_state" where
  "standalone f st = (case f (app_storage st) of (a, s) \<Rightarrow> (a, st\<lparr>app_storage := s\<rparr>))"

text \<open>The two branches of a handler of a write that answers with a status alone.\<close>

definition unit_write ::
    "'r raft_api \<Rightarrow> nat \<Rightarrow> nat \<Rightarrow> client_request \<Rightarrow> (storage \<Rightarrow> unit res \<times> storage) \<Rightarrow> 'r app_state
      \<Rightarrow> 'j response res \<times> 'r app_state" where
  "unit_write R good bad req direct st =
     (case raft st of
        Some r \<Rightarrow> (case replicated R req r st of (w, st') \<Rightarrow> (Inr (unit_outcome good bad w), st'))
      | None \<Rightarrow> (case standalone direct st of (x, st') \<Rightarrow> (unit_result good bad x, st')))"

definition create_queue_handler ::
    "codec \<Rightarrow> 'r raft_api \<Rightarrow> string \<Rightarrow> 'r app_state \<Rightarrow> 'j response res \<times> 'r app_state" where
  "create_queue_handler X R name st =
     (case validate_queue_name name of
        Inl e \<Rightarrow> (Inr (text_response 400 e), st)
      | Inr _ \<Rightarrow> unit_write R 201 400 (Req_CreateQueue name) (create_queue X name) st)"

definition enqueue ::
    "codec \<Rightarrow> 'r raft_api \<Rightarrow> string \<Rightarrow> byte list \<Rightarrow> 'r app_state \<Rightarrow> 'j response res \<times> 'r app_state" where
  "enqueue X R queue_name payload st =
     (case validate_queue_name queue_name of
        Inl e \<Rightarrow> (Inr (text_response 400 e), st)
      | Inr _ \<Rightarrow> unit_write R 200 404 (Req_Enqueue queue_name payload) (queue X queue_name payload) st)"

text \<open>A delivered task; its identifier goes into a header when it can (\<open>hv\<close>, \<^verbatim>\<open>HeaderValue::from_str\<close>).\<close>

definition task_response :: "(string \<Rightarrow> bool) \<Rightarrow> in_flight_task \<Rightarrow> 'j response" where
  "task_response hv task =
     \<lparr>status = 200, headers = (if hv (task_id task) then [(''x-oxideq-task-id'', task_id task)] else []),
      body = Raw (task_data task)\<rparr>"

definition dequeue_handler ::
    "codec \<Rightarrow> 'r raft_api \<Rightarrow> (string \<Rightarrow> bool) \<Rightarrow> string \<Rightarrow> 'r app_state \<Rightarrow> 'j response res \<times> 'r app_state" where
  "dequeue_handler X R hv queue_name st =
     (case validate_queue_name queue_name of
        Inl e \<Rightarrow> (Inr (text_response 400 e), st)
      | Inr _ \<Rightarrow>
          (case raft st of
             Some r \<Rightarrow>
               (case replicated R (Req_Dequeue queue_name) r st of
                  (w, st') \<Rightarrow>
                    (Inr (case w of
                            Written (Resp_Task (Some task)) \<Rightarrow> task_response hv task
                          | Written (Resp_Task None) \<Rightarrow> only_status 204
                          | Written (Resp_Err e) \<Rightarrow> text_response 404 e
                          | Written _ \<Rightarrow> text_response 500 ''Invalid response type''
                          | Forward_to_leader l \<Rightarrow> not_leader l
                          | Write_failed e \<Rightarrow> text_response 500 e), st'))
           | None \<Rightarrow>
               (case standalone (dequeue X queue_name) st of
                  (Inr (Some task), st') \<Rightarrow> (Inr (task_response hv task), st')
                | (Inr None, st') \<Rightarrow> (Inr (only_status 204), st')
                | (Inl (Err e), st') \<Rightarrow> (Inr (text_response 404 e), st')
                | (Inl (Panic p), st') \<Rightarrow> (Inl (Panic p), st'))))"

definition ack_task ::
    "codec \<Rightarrow> 'r raft_api \<Rightarrow> string \<Rightarrow> string \<Rightarrow> 'r app_state \<Rightarrow> 'j response res \<times> 'r app_state" where
  "ack_task X R queue_name tid st = unit_write R 200 404 (Req_Ack tid) (ack X tid) st"

definition nack_task ::
    "codec \<Rightarrow> 'r raft_api \<Rightarrow> string \<Rightarrow> string \<Rightarrow> 'r app_state \<Rightarrow> 'j response res \<times> 'r app_state" where
  "nack_task X R queue_name tid st = unit_write R 200 404 (Req_Nack tid) (nack X tid) st"

definition heartbeat_task ::
    "codec \<Rightarrow> 'r raft_api \<Rightarrow> string \<Rightarrow> string \<Rightarrow> 'r app_state \<Rightarrow> 'j response res \<times> 'r app_state" where
  "heartbeat_task X R queue_name tid st =
     unit_write R 200 404 (Req_ExtendVisibility tid (heartbeat_duration st))
       (extend_visibility X tid (heartbeat_duration st)) st"

definition get_stats_handler :: "'r raft_api \<Rightarrow> 'r app_state \<Rightarrow> 'j response res \<times> 'r app_state" where
  "get_stats_handler R st =
     (let report = (\<lambda>st. (case get_stats (app_storage st) of
                           Inr v \<Rightarrow> Inr \<lparr>status = 200, headers = [], body = Stats_report v\<rparr>
                         | Inl (Err e) \<Rightarrow> Inr (text_response 500 e)
                         | Inl (Panic p) \<Rightarrow> Inl (Panic p), st))
      in case raft st of
           None \<Rightarrow> report st
         | Some r \<Rightarrow>
             (case ensure_linearizable R r (app_storage st) of
                (x, r', s) \<Rightarrow>
                  let st' = st\<lparr>raft := Some r', app_storage := s\<rparr> in
                  (case x of
                     Is_leader \<Rightarrow> report st'
                   | Read_forward l \<Rightarrow> (Inr (not_leader l), st')
                   | Read_failed e \<Rightarrow> (Inr (text_response 500 e), st'))))"

definition health_check :: "'r app_state \<Rightarrow> 'j response res \<times> 'r app_state" where
  "health_check st =
     (case get_stats (app_storage st) of
        Inr _ \<Rightarrow> (Inr \<lparr>status = 200, headers = [], body = Health None\<rparr>, st)
      | Inl (Err e) \<Rightarrow> (Inr \<lparr>status = 500, headers = [], body = Health (Some e)\<rparr>, st)
      | Inl (Panic p) \<Rightarrow> (Inl (Panic p), st))"

section \<open>Batch handlers\<close>

text \<open>\<^verbatim>\<open>values.into_iter().map(|v| to_vec(&v).unwrap()).collect()\<close>.\<close>

fun encode_all :: "('j \<Rightarrow> string + byte list) \<Rightarrow> 'j list \<Rightarrow> byte list list res" where
  "encode_all f [] = Inr []"
| "encode_all f (v # vs) =
     (case unwrap ''called Result::unwrap() on an Err value'' (f v) of
        Inl p \<Rightarrow> Inl p
      | Inr b \<Rightarrow> (case encode_all f vs of Inl p \<Rightarrow> Inl p | Inr bs \<Rightarrow> Inr (b # bs)))"

text \<open>
  The header that selects a format, when it is present and readable as text; otherwise JSON.
\<close>

definition media_type :: "string option \<Rightarrow> string" where
  "media_type h = (case h of None \<Rightarrow> ''application/json'' | Some t \<Rightarrow> t)"

text \<open>The payloads of a batch: the inner \<open>Inl\<close> is the early return with status 400.\<close>

definition batch_items :: "'j values \<Rightarrow> string option \<Rightarrow> byte list \<Rightarrow> string + byte list list res" where
  "batch_items D content_type bytes =
     (if media_type content_type = ''application/msgpack''
      then (case msgpack_list D bytes of
              Inl e \<Rightarrow> Inl e
            | Inr vs \<Rightarrow> Inr (encode_all (msgpack_bytes D) vs))
      else (case json_list D bytes of
              Inl e \<Rightarrow> Inl e
            | Inr vs \<Rightarrow> Inr (encode_all (json_bytes D) vs)))"

definition queue_batch_handler ::
    "codec \<Rightarrow> 'r raft_api \<Rightarrow> 'j values \<Rightarrow> string \<Rightarrow> string option \<Rightarrow> byte list \<Rightarrow> 'r app_state
      \<Rightarrow> 'j response res \<times> 'r app_state" where
  "queue_batch_handler X R D queue_name content_type bytes st =
     (case validate_queue_name queue_name of
        Inl e \<Rightarrow> (Inr (text_response 400 e), st)
      | Inr _ \<Rightarrow>
          (case batch_items D content_type bytes of
             Inl e \<Rightarrow> (Inr (text_response 400 e), st)
           | Inr (Inl p) \<Rightarrow> (Inl p, st)
           | Inr (Inr items) \<Rightarrow>
               unit_write R 200 404 (Req_EnqueueBatch queue_name items)
                 (queue_batch X queue_name items) st))"

text \<open>How a payload becomes a document again, for each of the two response formats.\<close>

definition or_else :: "string + 'a \<Rightarrow> string + 'a \<Rightarrow> string + 'a" where
  "or_else a b = (case a of Inr x \<Rightarrow> Inr x | Inl _ \<Rightarrow> b)"

definition unwrap_or :: "'a \<Rightarrow> string + 'a \<Rightarrow> 'a" where
  "unwrap_or d r = (case r of Inr x \<Rightarrow> x | Inl _ \<Rightarrow> d)"

definition value_for_msgpack :: "'j values \<Rightarrow> byte list \<Rightarrow> 'j" where
  "value_for_msgpack D data =
     (if (case data of [] \<Rightarrow> False | b # _ \<Rightarrow> b = 123 \<or> b = 91)
      then unwrap_or (json_null D) (json_value D data)
      else unwrap_or (json_null D) (msgpack_value D data))"

definition value_for_json :: "'j values \<Rightarrow> byte list \<Rightarrow> 'j" where
  "value_for_json D data = unwrap_or (json_null D) (or_else (json_value D data) (msgpack_value D data))"

definition batch_response ::
    "'j values \<Rightarrow> string option \<Rightarrow> in_flight_task list \<Rightarrow> 'j response res" where
  "batch_response D accept tasks =
     (if media_type accept = ''application/msgpack''
      then (case unwrap ''called Result::unwrap() on an Err value''
               (msgpack_items D (map (\<lambda>t. (task_id t, value_for_msgpack D (task_data t))) tasks)) of
              Inl p \<Rightarrow> Inl p
            | Inr bytes \<Rightarrow>
                Inr \<lparr>status = 200, headers = [(''content-type'', ''application/msgpack'')], body = Raw bytes\<rparr>)
      else Inr \<lparr>status = 200, headers = [],
                body = Items (map (\<lambda>t. (task_id t, value_for_json D (task_data t))) tasks)\<rparr>)"

definition dequeue_batch_handler ::
    "codec \<Rightarrow> 'r raft_api \<Rightarrow> 'j values \<Rightarrow> string \<Rightarrow> u64 option \<Rightarrow> string option \<Rightarrow> 'r app_state
      \<Rightarrow> 'j response res \<times> 'r app_state" where
  "dequeue_batch_handler X R D queue_name count_param accept st =
     (case validate_queue_name queue_name of
        Inl e \<Rightarrow> (Inr (text_response 400 e), st)
      | Inr _ \<Rightarrow>
          let cnt = (case count_param of None \<Rightarrow> 10 | Some n \<Rightarrow> n) in
          (case raft st of
             Some r \<Rightarrow>
               (case replicated R (Req_DequeueBatch queue_name cnt) r st of
                  (w, st') \<Rightarrow>
                    ((case w of
                        Written (Resp_Tasks tasks) \<Rightarrow> batch_response D accept tasks
                      | Written (Resp_Err e) \<Rightarrow> Inr (text_response 404 e)
                      | Written _ \<Rightarrow> Inr (text_response 404 ''Invalid response type'')
                      | Forward_to_leader l \<Rightarrow> Inr (not_leader l)
                      | Write_failed e \<Rightarrow> Inr (text_response 500 e)), st'))
           | None \<Rightarrow>
               (case standalone (dequeue_batch X queue_name cnt) st of
                  (x, st') \<Rightarrow>
                    ((case x of
                        Inr tasks \<Rightarrow> batch_response D accept tasks
                      | Inl (Err e) \<Rightarrow> Inr (text_response 404 e)
                      | Inl (Panic p) \<Rightarrow> Inl (Panic p)), st'))))"

definition ack_batch_handler ::
    "codec \<Rightarrow> 'r raft_api \<Rightarrow> string list \<Rightarrow> 'r app_state \<Rightarrow> 'j response res \<times> 'r app_state" where
  "ack_batch_handler X R task_ids st = unit_write R 200 404 (Req_AckBatch task_ids) (ack_batch X task_ids) st"

section \<open>Consensus endpoints\<close>

text \<open>
  The handlers \<^verbatim>\<open>raft_vote\<close>, \<^verbatim>\<open>raft_append\<close>, \<^verbatim>\<open>raft_snapshot\<close>,
  \<^verbatim>\<open>raft_init\<close>, \<^verbatim>\<open>raft_add_learner\<close> and \<^verbatim>\<open>raft_change_membership\<close> differ in
  the call, in the error's prefix, and in whether the result is sent back.
\<close>

fun rpc_prefix :: "raft_rpc \<Rightarrow> string" where
  "rpc_prefix (Vote _) = ''Raft vote error: ''"
| "rpc_prefix (Append_entries _) = ''Raft append error: ''"
| "rpc_prefix (Install_snapshot _) = ''Raft snapshot error: ''"
| "rpc_prefix (Initialize _) = ''Raft init error: ''"
| "rpc_prefix (Add_learner _) = ''Raft add learner error: ''"
| "rpc_prefix (Change_membership _) = ''Raft change membership error: ''"

fun rpc_reply :: "raft_rpc \<Rightarrow> string \<Rightarrow> 'j response" where
  "rpc_reply (Initialize _) res = only_status 200"
| "rpc_reply _ res = \<lparr>status = 200, headers = [], body = Json_text res\<rparr>"

definition raft_endpoint :: "'r raft_api \<Rightarrow> raft_rpc \<Rightarrow> 'r app_state \<Rightarrow> 'j response res \<times> 'r app_state" where
  "raft_endpoint R call st =
     (case raft st of
        None \<Rightarrow> (Inr (text_response 503 ''Raft not initialized''), st)
      | Some r \<Rightarrow>
          (case rpc R call r (app_storage st) of
             (x, r', s) \<Rightarrow>
               (Inr (case x of
                       Inr res \<Rightarrow> rpc_reply call res
                     | Inl e \<Rightarrow> text_response 500 (rpc_prefix call @ e)),
                st\<lparr>raft := Some r', app_storage := s\<rparr>)))"

definition raft_metrics :: "'r raft_api \<Rightarrow> 'r app_state \<Rightarrow> 'j response res \<times> 'r app_state" where
  "raft_metrics R st =
     (case raft st of
        None \<Rightarrow> (Inr (text_response 503 ''Raft not initialized''), st)
      | Some r \<Rightarrow> (Inr \<lparr>status = 200, headers = [], body = Json_text (metrics R r)\<rparr>, st))"

section \<open>Routes\<close>

datatype endpoint =
    Hello
  | Health_check
  | Queues
  | Tasks string
  | Tasks_batch string
  | Ack_batch_of string
  | Ack_of string string
  | Nack_of string string
  | Heartbeat_of string string
  | Stats
  | Raft_rpc "byte list \<Rightarrow> raft_rpc"
  | Raft_metrics

definition raft_route :: "string \<Rightarrow> endpoint option" where
  "raft_route name =
     (if name = ''vote'' then Some (Raft_rpc Vote)
      else if name = ''append'' then Some (Raft_rpc Append_entries)
      else if name = ''snapshot'' then Some (Raft_rpc Install_snapshot)
      else if name = ''init'' then Some (Raft_rpc Initialize)
      else if name = ''add-learner'' then Some (Raft_rpc Add_learner)
      else if name = ''change-membership'' then Some (Raft_rpc Change_membership)
      else if name = ''metrics'' then Some Raft_metrics
      else None)"

text \<open>
  The routes, on the segments of the path. A parameter does not match an empty segment, and a
  literal segment goes before a parameter.
\<close>

definition find_route :: "string list \<Rightarrow> endpoint option" where
  "find_route segments = (case segments of
       [] \<Rightarrow> Some Hello
     | [a] \<Rightarrow>
         if a = ''health'' then Some Health_check
         else if a = ''queues'' then Some Queues
         else if a = ''stats'' then Some Stats
         else None
     | [a, b] \<Rightarrow> if a = ''raft'' then raft_route b else None
     | [a, q, b] \<Rightarrow> if a = ''queues'' \<and> q \<noteq> [] \<and> b = ''tasks'' then Some (Tasks q) else None
     | [a, q, b, c] \<Rightarrow>
         if a = ''queues'' \<and> q \<noteq> [] \<and> b = ''tasks'' \<and> c = ''batch'' then Some (Tasks_batch q) else None
     | [a, q, b, t, c] \<Rightarrow>
         if a \<noteq> ''queues'' \<or> q = [] \<or> b \<noteq> ''tasks'' \<or> t = [] then None
         else if t = ''ack'' \<and> c = ''batch'' then Some (Ack_batch_of q)
         else if c = ''ack'' then Some (Ack_of q t)
         else if c = ''nack'' then Some (Nack_of q t)
         else if c = ''heartbeat'' then Some (Heartbeat_of q t)
         else None
     | _ \<Rightarrow> None)"

text \<open>The routes outside the layer that checks the password.\<close>

fun public :: "endpoint \<Rightarrow> bool" where
  "public Hello = True"
| "public Health_check = True"
| "public _ = False"

datatype http_method = GET | HEAD | POST | Other_method

record request =
  req_method :: http_method
  path :: "string list"
  password_header :: "string option"
  content_type_header :: "string option"
  accept_header :: "string option"
  query :: string
  req_body :: "byte list"

text \<open>
  What the program takes from its libraries. An extractor of the web framework either yields the
  value or rejects the request with a status and a text: \<open>extract_queue\<close> and
  \<open>extract_task\<close> decode the parameters of a path, and reject what is not UTF-8.
\<close>

record ('r, 'j) libraries =
  raft_lib :: "'r raft_api"
  value_lib :: "'j values"
  header_ok :: "string \<Rightarrow> bool"
  ct_eq :: "string \<Rightarrow> string \<Rightarrow> bool"
  json_content_type :: "string option \<Rightarrow> bool"
  extract_name :: "byte list \<Rightarrow> (nat \<times> string) + string"
  extract_ids :: "byte list \<Rightarrow> (nat \<times> string) + string list"
  extract_count :: "string \<Rightarrow> (nat \<times> string) + u64 option"
  extract_queue :: "string \<Rightarrow> (nat \<times> string) + string"
  extract_task :: "string \<Rightarrow> string \<Rightarrow> (nat \<times> string) + (string \<times> string)"
  check_rpc :: "raft_rpc \<Rightarrow> (nat \<times> string) + unit"

definition auth_ok :: "(string \<Rightarrow> string \<Rightarrow> bool) \<Rightarrow> string \<Rightarrow> string option \<Rightarrow> bool" where
  "auth_ok ct pw hdr =
     (case hdr of None \<Rightarrow> False | Some h \<Rightarrow> length h = length pw \<and> ct h pw)"

definition single_message_limit :: nat where
  "single_message_limit = 1024 * 1024"

definition batch_message_limit :: nat where
  "batch_message_limit = 10 * 1024 * 1024"

text \<open>The limit of the framework for routes that set none: 2 MB.\<close>

definition default_body_limit :: nat where
  "default_body_limit = 2097152"

definition within_limit ::
    "nat \<Rightarrow> request \<Rightarrow> ('r app_state \<Rightarrow> 'j response res \<times> 'r app_state) \<Rightarrow> 'r app_state
      \<Rightarrow> 'j response res \<times> 'r app_state" where
  "within_limit n req f st =
     (if n < length (req_body req)
      then (Inr (text_response 413 ''Failed to buffer the request body: length limit exceeded''), st)
      else f st)"

text \<open>The extractor of a JSON body first looks at the content type, then reads the body.\<close>

definition json_request ::
    "('r, 'j) libraries \<Rightarrow> request \<Rightarrow> ('r app_state \<Rightarrow> 'j response res \<times> 'r app_state) \<Rightarrow> 'r app_state
      \<Rightarrow> 'j response res \<times> 'r app_state" where
  "json_request L req f st =
     (if json_content_type L (content_type_header req) then within_limit default_body_limit req f st
      else (Inr (text_response 415 ''Expected request with `Content-Type: application/json`''), st))"

definition extracted ::
    "(nat \<times> string) + 'a \<Rightarrow> ('a \<Rightarrow> 'r app_state \<Rightarrow> 'j response res \<times> 'r app_state) \<Rightarrow> 'r app_state
      \<Rightarrow> 'j response res \<times> 'r app_state" where
  "extracted x f st =
     (case x of Inl (n, e) \<Rightarrow> (Inr (text_response n e), st) | Inr a \<Rightarrow> f a st)"

definition dispatch ::
    "codec \<Rightarrow> ('r, 'j) libraries \<Rightarrow> endpoint \<Rightarrow> request \<Rightarrow> 'r app_state \<Rightarrow> 'j response res \<times> 'r app_state" where
  "dispatch X L ep req st =
     (let R = raft_lib L; bad_method = (Inr (only_status 405), st) in
      case ep of
        Hello \<Rightarrow> if req_method req = GET then (Inr (text_response 200 ''Hello, World!''), st) else bad_method
      | Health_check \<Rightarrow> if req_method req = GET then health_check st else bad_method
      | Queues \<Rightarrow>
          if req_method req = POST
          then json_request L req
                 (extracted (extract_name L (req_body req)) (create_queue_handler X R)) st
          else bad_method
      | Tasks q \<Rightarrow>
          (case req_method req of
             POST \<Rightarrow> extracted (extract_queue L q)
                       (\<lambda>n. within_limit single_message_limit req (enqueue X R n (req_body req))) st
           | GET \<Rightarrow> extracted (extract_queue L q) (dequeue_handler X R (header_ok L)) st
           | _ \<Rightarrow> bad_method)
      | Tasks_batch q \<Rightarrow>
          (case req_method req of
             POST \<Rightarrow> extracted (extract_queue L q)
                       (\<lambda>n. within_limit batch_message_limit req
                          (queue_batch_handler X R (value_lib L) n (content_type_header req) (req_body req))) st
           | GET \<Rightarrow> extracted (extract_queue L q)
                      (\<lambda>n. extracted (extract_count L (query req))
                         (\<lambda>c. dequeue_batch_handler X R (value_lib L) n c (accept_header req))) st
           | _ \<Rightarrow> bad_method)
      | Ack_batch_of q \<Rightarrow>
          if req_method req = POST
          then json_request L req
                 (extracted (extract_ids L (req_body req)) (ack_batch_handler X R)) st
          else bad_method
      | Ack_of q t \<Rightarrow>
          if req_method req = POST
          then extracted (extract_task L q t) (\<lambda>(n, i). ack_task X R n i) st
          else bad_method
      | Nack_of q t \<Rightarrow>
          if req_method req = POST
          then extracted (extract_task L q t) (\<lambda>(n, i). nack_task X R n i) st
          else bad_method
      | Heartbeat_of q t \<Rightarrow>
          if req_method req = POST
          then extracted (extract_task L q t) (\<lambda>(n, i). heartbeat_task X R n i) st
          else bad_method
      | Stats \<Rightarrow> if req_method req = GET then get_stats_handler R st else bad_method
      | Raft_rpc f \<Rightarrow>
          if req_method req = POST
          then json_request L req
                 (extracted (check_rpc L (f (req_body req))) (\<lambda>_. raft_endpoint R (f (req_body req)))) st
          else bad_method
      | Raft_metrics \<Rightarrow> if req_method req = GET then raft_metrics R st else bad_method)"

text \<open>The framework answers HEAD with the GET handler of a route, and sends no body.\<close>

definition without_body :: "'j response res \<times> 'r app_state \<Rightarrow> 'j response res \<times> 'r app_state" where
  "without_body x =
     (case x of (Inr r, st) \<Rightarrow> (Inr (r\<lparr>body := No_body\<rparr>), st) | (Inl p, st) \<Rightarrow> (Inl p, st))"

text \<open>
  A path without a route goes to the fallback, which the layer that checks the password wraps too.
\<close>

definition handle_request ::
    "codec \<Rightarrow> ('r, 'j) libraries \<Rightarrow> request \<Rightarrow> 'r app_state \<Rightarrow> 'j response res \<times> 'r app_state" where
  "handle_request X L req st =
     (case find_route (path req) of
        None \<Rightarrow>
          (Inr (only_status (if auth_ok (ct_eq L) (password st) (password_header req) then 404 else 401)), st)
      | Some ep \<Rightarrow>
          if public ep \<or> auth_ok (ct_eq L) (password st) (password_header req)
          then (if req_method req = HEAD then without_body (dispatch X L ep (req\<lparr>req_method := GET\<rparr>) st)
                else dispatch X L ep req st)
          else (Inr (only_status 401), st))"

end
