(* ===== verification/Http_Laws.thy ===== *)
theory Http_Laws
  imports Http
begin

text \<open>
  What the HTTP interface guarantees: authentication, queue names, batches that come back as they
  were sent, and where they do not.
\<close>

section \<open>Authentication\<close>

lemma public_routes: "find_route segs = Some ep \<Longrightarrow> public ep \<longleftrightarrow> segs = [] \<or> segs = [''health'']"
  by (auto simp: find_route_def raft_route_def split: list.splits if_splits)

text \<open>
  C21: without the password nothing happens. A request whose password header is missing or differs
  from the configured password gets 401 on every path but \<^verbatim>\<open>/\<close> and
  \<^verbatim>\<open>/health\<close>, those without a route included, whatever its method and body, and leaves
  the storage, the replicated log and the configuration untouched. The only assumption is that the
  comparison of equally long byte strings is equality.
\<close>

theorem password_required:
  assumes "\<And>a b. length a = length b \<Longrightarrow> ct_eq L a b \<longleftrightarrow> a = b"
    and "password_header req \<noteq> Some (password st)"
    and "path req \<noteq> []" and "path req \<noteq> [''health'']"
  shows "handle_request X L req st = (Inr (only_status 401), st)"
proof -
  have no: "\<not> auth_ok (ct_eq L) (password st) (password_header req)"
    using assms(1,2) by (auto simp: auth_ok_def split: option.splits)
  have "\<not> public ep" if "find_route (path req) = Some ep" for ep
    using public_routes [OF that] assms(3,4) by simp
  with no show ?thesis by (auto simp: handle_request_def split: option.split)
qed

text \<open>
  The public routes change nothing. Requests to \<^verbatim>\<open>/\<close> and \<^verbatim>\<open>/health\<close>, with
  or without a password, leave the application as it is, and a GET of the health check reports a
  healthy service.
\<close>

lemma public_routes_read_only:
  assumes "path req = [] \<or> path req = [''health'']"
  shows "snd (handle_request X L req st) = st \<and>
    (path req = [''health''] \<and> req_method req = GET \<longrightarrow>
       handle_request X L req st = (Inr \<lparr>status = 200, headers = [], body = Health None\<rparr>, st))"
  using assms
  by (auto simp: handle_request_def find_route_def dispatch_def Let_def health_check_def get_stats_def
      without_body_def)

section \<open>Queue names\<close>

text \<open>
  C40: the queue names accepted are those of 1 to 128 letters, digits, underscores and hyphens. For
  a name accepted, the name of its dead-letter queue is accepted too exactly when the name has at
  most 124 characters: the dead-letter queue of a longer name is refused by every handler that
  takes a queue name.
\<close>

theorem queue_names:
  "(validate_queue_name name = Inr () \<longleftrightarrow>
      1 \<le> length name \<and> length name \<le> 128 \<and> list_all name_char name) \<and>
   (validate_queue_name (dlq_name name) = Inr () \<longleftrightarrow>
      length name \<le> 124 \<and> list_all name_char name)"
  by (auto simp: validate_queue_name_def max_queue_name_length_def dlq_name_def list_all_iff Suc_le_eq
      name_char_def code_def)

section \<open>Batches come back\<close>

text \<open>A batch of payloads queued on an empty queue and read back in one batch.\<close>

lemma batch_through_queue:
  assumes "raft st = None" and "wal (app_storage st) = None"
    and "validate_queue_name q = Inr ()" and "fmlookup (queues (app_storage st)) q = Some []"
    and "batch_items D ct bytes = Inr (Inr items)"
    and "length items \<le> unat n" and "unat n < 2 ^ 58"
  shows "\<exists>st1 st2 tasks. queue_batch_handler X R D q ct bytes st = (Inr (only_status 200), st1) \<and>
    dequeue_batch_handler X R D q (Some n) acc st1 = (batch_response D acc tasks, st2) \<and>
    map task_data tasks = items \<and> map task_id tasks = stake (length items) (uuids (app_storage st))"
proof -
  let ?s = "app_storage st"
  let ?s1 = "?s\<lparr>queues := fmupd q (map fresh_item items) (queues ?s)\<rparr>"
  have step: "wal_step X a (wal ?s) (clock ?s) = (Inr (), None, clock ?s)" for a
    using assms(2) by simp
  have enq: "queue_batch X q items ?s = (Inr (), ?s1)"
    using queue_batch_logged [OF assms(4) step, of items] assms(2) by simp
  let ?ts = "tasks_of q (zip (stake (length items) (uuids ?s)) (map fresh_item items)) (clock ?s)"
  have q: "fmlookup (queues ?s1) q = Some (map fresh_item items)" by simp
  have "dequeues X q (unat n) ?s1 = (?ts, snd (dequeues X q (unat n) ?s1))"
    using dequeues_eq [OF _ q, of X "unat n"] assms(2,6) by (simp add: Let_def min_absorb1)
  then obtain s2 where deq: "dequeue_batch X q n ?s1 = (Inr ?ts, s2)"
    using dequeue_batch_iterates [of ?s1 q n X] assms(2,7) q by (auto simp: fmdom_lookup split: prod.splits)
  have "map item_data (map fresh_item items) = items" by (simp add: fresh_item_def comp_def)
  then have "map task_data ?ts = items" "map task_id ?ts = stake (length items) (uuids ?s)"
    by (simp_all only: tasks_of_data tasks_of_ids map_map [symmetric] map_snd_zip map_fst_zip
        length_map length_stake)
  moreover have "queue_batch_handler X R D q ct bytes st = (Inr (only_status 200), st\<lparr>app_storage := ?s1\<rparr>)"
    using assms(1,3,5) enq
    by (simp add: queue_batch_handler_def unit_write_def standalone_def unit_result_def)
  moreover have "dequeue_batch_handler X R D q (Some n) acc (st\<lparr>app_storage := ?s1\<rparr>) =
      (batch_response D acc ?ts, st\<lparr>app_storage := s2\<rparr>)"
    using assms(1,3) deq by (simp add: dequeue_batch_handler_def standalone_def)
  ultimately show ?thesis by blast
qed


text \<open>
  C38: some MessagePack batches come back as null. When the encoding of a document starts with the
  byte of an opening brace or bracket (as MessagePack encodes the integers 123 and 91 in one byte)
  and is not itself a JSON text, posting it in a MessagePack batch and fetching it in one answers
  with null in its place.
\<close>

theorem msgpack_value_lost:
  assumes "raft st = None" and "wal (app_storage st) = None"
    and "validate_queue_name q = Inr ()" and "fmlookup (queues (app_storage st)) q = Some []"
    and "media_type ct = ''application/msgpack''" and "media_type acc = ''application/msgpack''"
    and "msgpack_list D bytes = Inr [v]" and "msgpack_bytes D v = Inr (b # bs)"
    and "b = 123 \<or> b = 91" and "json_value D (b # bs) = Inl e"
    and "msgpack_items D [(shd (uuids (app_storage st)), json_null D)] = Inr out"
  shows "\<exists>st1 st2. queue_batch_handler X R D q ct bytes st = (Inr (only_status 200), st1) \<and>
    dequeue_batch_handler X R D q (Some 1) acc st1 =
      (Inr \<lparr>status = 200, headers = [(''content-type'', ''application/msgpack'')], body = Raw out\<rparr>, st2)"
proof -
  have items: "batch_items D ct bytes = Inr (Inr [b # bs])"
    using assms(5,7,8) by (simp add: batch_items_def)
  obtain st1 st2 tasks where h: "queue_batch_handler X R D q ct bytes st = (Inr (only_status 200), st1)"
    "dequeue_batch_handler X R D q (Some 1) acc st1 = (batch_response D acc tasks, st2)"
    "map task_data tasks = [b # bs]" "map task_id tasks = stake (length [b # bs]) (uuids (app_storage st))"
    using batch_through_queue [OF assms(1-4) items, of 1 X R acc] by auto
  then obtain t where "tasks = [t]" "task_data t = b # bs" "task_id t = shd (uuids (app_storage st))"
    by (auto simp: map_eq_Cons_conv)
  then have "batch_response D acc tasks =
      Inr \<lparr>status = 200, headers = [(''content-type'', ''application/msgpack'')], body = Raw out\<rparr>"
    using assms(6,9,10,11) by (simp add: batch_response_def value_for_msgpack_def unwrap_or_def)
  with h(1,2) show ?thesis by metis
qed

section \<open>Instances\<close>

text \<open>Documents that are numbers or null, written in unary for JSON and as one byte for MessagePack.\<close>

definition number_values :: "nat option values" where
  "number_values = \<lparr>
     json_list = (\<lambda>bs. Inr (map (\<lambda>b. Some (unat b)) bs)),
     msgpack_list = (\<lambda>bs. Inr (map (\<lambda>b. Some (unat b)) bs)),
     json_bytes = (\<lambda>v. Inr (replicate (to_nat v) 0)),
     msgpack_bytes = (\<lambda>v. case v of None \<Rightarrow> Inr [192] | Some n \<Rightarrow> Inr [of_nat n]),
     json_value = (\<lambda>b. if set b \<subseteq> {0} then Inr (from_nat (length b)) else Inl ''expected value''),
     msgpack_value = (\<lambda>b. case b of [] \<Rightarrow> Inl ''end of input'' | x # _ \<Rightarrow> Inr (Some (unat x))),
     json_null = None,
     msgpack_items = (\<lambda>vs. Inr (replicate (length vs) 192))\<rparr>"

text \<open>
  A consensus library that commits every command at once and applies it to the storage; only the
  instances use it.
\<close>

definition direct_raft :: "codec \<Rightarrow> unit raft_api" where
  "direct_raft X = \<lparr>
     client_write = (\<lambda>req r s. case apply_request X req s of
                        (Inr resp, s') \<Rightarrow> (Written resp, r, s')
                      | (Inl _, s') \<Rightarrow> (Write_failed ''raft stopped'', r, s')),
     ensure_linearizable = (\<lambda>r s. (Is_leader, r, s)),
     rpc = (\<lambda>call r s. (Inl ''unavailable'', r, s)),
     metrics = (\<lambda>_. []),
     is_leader = (\<lambda>_. True)\<rparr>"

definition plain_libraries :: "(unit, nat option) libraries" where
  "plain_libraries = \<lparr>raft_lib = direct_raft unary_codec, value_lib = number_values, header_ok = (\<lambda>_. True),
     ct_eq = (=), json_content_type = (\<lambda>t. t = Some ''application/json''),
     extract_name = (\<lambda>b. Inr (map (\<lambda>x. char_of (unat x)) b)), extract_ids = (\<lambda>_. Inr []),
     extract_count = (\<lambda>_. Inr None), extract_queue = Inr, extract_task = (\<lambda>q t. Inr (q, t)), check_rpc = (\<lambda>_. Inr ())\<rparr>"

definition plain_app :: "(string, queue_item list) fmap \<Rightarrow> unit app_state" where
  "plain_app qs = \<lparr>app_storage = (new_storage numbered (sconst 0))\<lparr>queues := qs\<rparr>, password = ''secret'',
     raft = None, heartbeat_duration = 60\<rparr>"

definition get_from :: "string list \<Rightarrow> string option \<Rightarrow> request" where
  "get_from p pw = \<lparr>req_method = GET, path = p, password_header = pw, content_type_header = None,
     accept_header = None, query = [], req_body = []\<rparr>"

lemma name_q: "validate_queue_name ''q'' = Inr ()"
  by (simp add: validate_queue_name_def max_queue_name_length_def name_char_def code_def)

theorem password_required_witness:
  "handle_request unary_codec plain_libraries (get_from [''queues'', ''q'', ''tasks''] (Some ''guess!''))
      (plain_app fmempty) = (Inr (only_status 401), plain_app fmempty)"
  using password_required [of plain_libraries "get_from [''queues'', ''q'', ''tasks''] (Some ''guess!'')"
      "plain_app fmempty" unary_codec]
  by (simp add: plain_libraries_def plain_app_def get_from_def find_route_def)

lemma public_routes_read_only_witness:
  "handle_request unary_codec plain_libraries (get_from [''health''] None) (plain_app fmempty) =
     (Inr \<lparr>status = 200, headers = [], body = Health None\<rparr>, plain_app fmempty)"
  using public_routes_read_only [of "get_from [''health''] None" unary_codec plain_libraries "plain_app fmempty"]
  by (simp add: get_from_def)


theorem msgpack_value_lost_witness:
  "\<exists>st1 st2. queue_batch_handler unary_codec (direct_raft unary_codec) number_values ''q''
      (Some ''application/msgpack'') [123] (plain_app (fmupd ''q'' [] fmempty)) = (Inr (only_status 200), st1) \<and>
    dequeue_batch_handler unary_codec (direct_raft unary_codec) number_values ''q'' (Some 1)
      (Some ''application/msgpack'') st1 =
      (Inr \<lparr>status = 200, headers = [(''content-type'', ''application/msgpack'')], body = Raw [192]\<rparr>, st2)"
  using msgpack_value_lost [of "plain_app (fmupd ''q'' [] fmempty)" "''q''" "Some ''application/msgpack''"
      "Some ''application/msgpack''" number_values "[123]" "Some 123" 123 "[]" "''expected value''" "[192]"
      unary_codec "direct_raft unary_codec"]
  by (simp add: plain_app_def new_storage_def name_q media_type_def number_values_def unat_numeral)

end
