(* ===== verification/Server.thy ===== *)
theory Server
  imports Http_Laws
begin

text \<open>
  The running server: the background cleanup of \<^verbatim>\<open>app\<close> in \<^verbatim>\<open>src/lib.rs\<close> as a
  loop with its own state, interleaved with the requests the router answers, until it is cancelled.
  The steps are a relation, so that ticks, requests and cancellation come in any order.
\<close>

section \<open>The cleanup loop\<close>

text \<open>
  One tick. In a cluster the leader proposes a rejection of each expired task, and a failure is
  only logged; a standalone server cleans up its storage itself.
\<close>

definition propose_nack :: "'r raft_api \<Rightarrow> 'r app_state \<Rightarrow> string \<Rightarrow> 'r app_state" where
  "propose_nack R st i =
     (case raft st of None \<Rightarrow> st | Some r \<Rightarrow> snd (replicated R (Req_Nack i) r st))"

definition cleanup_tick ::
    "codec \<Rightarrow> 'r raft_api \<Rightarrow> key_order \<Rightarrow> u64 \<Rightarrow> 'r app_state \<Rightarrow> unit res \<times> 'r app_state" where
  "cleanup_tick X R K timeout st =
     (case raft st of
        Some r \<Rightarrow>
          if is_leader R r
          then (case standalone (scan_expired_tasks K timeout) st of
                  (Inl p, st') \<Rightarrow> (Inl p, st')
                | (Inr ids, st') \<Rightarrow> (Inr (), foldl (propose_nack R) st' ids))
          else (Inr (), st)
      | None \<Rightarrow>
          (case standalone (cleanup_expired_tasks X K timeout) st of
             (Inl (Panic p), st') \<Rightarrow> (Inl (Panic p), st')
           | (_, st') \<Rightarrow> (Inr (), st')))"

text \<open>The loop runs until it is cancelled; a panic in a tick ends its task.\<close>

datatype loop_state = Running | Finished | Died

record 'r server =
  app :: "'r app_state"
  cleanup_loop :: loop_state
  cancelled :: bool

text \<open>\<^verbatim>\<open>tokio::time::interval\<close> panics when its period is zero.\<close>

definition start :: "u64 \<Rightarrow> 'r app_state \<Rightarrow> 'r server" where
  "start cleanup_interval st =
     \<lparr>app = st, cleanup_loop = (if cleanup_interval = 0 then Died else Running), cancelled = False\<rparr>"

datatype event = Request request | Tick | Cancel | Observe_cancel

inductive server_step ::
    "codec \<Rightarrow> ('r, 'j) libraries \<Rightarrow> key_order \<Rightarrow> u64 \<Rightarrow> 'r server \<Rightarrow> event \<Rightarrow> 'r server \<Rightarrow> bool"
  for X L K timeout where
  serve: "handle_request X L req (app v) = (resp, st) \<Longrightarrow>
    server_step X L K timeout v (Request req) (v\<lparr>app := st\<rparr>)"
| tick: "cleanup_loop v = Running \<Longrightarrow> cleanup_tick X (raft_lib L) K timeout (app v) = (Inr (), st) \<Longrightarrow>
    server_step X L K timeout v Tick (v\<lparr>app := st\<rparr>)"
| tick_panics: "cleanup_loop v = Running \<Longrightarrow>
    cleanup_tick X (raft_lib L) K timeout (app v) = (Inl p, st) \<Longrightarrow>
    server_step X L K timeout v Tick (v\<lparr>app := st, cleanup_loop := Died\<rparr>)"
| cancel: "server_step X L K timeout v Cancel (v\<lparr>cancelled := True\<rparr>)"
| observe: "cleanup_loop v = Running \<Longrightarrow> cancelled v \<Longrightarrow>
    server_step X L K timeout v Observe_cancel (v\<lparr>cleanup_loop := Finished\<rparr>)"

inductive_cases request_stepE: "server_step X L K timeout v (Request req) v'"
inductive_cases tick_stepE: "server_step X L K timeout v Tick v'"
inductive_simps server_step_iff:
  "server_step X L K timeout v (Request req) v'" "server_step X L K timeout v Tick v'"
  "server_step X L K timeout v Cancel v'" "server_step X L K timeout v Observe_cancel v'"

text \<open>The servers a start can lead to.\<close>

inductive reaches ::
    "codec \<Rightarrow> ('r, 'j) libraries \<Rightarrow> key_order \<Rightarrow> u64 \<Rightarrow> 'r server \<Rightarrow> event list \<Rightarrow> 'r server \<Rightarrow> bool"
  for X L K timeout v0 where
  here: "reaches X L K timeout v0 [] v0"
| further: "reaches X L K timeout v0 es v \<Longrightarrow> server_step X L K timeout v e v' \<Longrightarrow>
    reaches X L K timeout v0 (es @ [e]) v'"

section \<open>The storage calls a request makes\<close>

text \<open>
  The contract of the HTTP layer of a standalone server: the calls of the storage a request makes,
  at most one, depending on its route, method, password, body and queue name, never on the storage.
\<close>

definition if_valid :: "string \<Rightarrow> call \<Rightarrow> call list" where
  "if_valid name c = (if validate_queue_name name = Inr () then [c] else [])"

definition if_within :: "nat \<Rightarrow> request \<Rightarrow> call list \<Rightarrow> call list" where
  "if_within n req cs = (if n < length (req_body req) then [] else cs)"

definition if_json :: "('r, 'j) libraries \<Rightarrow> request \<Rightarrow> call list \<Rightarrow> call list" where
  "if_json L req cs =
     (if json_content_type L (content_type_header req) then if_within default_body_limit req cs else [])"

definition batch_calls :: "string + byte list list res \<Rightarrow> string \<Rightarrow> call list" where
  "batch_calls items q = (case items of Inr (Inr ds) \<Rightarrow> if_valid q (Queue_batch q ds) | _ \<Rightarrow> [])"

fun endpoint_calls :: "('r, 'j) libraries \<Rightarrow> u64 \<Rightarrow> endpoint \<Rightarrow> request \<Rightarrow> call list" where
  "endpoint_calls L hb Queues req =
     (if req_method req = POST then if_json L req
        (case extract_name L (req_body req) of Inl _ \<Rightarrow> [] | Inr n \<Rightarrow> if_valid n (Create_queue n)) else [])"
| "endpoint_calls L hb (Tasks q) req =
     (case req_method req of
        POST \<Rightarrow>
          (case extract_queue L q of
             Inl _ \<Rightarrow> []
           | Inr n \<Rightarrow> if_within single_message_limit req (if_valid n (Queue n (req_body req))))
      | GET \<Rightarrow> (case extract_queue L q of Inl _ \<Rightarrow> [] | Inr n \<Rightarrow> if_valid n (Dequeue_one n))
      | _ \<Rightarrow> [])"
| "endpoint_calls L hb (Tasks_batch q) req =
     (case req_method req of
        POST \<Rightarrow>
          (case extract_queue L q of
             Inl _ \<Rightarrow> []
           | Inr n \<Rightarrow> if_within batch_message_limit req
               (batch_calls (batch_items (value_lib L) (content_type_header req) (req_body req)) n))
      | GET \<Rightarrow>
          (case extract_queue L q of
             Inl _ \<Rightarrow> []
           | Inr n \<Rightarrow>
               (case extract_count L (query req) of
                  Inl _ \<Rightarrow> []
                | Inr c \<Rightarrow> if_valid n (Dequeue_batch n (case c of None \<Rightarrow> 10 | Some k \<Rightarrow> k))))
      | _ \<Rightarrow> [])"
| "endpoint_calls L hb (Ack_batch_of q) req =
     (if req_method req = POST then if_json L req
        (case extract_ids L (req_body req) of Inl _ \<Rightarrow> [] | Inr ids \<Rightarrow> [Ack_batch ids]) else [])"
| "endpoint_calls L hb (Ack_of q t) req =
     (if req_method req = POST
      then (case extract_task L q t of Inl _ \<Rightarrow> [] | Inr x \<Rightarrow> [Ack_one (snd x)]) else [])"
| "endpoint_calls L hb (Nack_of q t) req =
     (if req_method req = POST
      then (case extract_task L q t of Inl _ \<Rightarrow> [] | Inr x \<Rightarrow> [Nack_one (snd x)]) else [])"
| "endpoint_calls L hb (Heartbeat_of q t) req =
     (if req_method req = POST
      then (case extract_task L q t of Inl _ \<Rightarrow> [] | Inr x \<Rightarrow> [Extend_visibility (snd x) hb]) else [])"
| "endpoint_calls L hb ep req = []"

definition request_calls :: "('r, 'j) libraries \<Rightarrow> string \<Rightarrow> u64 \<Rightarrow> request \<Rightarrow> call list" where
  "request_calls L pw hb req =
     (case find_route (path req) of
        None \<Rightarrow> []
      | Some ep \<Rightarrow>
          if public ep \<or> auth_ok (ct_eq L) pw (password_header req)
          then endpoint_calls L hb ep (if req_method req = HEAD then req\<lparr>req_method := GET\<rparr> else req)
          else [])"

text \<open>\<open>x\<close> is the outcome of handling something in \<open>st\<close> with exactly the calls \<open>cs\<close>.\<close>

definition makes_calls ::
    "codec \<Rightarrow> key_order \<Rightarrow> 'r app_state \<Rightarrow> 'r app_state \<Rightarrow> call list \<Rightarrow> bool" where
  "makes_calls X K st st' cs \<longleftrightarrow>
     raft st = None \<and> st' = st\<lparr>app_storage := run (after X K) cs (app_storage st)\<rparr>"

lemma makes_none [simp]: "raft st = None \<Longrightarrow> makes_calls X K st st []"
  by (simp add: makes_calls_def)

lemma makes_trans:
  "makes_calls X K st st' cs \<Longrightarrow> makes_calls X K st' st'' ds \<Longrightarrow> makes_calls X K st st'' (cs @ ds)"
  by (simp add: makes_calls_def run_append)

lemma standalone_calls:
  assumes "raft st = None" and "snd (f (app_storage st)) = after X K c (app_storage st)"
    and "standalone f st = (x, st')"
  shows "makes_calls X K st st' [c]"
  using assms by (auto simp: standalone_def makes_calls_def split: prod.splits)

lemma unit_write_calls:
  assumes "raft st = None" and "snd (f (app_storage st)) = after X K c (app_storage st)"
  shows "makes_calls X K st (snd (unit_write R good bad req f st)) [c]"
  using assms by (auto simp: unit_write_def split: prod.split intro: standalone_calls)

lemma handler_calls:
  assumes "raft st = None"
  shows "makes_calls X K st (snd (create_queue_handler X R q st)) (if_valid q (Create_queue q))"
    and "makes_calls X K st (snd (enqueue X R q d st)) (if_valid q (Queue q d))"
    and "makes_calls X K st (snd (dequeue_handler X R hv q st)) (if_valid q (Dequeue_one q))"
    and "makes_calls X K st (snd (ack_task X R q t st)) [Ack_one t]"
    and "makes_calls X K st (snd (nack_task X R q t st)) [Nack_one t]"
    and "makes_calls X K st (snd (heartbeat_task X R q t st)) [Extend_visibility t (heartbeat_duration st)]"
    and "makes_calls X K st (snd (queue_batch_handler X R D q ct b st))
      (batch_calls (batch_items D ct b) q)"
    and "makes_calls X K st (snd (dequeue_batch_handler X R D q n acc st))
      (if_valid q (Dequeue_batch q (case n of None \<Rightarrow> 10 | Some k \<Rightarrow> k)))"
    and "makes_calls X K st (snd (ack_batch_handler X R ids st)) [Ack_batch ids]"
proof -
  note none = makes_none [OF assms] and one = unit_write_calls [OF assms]
  show "makes_calls X K st (snd (create_queue_handler X R q st)) (if_valid q (Create_queue q))"
    by (auto simp: create_queue_handler_def if_valid_def none split: sum.split intro: one)
  show "makes_calls X K st (snd (enqueue X R q d st)) (if_valid q (Queue q d))"
    by (auto simp: enqueue_def if_valid_def none split: sum.split intro: one)
  show "makes_calls X K st (snd (dequeue_handler X R hv q st)) (if_valid q (Dequeue_one q))"
    using assms by (auto simp: dequeue_handler_def if_valid_def none
        split: sum.split prod.split fault.split option.split intro: standalone_calls)
  show "makes_calls X K st (snd (ack_task X R q t st)) [Ack_one t]"
    by (auto simp: ack_task_def intro: one)
  show "makes_calls X K st (snd (nack_task X R q t st)) [Nack_one t]"
    by (auto simp: nack_task_def intro: one)
  show "makes_calls X K st (snd (heartbeat_task X R q t st)) [Extend_visibility t (heartbeat_duration st)]"
    by (auto simp: heartbeat_task_def intro: one)
  show "makes_calls X K st (snd (queue_batch_handler X R D q ct b st))
      (batch_calls (batch_items D ct b) q)"
    by (auto simp: queue_batch_handler_def batch_calls_def if_valid_def none split: sum.split intro: one)
  show "makes_calls X K st (snd (dequeue_batch_handler X R D q n acc st))
      (if_valid q (Dequeue_batch q (case n of None \<Rightarrow> 10 | Some k \<Rightarrow> k)))"
    using assms by (auto simp: dequeue_batch_handler_def Let_def if_valid_def none
        split: sum.split prod.split option.split intro: standalone_calls)
  show "makes_calls X K st (snd (ack_batch_handler X R ids st)) [Ack_batch ids]"
    by (auto simp: ack_batch_handler_def intro: one)
qed

lemma within_limit_calls:
  "raft st = None \<Longrightarrow> makes_calls X K st (snd (f st)) cs \<Longrightarrow>
     makes_calls X K st (snd (within_limit n req f st)) (if_within n req cs)"
  by (simp add: within_limit_def if_within_def)

lemma extracted_calls:
  "raft st = None \<Longrightarrow> (\<And>a. makes_calls X K st (snd (f a st)) (g a)) \<Longrightarrow>
     makes_calls X K st (snd (extracted x f st)) (case x of Inl _ \<Rightarrow> [] | Inr a \<Rightarrow> g a)"
  by (auto simp: extracted_def split: sum.split)

lemma dispatch_calls:
  assumes "raft st = None"
  shows "makes_calls X K st (snd (dispatch X L ep req st)) (endpoint_calls L (heartbeat_duration st) ep req)"
  using makes_none [OF assms] assms
  by (cases ep; cases "req_method req")
    (auto simp: dispatch_def Let_def get_stats_handler_def health_check_def get_stats_def raft_endpoint_def
      raft_metrics_def extracted_def json_request_def within_limit_def if_json_def if_within_def
      intro!: handler_calls split: sum.split)

lemma without_body_snd [simp]: "snd (without_body x) = snd x"
  by (cases x) (auto simp: without_body_def split: sum.split)

lemma handle_request_calls:
  assumes "raft st = None"
  shows "makes_calls X K st (snd (handle_request X L req st))
    (request_calls L (password st) (heartbeat_duration st) req)"
  using dispatch_calls [OF assms] makes_none [OF assms]
  by (auto simp: handle_request_def request_calls_def split: option.split)

lemma tick_calls:
  assumes "raft st = None"
  shows "makes_calls X K st (snd (cleanup_tick X R K timeout st)) [Cleanup_expired_tasks timeout]"
  using assms by (auto simp: cleanup_tick_def split: prod.split sum.split fault.split
      intro: standalone_calls [where c = "Cleanup_expired_tasks timeout"])

section \<open>A standalone server is a run of storage calls\<close>

fun event_calls :: "('r, 'j) libraries \<Rightarrow> string \<Rightarrow> u64 \<Rightarrow> u64 \<Rightarrow> event \<Rightarrow> call list" where
  "event_calls L pw hb timeout (Request req) = request_calls L pw hb req"
| "event_calls L pw hb timeout Tick = [Cleanup_expired_tasks timeout]"
| "event_calls L pw hb timeout _ = []"

definition server_calls :: "('r, 'j) libraries \<Rightarrow> string \<Rightarrow> u64 \<Rightarrow> u64 \<Rightarrow> event list \<Rightarrow> call list" where
  "server_calls L pw hb timeout es = concat (map (event_calls L pw hb timeout) es)"

lemma step_calls:
  assumes "server_step X L K timeout v e v'" and "raft (app v) = None"
  shows "makes_calls X K (app v) (app v')
    (event_calls L (password (app v)) (heartbeat_duration (app v)) timeout e)"
  using assms
proof (cases rule: server_step.cases)
  case (serve req resp st)
  then show ?thesis using handle_request_calls [OF assms(2), of X K L req] by simp
next
  case (tick st)
  then show ?thesis using tick_calls [OF assms(2), of X K "raft_lib L" timeout] by simp
next
  case (tick_panics p st)
  then show ?thesis using tick_calls [OF assms(2), of X K "raft_lib L" timeout] by simp
qed (use assms(2) in simp_all)

lemma reaches_calls:
  "reaches X L K timeout v0 es v \<Longrightarrow> raft (app v0) = None \<Longrightarrow>
     makes_calls X K (app v0) (app v)
       (server_calls L (password (app v0)) (heartbeat_duration (app v0)) timeout es)"
proof (induction rule: reaches.induct)
  case here
  then show ?case by (simp add: server_calls_def)
next
  case (further es v e v')
  then have IH: "makes_calls X K (app v0) (app v)
      (server_calls L (password (app v0)) (heartbeat_duration (app v0)) timeout es)" by simp
  then have same: "raft (app v) = None" "password (app v) = password (app v0)"
    "heartbeat_duration (app v) = heartbeat_duration (app v0)"
    by (simp_all add: makes_calls_def)
  from makes_trans [OF IH step_calls [OF further.hyps(2) same(1)]] show ?case
    by (simp add: server_calls_def same)
qed

lemma reached_storage:
  assumes "reaches X L K timeout (start interval st) events v" and "raft st = None"
  shows "app_storage (app v) = run (after X K)
    (server_calls L (password st) (heartbeat_duration st) timeout events) (app_storage st)"
  using reaches_calls [OF assms(1)] assms(2) by (simp add: start_def makes_calls_def)

text \<open>
  A standalone server that serves one request at a time can be killed between any two. Start a server on a storage recovered from
  its log, on a disk that does not fail, and let it serve any requests (authorised or not, malformed
  or not), ticks, panics and a shutdown, in any order. Restarting from the log recovers every queue
  and every task in flight as it was.
\<close>

lemma server_recovers:
  assumes "codec_law X" and "log_file X es f"
    and "sset (disk_writes f) \<union> sset (disk_flushes f) \<subseteq> {None}"
    and "new_persistent X f u c = Inr (app_storage st)" and "raft st = None"
    and "reaches X L K timeout (start interval st) events v"
  shows "\<exists>m r. wal (app_storage (app v)) = Some m \<and> new_persistent X (file_after m) u' c' = Inr r \<and>
    view_of r = view_of (app_storage (app v))"
  unfolding reached_storage [OF assms(6,5)]
  by (rule recovered_view [OF assms(1-4)])

text \<open>
  A standalone server loses no message and makes none up. Whatever requests, ticks, panics and
  shutdown come, in whatever order, the messages the server holds together with those the
  acknowledgements among the requests released are those it held at the start and those the
  enqueues among them were answered as accepted.
\<close>

lemma server_conserves_messages:
  assumes "well_formed (app_storage st)" and "raft st = None"
    and "reaches X L K timeout (start interval st) events v"
  shows "messages (app_storage (app v)) +
      total (after X K) (released X K)
        (server_calls L (password st) (heartbeat_duration st) timeout events) (app_storage st) =
    messages (app_storage st) +
      total (after X K) (accepted X K)
        (server_calls L (password st) (heartbeat_duration st) timeout events) (app_storage st)"
  unfolding reached_storage [OF assms(3,2)] by (rule keeps.run_balance [OF assms(1)])

section \<open>When the cleanup stops\<close>

text \<open>Ticks that panic: the queues and the tasks in flight of \<open>st\<close> stay, and the loop ends.\<close>

definition dead :: "'r app_state \<Rightarrow> bool \<Rightarrow> 'r server \<Rightarrow> bool" where
  "dead st over v \<longleftrightarrow>
     raft (app v) = None \<and> password (app v) = password st \<and> heartbeat_duration (app v) = heartbeat_duration st \<and>
     queues (app_storage (app v)) = queues (app_storage st) \<and>
     in_flight (app_storage (app v)) = in_flight (app_storage st) \<and> (over \<longrightarrow> cleanup_loop v \<noteq> Running)"

lemma tick_panic:
  assumes "9223372036854775 < unat timeout" and "unat timeout < 18437520701672696841" and "raft st = None"
  shows "\<exists>p. cleanup_tick X R K timeout st =
    (Inl p, st\<lparr>app_storage := (app_storage st)\<lparr>clock := stl (clock (app_storage st))\<rparr>\<rparr>)"
proof -
  have "duration_seconds timeout = Inl (Panic ''TimeDelta::seconds out of bounds'')"
    using assms(1,2) by (simp add: duration_range)
  then show ?thesis
    using assms(3)
    by (simp add: cleanup_tick_def standalone_def cleanup_expired_tasks_def scan_expired_tasks_def Let_def)
qed

lemma dead_step:
  assumes "server_step X L K timeout v e v'" and "dead st over v"
    and "interval = 0 \<and> over \<or> 9223372036854775 < unat timeout \<and> unat timeout < 18437520701672696841"
    and "\<And>req. e = Request req \<Longrightarrow> request_calls L (password st) (heartbeat_duration st) req = []"
  shows "dead st (over \<or> e = Tick) v'"
  using assms(1)
proof (cases rule: server_step.cases)
  case (serve req resp a)
  then have "app v' = app v"
    using step_calls [OF assms(1)] assms(2,4) by (simp add: dead_def makes_calls_def)
  then show ?thesis using serve assms(2) by (simp add: dead_def)
next
  case (tick a)
  then have "\<not> over" using assms(2) by (simp add: dead_def)
  then show ?thesis
    using tick tick_panic [of timeout "app v" X "raft_lib L" K] assms(2,3) by (auto simp: dead_def)
next
  case (tick_panics p a)
  then have "\<not> over" using assms(2) by (simp add: dead_def)
  then show ?thesis
    using tick_panics tick_panic [of timeout "app v" X "raft_lib L" K] assms(2,3) by (auto simp: dead_def)
qed (use assms(2) in \<open>auto simp: dead_def\<close>)

lemma dead_run:
  assumes "interval = 0 \<or> 9223372036854775 < unat timeout \<and> unat timeout < 18437520701672696841"
    and "reaches X L K timeout (start interval st) es v" and "raft st = None"
    and "\<forall>req. Request req \<in> set es \<longrightarrow> request_calls L (password st) (heartbeat_duration st) req = []"
  shows "dead st (interval = 0 \<or> Tick \<in> set es) v"
  using assms(2,4)
proof (induction rule: reaches.induct)
  case here
  then show ?case using assms(3) by (simp add: dead_def start_def)
next
  case (further es v e v')
  then have "dead st (interval = 0 \<or> Tick \<in> set es) v" by simp
  from dead_step [OF further.hyps(2) this] have "dead st ((interval = 0 \<or> Tick \<in> set es) \<or> e = Tick) v'"
    using assms(1) further.prems by auto
  then show ?case by (auto simp: dead_def)
qed

text \<open>
  C37: some configurations switch the cleanup off for good. With a cleanup interval of zero, or a
  task timeout between 9223372036854776 and 18437520701672696840 seconds, the background task of a
  standalone server ends in a panic at its start or in its first tick, while the server goes on
  serving: along any events that make no call of their own, every task in flight stays in flight
  and every queue stays as it is.
\<close>

theorem cleanup_dies:
  assumes "interval = 0 \<or> 9223372036854775 < unat timeout \<and> unat timeout < 18437520701672696841"
    and "raft st = None" and "reaches X L K timeout (start interval st) events v"
    and "\<forall>req. Request req \<in> set events \<longrightarrow>
      request_calls L (password st) (heartbeat_duration st) req = []"
  shows "queues (app_storage (app v)) = queues (app_storage st) \<and>
    in_flight (app_storage (app v)) = in_flight (app_storage st) \<and>
    (Tick \<in> set events \<longrightarrow> cleanup_loop v \<noteq> Running)"
  using dead_run [OF assms(1) assms(3) assms(2) assms(4)] by (auto simp: dead_def)

section \<open>Instances\<close>

lemma one_request:
  "reaches X L K timeout v0 [Request req] (v0\<lparr>app := snd (handle_request X L req (app v0))\<rparr>)"
proof -
  obtain resp st where "handle_request X L req (app v0) = (resp, st)" by fastforce
  then show ?thesis
    using reaches.further [OF reaches.here server_step.serve] by fastforce
qed

text \<open>An application on a storage with the given log.\<close>

definition logged_app :: "wal_manager option \<Rightarrow> unit app_state" where
  "logged_app w = \<lparr>app_storage = (new_storage numbered (sconst 0))\<lparr>wal := w\<rparr>, password = ''secret'',
     raft = None, heartbeat_duration = 60\<rparr>"

definition post_queue :: request where
  "post_queue = \<lparr>req_method = POST, path = [''queues''], password_header = Some ''secret'',
     content_type_header = Some ''application/json'', accept_header = None, query = [], req_body = [113]\<rparr>"

lemma post_queue_calls: "request_calls plain_libraries ''secret'' 60 post_queue = [Create_queue ''q'']"
proof -
  have "char_of (of_char CHR ''q'' :: nat) = CHR ''q''" by (rule char_of_char)
  then have "char_of (unat (113 :: byte)) = CHR ''q''" by (simp add: unat_numeral)
  then show ?thesis
    using name_q
    by (simp add: request_calls_def post_queue_def find_route_def auth_ok_def plain_libraries_def
        if_json_def if_within_def default_body_limit_def if_valid_def)
qed

lemma server_recovers_witness:
  "\<exists>v m r. reaches unary_codec plain_libraries listed 30 (start 5 (logged_app (Some fresh_manager)))
      [Request post_queue] v \<and>
    wal (app_storage (app v)) = Some m \<and>
    new_persistent unary_codec (file_after m) numbered (sconst 7) = Inr r \<and>
    view_of r = view_of (app_storage (app v))"
proof -
  have "new_persistent unary_codec fresh_disk numbered (sconst 0) =
      Inr (app_storage (logged_app (Some fresh_manager)))"
    by (simp add: new_on_fresh_disk logged_app_def)
  moreover have "raft (logged_app (Some fresh_manager)) = None" by (simp add: logged_app_def)
  ultimately show ?thesis
    using server_recovers [OF unary_codec_law fresh_disk_log fresh_disk_io _ _ one_request] one_request
    by metis
qed

lemma server_conserves_messages_witness:
  "\<exists>v. reaches unary_codec plain_libraries listed 30 (start 5 (logged_app None)) [Request post_queue] v \<and>
    messages (app_storage (app v)) = {#}"
proof -
  have "well_formed (app_storage (logged_app None))" "raft (logged_app None) = None"
    by (simp_all add: logged_app_def well_formed_new)
  from server_conserves_messages [OF this one_request [of unary_codec plain_libraries listed 30
        "start 5 (logged_app None)" post_queue]]
  have "messages (app_storage (app ((start 5 (logged_app None))\<lparr>app :=
      snd (handle_request unary_codec plain_libraries post_queue (app (start 5 (logged_app None))))\<rparr>))) = {#}"
    by (simp add: server_calls_def logged_app_def post_queue_calls messages_def new_storage_def queued_def flying_def)
  then show ?thesis using one_request by blast
qed

theorem cleanup_dies_witness:
  "\<exists>v. reaches unary_codec plain_libraries listed 18000000000000000000 (start 5 (logged_app None)) [Tick] v \<and>
    cleanup_loop v = Died"
proof -
  have t: "unat (18000000000000000000 :: u64) = 18000000000000000000" by (simp add: unat_numeral)
  let ?v0 = "start 5 (logged_app None)"
  obtain p a where "cleanup_tick unary_codec (raft_lib plain_libraries) listed 18000000000000000000 (app ?v0) = (Inl p, a)"
    by (simp add: start_def logged_app_def cleanup_tick_def standalone_def cleanup_expired_tasks_def
        scan_expired_tasks_def Let_def duration_range t)
  moreover have "cleanup_loop ?v0 = Running" by (simp add: start_def)
  ultimately have "server_step unary_codec plain_libraries listed 18000000000000000000 ?v0 Tick
      (?v0\<lparr>app := a, cleanup_loop := Died\<rparr>)"
    by (intro server_step.tick_panics) auto
  from reaches.further [OF reaches.here this]
  have r: "reaches unary_codec plain_libraries listed 18000000000000000000 ?v0 [Tick]
      (?v0\<lparr>app := a, cleanup_loop := Died\<rparr>)" by simp
  have "queues (app_storage (app (?v0\<lparr>app := a, cleanup_loop := Died\<rparr>))) = queues (app_storage (logged_app None))"
    using cleanup_dies [OF _ _ r] t by (simp add: logged_app_def)
  then show ?thesis using r by (intro exI conjI) auto
qed

end
