(* ===== verification/Liveness.thy ===== *)
theory Liveness
  imports Server
begin

text \<open>
  What a standalone server is bound to do: as long as it is not stopped its cleanup runs, and each
  tick returns every task whose time is over. \<open>Server.cleanup_dies\<close> has the configurations
  where it does not.
\<close>

section \<open>The cleanup stays alive\<close>

lemma tick_ok:
  assumes "unat timeout \<le> 9223372036854775" and "raft st = None"
  shows "fst (cleanup_tick X R K timeout st) = Inr ()"
proof -
  have "duration_seconds timeout = Inr (int (unat timeout) * 1000000000)"
    using assms(1) by (simp add: duration_range)
  then show ?thesis
    using assms(2)
    by (simp add: cleanup_tick_def standalone_def cleanup_expired_tasks_def scan_expired_tasks_def Let_def
        split: prod.split)
qed

lemma stays_standalone:
  assumes "reaches X L K timeout (start interval st) events v" and "raft st = None"
  shows "raft (app v) = None"
  using reaches_calls [OF assms(1)] assms(2) by (simp add: start_def makes_calls_def)

lemma stays_running:
  assumes "reaches X L K timeout (start interval st) events v" and "raft st = None"
    and "interval \<noteq> 0" and "unat timeout \<le> 9223372036854775" and "Observe_cancel \<notin> set events"
  shows "cleanup_loop v = Running"
  using assms(1,5)
proof (induction rule: reaches.induct)
  case here
  then show ?case using assms(3) by (simp add: start_def)
next
  case (further es v e v')
  have "raft (app v) = None" by (rule stays_standalone [OF further.hyps(1) assms(2)])
  then have "fst (cleanup_tick X (raft_lib L) K timeout (app v)) = Inr ()"
    using assms(4) by (intro tick_ok)
  with further.hyps(2) further.IH further.prems show ?case
    by (cases rule: server_step.cases) auto
qed

section \<open>Expired tasks come back\<close>

lemma tracks_log_works: "codec_law X \<Longrightarrow> tracks True X es s \<Longrightarrow> log_works X (wal s)"
  by (auto simp: tracks_def log_works_def io_ok_def)

lemma no_log_nack_all: "wal s = None \<Longrightarrow> wal (snd (nack_all X ids n s)) = None"
proof (induction ids arbitrary: n s)
  case (Cons i ids)
  obtain r s1 where "nack X i s = (r, s1)" by fastforce
  moreover have "wal (snd (nack X i s)) = None"
    using Cons.prems by (simp add: op_defs log_op_None wal_requeue split: option.split)
  ultimately show ?case using Cons.IH by (simp split: sum.split)
qed simp

lemma no_log_deliver: "wal (snd (deliver_items q xs s)) = wal s"
proof (induction xs arbitrary: s)
  case (Cons x xs)
  then show ?case by (cases x) (auto simp: Let_def split: prod.split dest: arg_cong [of _ _ "wal \<circ> snd"])
qed simp

lemma no_log_after:
  assumes "wal s = None" shows "wal (after X K c s) = None"
proof (cases c)
  case (Cleanup_expired_tasks n)
  obtain r s1 where s1: "scan_expired_tasks K n s = (r, s1)" by fastforce
  then have "wal s1 = None" using assms
    by (auto simp: scan_expired_tasks_def Let_def split: sum.splits if_splits)
  then have "wal (snd (nack_all X ids 0 s1)) = None" for ids by (rule no_log_nack_all)
  with s1 \<open>wal s1 = None\<close> show ?thesis
    by (auto simp: Cleanup_expired_tasks cleanup_expired_tasks_def split: sum.split prod.split dest: spec)
      (metis snd_conv)
next
  case (Dequeue_batch q n)
  then show ?thesis using assms
    by (simp add: dequeue_batch_def log_op_None no_log_deliver Let_def case_prod_unfold split: option.split)
qed (use assms in \<open>simp_all add: op_defs log_op_None wal_requeue Let_def split: option.split list.split prod.split\<close>)

text \<open>A storage that has no log, or one on a disk that never fails.\<close>

definition reliable :: "codec \<Rightarrow> storage \<Rightarrow> bool" where
  "reliable X s \<longleftrightarrow> wal s = None \<or> codec_law X \<and> (\<exists>es. tracks True X es s)"

lemma reliable_run:
  assumes "reliable X s" shows "log_works X (wal (run (after X K) calls s))"
proof (cases "wal s = None")
  case True
  then have "wal (run (after X K) calls s) = None"
    by (induction calls arbitrary: s) (simp_all add: no_log_after)
  then show ?thesis by (simp add: log_works_def)
next
  case False
  then obtain es where "codec_law X" "tracks True X es s" using assms by (auto simp: reliable_def)
  then show ?thesis
    using advance_run [of X True s K calls]
    by (auto simp: advance_def intro: tracks_log_works)
qed

text \<open>The tasks of a server whose time is over when the cleanup next looks at the clock.\<close>

definition overdue :: "u64 \<Rightarrow> storage \<Rightarrow> string set" where
  "overdue timeout s = expired (int (unat timeout) * 1000000000) (shd (clock s)) (in_flight s)"

lemma tick_returns:
  assumes "well_formed (app_storage st)" and "log_works X (wal (app_storage st))" and "enumerates K"
    and "unat timeout \<le> 9223372036854775" and "raft st = None"
  shows "\<exists>s'. cleanup_tick X R K timeout st = (Inr (), st\<lparr>app_storage := s'\<rparr>) \<and>
    in_flight s' = fmfilter (\<lambda>i. i \<notin> overdue timeout (app_storage st)) (in_flight (app_storage st)) \<and>
    (\<forall>i\<in>overdue timeout (app_storage st). \<forall>t. fmlookup (in_flight (app_storage st)) i = Some t \<longrightarrow>
       item_of t \<in> set (content_of (destination t) s'))"
proof -
  obtain n s' where "cleanup_expired_tasks X K timeout (app_storage st) = (Inr n, s')"
    "in_flight s' = fmfilter (\<lambda>i. i \<notin> overdue timeout (app_storage st)) (in_flight (app_storage st))"
    "\<forall>i\<in>overdue timeout (app_storage st). \<forall>t. fmlookup (in_flight (app_storage st)) i = Some t \<longrightarrow>
       item_of t \<in> set (content_of (destination t) s')"
    using cleanup_state [OF assms(1-4)] unfolding overdue_def by blast
  then show ?thesis
    using assms(5) by (intro exI [of _ s']) (simp add: cleanup_tick_def standalone_def)
qed

text \<open>
  C17: a message whose consumer is gone comes back. A standalone server without a log, or on a log
  whose disk does not fail, with a cleanup interval that is not zero and a timeout in range, has
  served any requests and ticks, one at a time, and has not been stopped. Then its cleanup is still
  running, a tick can always happen and never ends it, and after the tick no task is in flight whose
  time was over, each of their messages is in the queue it came from, or among the dead letters after
  five deliveries, and no other task was touched. (With requests in parallel a tick can be kept from
  ever happening: \<open>Executor\<close>.)
\<close>

theorem expired_tasks_come_back:
  assumes "reliable X (app_storage st)" and "well_formed (app_storage st)"
    and "raft st = None" and "enumerates K" and "interval \<noteq> 0" and "unat timeout \<le> 9223372036854775"
    and "reaches X L K timeout (start interval st) events v" and "Observe_cancel \<notin> set events"
  shows "\<exists>v'. (\<forall>u. server_step X L K timeout v Tick u \<longleftrightarrow> u = v') \<and> cleanup_loop v' = Running \<and>
    in_flight (app_storage (app v')) =
      fmfilter (\<lambda>i. i \<notin> overdue timeout (app_storage (app v))) (in_flight (app_storage (app v))) \<and>
    (\<forall>i\<in>overdue timeout (app_storage (app v)). \<forall>t. fmlookup (in_flight (app_storage (app v))) i = Some t \<longrightarrow>
       item_of t \<in> set (content_of (destination t) (app_storage (app v'))))"
proof -
  have running: "cleanup_loop v = Running" by (rule stays_running [OF assms(7,3,5,6,8)])
  note storage = reached_storage [OF assms(7,3)]
  have "well_formed (app_storage (app v))" unfolding storage by (rule keeps.inv_run [OF assms(2)])
  moreover have "log_works X (wal (app_storage (app v)))"
    unfolding storage by (rule reliable_run [OF assms(1)])
  ultimately obtain s' where s': "cleanup_tick X (raft_lib L) K timeout (app v) = (Inr (), (app v)\<lparr>app_storage := s'\<rparr>)"
    "in_flight s' = fmfilter (\<lambda>i. i \<notin> overdue timeout (app_storage (app v))) (in_flight (app_storage (app v)))"
    "\<forall>i\<in>overdue timeout (app_storage (app v)). \<forall>t. fmlookup (in_flight (app_storage (app v))) i = Some t \<longrightarrow>
       item_of t \<in> set (content_of (destination t) s')"
    using tick_returns [OF _ _ assms(4,6) stays_standalone [OF assms(7,3)]] by blast
  have "server_step X L K timeout v Tick u \<longleftrightarrow> u = v\<lparr>app := (app v)\<lparr>app_storage := s'\<rparr>\<rparr>" for u
    using running s'(1) by (auto simp: server_step_iff)
  then show ?thesis
    using running s'(2,3) by (intro exI [of _ "v\<lparr>app := (app v)\<lparr>app_storage := s'\<rparr>\<rparr>"]) simp
qed

section \<open>An instance\<close>

text \<open>A server with a task in flight since the beginning of time, and a clock at 90 seconds.\<close>

definition busy_app :: "unit app_state" where
  "busy_app = \<lparr>app_storage = one_task (Some fresh_manager), password = ''secret'', raft = None,
     heartbeat_duration = 60\<rparr>"

theorem expired_tasks_come_back_witness:
  "\<exists>v'. server_step unary_codec plain_libraries listed 30 (start 5 busy_app) Tick v' \<and>
    in_flight (app_storage (app v')) = fmempty \<and>
    \<lparr>item_data = [7], item_attempts = 1\<rparr> \<in> set (content_of ''q'' (app_storage (app v')))"
proof -
  let ?v = "start 5 busy_app" and ?t = "task_of ''t'' ''q'' 0 (fresh_item [7])"
  have "tracks True unary_codec [] (app_storage busy_app)"
    by (simp add: busy_app_def tracks_def io_ok_def fresh_manager_def wal_ready_def perfect_io_def)
  then have rel: "reliable unary_codec (app_storage busy_app)"
    unfolding reliable_def using unary_codec_law by blast
  have wf: "well_formed (app_storage busy_app)" "raft busy_app = None"
    by (simp_all add: busy_app_def one_task_well_formed)
  have late: "overdue 30 (app_storage (app ?v)) = {''t''}"
    by (auto simp: overdue_def expired_def start_def busy_app_def unat_numeral split: if_splits)
  obtain v' where v': "\<forall>u. server_step unary_codec plain_libraries listed 30 ?v Tick u \<longleftrightarrow> u = v'"
    "in_flight (app_storage (app v')) = fmfilter (\<lambda>i. i \<notin> {''t''}) (in_flight (app_storage (app ?v)))"
    "\<forall>i\<in>{''t''}. \<forall>t. fmlookup (in_flight (app_storage (app ?v))) i = Some t \<longrightarrow>
       item_of t \<in> set (content_of (destination t) (app_storage (app v')))"
    using expired_tasks_come_back [OF rel wf listed_enumerates, of 5 30 plain_libraries "[]" ?v]
      reaches.here [of unary_codec plain_libraries listed 30 ?v]
    unfolding late by (auto simp: unat_numeral)
  have "in_flight (app_storage (app v')) = fmempty"
    unfolding v'(2) by (rule fmap_ext) (simp add: start_def busy_app_def)
  moreover have "item_of ?t \<in> set (content_of (destination ?t) (app_storage (app v')))"
    using v'(3) by (simp add: start_def busy_app_def)
  ultimately show ?thesis
    using v'(1) by (intro exI [of _ v'])
      (simp add: item_of_def destination_def task_of_def fresh_item_def word_le_nat_alt)
qed

end
