(* ===== verification/Config.thy ===== *)
theory Config
  imports Ox_Prelude
begin

text \<open>
  What the program reads from its environment: the numeric settings of \<^verbatim>\<open>src/main.rs\<close>, the
  TLS settings of \<^verbatim>\<open>src/tls/mod.rs\<close>, the log format of
  \<^verbatim>\<open>src/telemetry/mod.rs\<close> and the drain timeout of \<^verbatim>\<open>src/shutdown/mod.rs\<close>.
  A variable that is not set or not Unicode reads as \<open>None\<close>. Texts are their UTF-8 bytes.
\<close>

section \<open>Numbers\<close>

text \<open>\<^verbatim>\<open>str::parse\<close> for an unsigned integer of \<open>w\<close> bits, with the errors of the library.\<close>

datatype int_error = Empty | Invalid_digit | Pos_overflow

type_synonym environment = "string \<Rightarrow> string option"

definition digit :: "char \<Rightarrow> nat option" where
  "digit c = (if 48 \<le> code c \<and> code c \<le> 57 then Some (code c - 48) else None)"

fun parse_digits :: "nat \<Rightarrow> nat \<Rightarrow> string \<Rightarrow> int_error + nat" where
  "parse_digits w acc [] = Inr acc"
| "parse_digits w acc (c # cs) =
     (case digit c of
        None \<Rightarrow> Inl Invalid_digit
      | Some d \<Rightarrow>
          if 2 ^ w \<le> acc * 10 then Inl Pos_overflow
          else if 2 ^ w \<le> acc * 10 + d then Inl Pos_overflow
          else parse_digits w (acc * 10 + d) cs)"

definition parse_unsigned :: "nat \<Rightarrow> string \<Rightarrow> int_error + nat" where
  "parse_unsigned w s = (case s of
       [] \<Rightarrow> Inl Empty
     | [c] \<Rightarrow> if c = CHR ''+'' \<or> c = CHR ''-'' then Inl Invalid_digit else parse_digits w 0 [c]
     | c # cs \<Rightarrow> if c = CHR ''+'' then parse_digits w 0 cs else parse_digits w 0 s)"

text \<open>\<^verbatim>\<open>env::var(name).unwrap_or_else(default).parse().expect(message)\<close>.\<close>

definition setting :: "environment \<Rightarrow> nat \<Rightarrow> string \<Rightarrow> string \<Rightarrow> string \<Rightarrow> nat res" where
  "setting env w name fallback message =
     (case parse_unsigned w (case env name of None \<Rightarrow> fallback | Some v \<Rightarrow> v) of
        Inl _ \<Rightarrow> Inl (Panic message)
      | Inr n \<Rightarrow> Inr n)"

definition required :: "environment \<Rightarrow> string \<Rightarrow> string \<Rightarrow> string res" where
  "required env name message = (case env name of None \<Rightarrow> Inl (Panic message) | Some v \<Rightarrow> Inr v)"

section \<open>Switches\<close>

text \<open>
  Lower case. The code compares the result with an ASCII word, and no letter outside ASCII has one
  of these words' letters as its lower case, so the other characters can stay as they are.
\<close>

definition to_lowercase :: "string \<Rightarrow> string" where
  "to_lowercase s = map (\<lambda>c. if 65 \<le> code c \<and> code c \<le> 90 then char_of (code c + 32) else c) s"

definition switch :: "environment \<Rightarrow> string \<Rightarrow> bool" where
  "switch env name = (case env name of None \<Rightarrow> False | Some v \<Rightarrow> to_lowercase v = ''true'')"

definition is_raft_tls_enabled :: "environment \<Rightarrow> bool" where
  "is_raft_tls_enabled env = switch env ''OXIDEQ_RAFT_TLS''"

datatype log_format = Human | Json_format

definition log_format_from_env :: "environment \<Rightarrow> log_format" where
  "log_format_from_env env =
     (if to_lowercase (case env ''OXIDEQ_LOG_FORMAT'' of None \<Rightarrow> [] | Some v \<Rightarrow> v) = ''json''
      then Json_format else Human)"

text \<open>
  The filter of the log: the first of two variables that is set and parses (\<open>parse\<close> is the tracing
  library's), else \<^verbatim>\<open>info\<close>.
\<close>

definition log_filter :: "(string \<Rightarrow> 'f option) \<Rightarrow> (string \<Rightarrow> 'f) \<Rightarrow> environment \<Rightarrow> 'f" where
  "log_filter parse default_filter env =
     (case Option.bind (env ''OXIDEQ_LOG_LEVEL'') parse of
        Some f \<Rightarrow> f
      | None \<Rightarrow> (case Option.bind (env ''RUST_LOG'') parse of Some f \<Rightarrow> f | None \<Rightarrow> default_filter ''info''))"

text \<open>
  The subscriber of the log messages, as \<^verbatim>\<open>init_logging\<close> sets it up. An option
  the builder leaves to the library is \<open>None\<close>. A second subscriber in the same process is a panic.
\<close>

record 'f subscriber =
  event_filter :: 'f
  as_json :: bool
  span_close_events :: bool
  with_target :: bool
  with_thread_ids :: bool
  with_file :: "bool option"
  with_line_number :: "bool option"

definition init_logging ::
    "(string \<Rightarrow> 'f option) \<Rightarrow> (string \<Rightarrow> 'f) \<Rightarrow> environment \<Rightarrow> 'f subscriber option \<Rightarrow> 'f subscriber res" where
  "init_logging parse default_filter env installed =
     (let filter = log_filter parse default_filter env in
      case installed of
        Some _ \<Rightarrow> Inl (Panic ''the tracing subscriber has already been initialized'')
      | None \<Rightarrow>
          (case log_format_from_env env of
             Json_format \<Rightarrow> Inr \<lparr>event_filter = filter, as_json = True, span_close_events = True,
               with_target = True, with_thread_ids = False, with_file = Some False, with_line_number = Some False\<rparr>
           | Human \<Rightarrow> Inr \<lparr>event_filter = filter, as_json = False, span_close_events = True,
               with_target = True, with_thread_ids = False, with_file = None, with_line_number = None\<rparr>))"

definition default_drain_timeout_secs :: nat where
  "default_drain_timeout_secs = 10"

definition get_drain_timeout_secs :: "environment \<Rightarrow> nat" where
  "get_drain_timeout_secs env =
     (case env ''OXIDEQ_DRAIN_TIMEOUT'' of
        None \<Rightarrow> default_drain_timeout_secs
      | Some v \<Rightarrow> (case parse_unsigned 64 v of Inl _ \<Rightarrow> default_drain_timeout_secs | Inr n \<Rightarrow> n))"

section \<open>TLS\<close>

datatype tls_error =
    CertNotFound string
  | KeyNotFound string
  | InvalidCert string
  | InvalidKey string
  | ConfigError string

fun show_tls_error :: "tls_error \<Rightarrow> string" where
  "show_tls_error (CertNotFound p) = ''Certificate file not found: '' @ p"
| "show_tls_error (KeyNotFound p) = ''Private key file not found: '' @ p"
| "show_tls_error (InvalidCert e) = ''Invalid certificate: '' @ e"
| "show_tls_error (InvalidKey e) = ''Invalid private key: '' @ e"
| "show_tls_error (ConfigError e) = ''TLS configuration error: '' @ e"

text \<open>
  The files and the libraries that read PEM and build a configuration. \<open>read_certs\<close> is the
  iterator of \<^verbatim>\<open>rustls_pemfile::certs\<close>, one outcome for each certificate of the file.
\<close>

record ('c, 'k, 't) tls_lib =
  open_file :: "string \<Rightarrow> byte list option"
  read_certs :: "byte list \<Rightarrow> (string + 'c) list"
  read_key :: "byte list \<Rightarrow> string + 'k option"
  server_config :: "'c list \<Rightarrow> 'k \<Rightarrow> string + 't"

text \<open>Collecting an iterator of results: the first error, or all the values.\<close>

fun collect_results :: "('e + 'a) list \<Rightarrow> 'e + 'a list" where
  "collect_results [] = Inr []"
| "collect_results (Inl e # xs) = Inl e"
| "collect_results (Inr a # xs) = (case collect_results xs of Inl e \<Rightarrow> Inl e | Inr as \<Rightarrow> Inr (a # as))"

definition tls_load :: "('c, 'k, 't) tls_lib \<Rightarrow> string \<Rightarrow> string \<Rightarrow> tls_error + 't" where
  "tls_load T cert_path key_path =
     (case open_file T cert_path of
        None \<Rightarrow> Inl (CertNotFound cert_path)
      | Some cert_file \<Rightarrow>
          (case collect_results (read_certs T cert_file) of
             Inl e \<Rightarrow> Inl (InvalidCert e)
           | Inr certs \<Rightarrow>
               if certs = [] then Inl (InvalidCert ''No certificates found in file'')
               else (case open_file T key_path of
                       None \<Rightarrow> Inl (KeyNotFound key_path)
                     | Some key_file \<Rightarrow>
                         (case read_key T key_file of
                            Inl e \<Rightarrow> Inl (InvalidKey e)
                          | Inr None \<Rightarrow> Inl (InvalidKey ''No private key found in file'')
                          | Inr (Some key) \<Rightarrow>
                              (case server_config T certs key of
                                 Inl e \<Rightarrow> Inl (ConfigError e)
                               | Inr config \<Rightarrow> Inr config)))))"

definition tls_from_env :: "('c, 'k, 't) tls_lib \<Rightarrow> environment \<Rightarrow> tls_error + 't option" where
  "tls_from_env T env =
     (case (env ''OXIDEQ_TLS_CERT'', env ''OXIDEQ_TLS_KEY'') of
        (Some cert, Some key) \<Rightarrow>
          (case tls_load T cert key of Inl e \<Rightarrow> Inl e | Inr config \<Rightarrow> Inr (Some config))
      | (None, None) \<Rightarrow> Inr None
      | (Some _, None) \<Rightarrow> Inl (KeyNotFound ''OXIDEQ_TLS_KEY must be set when OXIDEQ_TLS_CERT is set'')
      | (None, Some _) \<Rightarrow> Inl (CertNotFound ''OXIDEQ_TLS_CERT must be set when OXIDEQ_TLS_KEY is set''))"

section \<open>What the parser accepts\<close>

text \<open>The value of a text of digits.\<close>

definition digits_value :: "string \<Rightarrow> nat" where
  "digits_value s = foldl (\<lambda>n c. n * 10 + (code c - 48)) 0 s"

lemma digits_grow: "acc \<le> foldl (\<lambda>n c. n * 10 + f c) (acc::nat) s"
proof (induction s arbitrary: acc)
  case (Cons c s)
  have "acc \<le> acc * 10 + f c" by simp
  also have "\<dots> \<le> foldl (\<lambda>n c. n * 10 + f c) (acc * 10 + f c) s" by (rule Cons.IH)
  finally show ?case by simp
qed simp

lemma parse_digits_value:
  assumes "acc < 2 ^ w"
  shows "parse_digits w acc s = Inr n \<longleftrightarrow>
    list_all (\<lambda>c. digit c \<noteq> None) s \<and> n = foldl (\<lambda>n c. n * 10 + (code c - 48)) acc s \<and> n < 2 ^ w"
  using assms
proof (induction s arbitrary: acc)
  case (Cons c s)
  show ?case
  proof (cases "digit c")
    case (Some d)
    then have d: "d = code c - 48" by (simp add: digit_def split: if_splits)
    show ?thesis
    proof (cases "acc * 10 + d < 2 ^ w")
      case True
      then show ?thesis using Some d Cons.IH [OF True] by simp
    next
      case False
      have "acc * 10 + d \<le> foldl (\<lambda>n c. n * 10 + (code c - 48)) (acc * 10 + d) s"
        by (rule digits_grow)
      then have "\<not> foldl (\<lambda>n c. n * 10 + (code c - 48)) (acc * 10 + d) s < 2 ^ w"
        using False by simp
      then show ?thesis using Some d False by auto
    qed
  qed simp
qed auto

lemma digit_sign [simp]: "digit CHR ''+'' = None" "digit CHR ''-'' = None"
  by (simp_all add: digit_def code_def)

lemma parse_unsigned_value:
  "parse_unsigned w s = Inr n \<longleftrightarrow>
     (\<exists>ds. (s = ds \<or> s = CHR ''+'' # ds) \<and> ds \<noteq> [] \<and> list_all (\<lambda>c. digit c \<noteq> None) ds \<and>
        digits_value ds = n \<and> n < 2 ^ w)"
proof -
  have p: "(0::nat) < 2 ^ w" by simp
  note val = parse_digits_value [OF p]
  show ?thesis
    by (auto simp: parse_unsigned_def val digits_value_def simp del: parse_digits.simps
        split: list.splits)
qed

text \<open>Every number in decimal, and nothing else but leading zeros and a plus sign, is read back.\<close>

lemma digit_char: "d < 10 \<Longrightarrow> digit (char_of (48 + d)) = Some d \<and> code (char_of (48 + d)) - 48 = d"
  by (simp add: digit_def code_def of_char_of)

lemma decimal_digits:
  "decimal n \<noteq> [] \<and> list_all (\<lambda>c. digit c \<noteq> None) (decimal n) \<and> digits_value (decimal n) = n"
proof (induction n rule: decimal.induct)
  case (1 n)
  show ?case
  proof (cases "n < 10")
    case True
    then show ?thesis
      using digit_char [OF True] by (simp add: decimal.simps [of n] digits_value_def Let_def)
  next
    case False
    have m: "n mod 10 < 10" by simp
    from 1 [OF refl False] digit_char [OF m] show ?thesis
      by (simp add: decimal.simps [of n] digits_value_def Let_def False mult.commute)
  qed
qed

lemma parse_decimal: "parse_unsigned w (decimal n) = Inr n \<longleftrightarrow> n < 2 ^ w"
proof
  assume "parse_unsigned w (decimal n) = Inr n"
  then show "n < 2 ^ w" unfolding parse_unsigned_value by auto
next
  assume "n < 2 ^ w"
  then show "parse_unsigned w (decimal n) = Inr n"
    unfolding parse_unsigned_value using decimal_digits [of n] by auto
qed

lemma collect_results_map [simp]: "collect_results (map Inr as) = Inr as"
  by (induction as) simp_all

lemma collect_results_iff: "collect_results xs = Inr as \<longleftrightarrow> xs = map Inr as"
proof
  show "collect_results xs = Inr as \<Longrightarrow> xs = map Inr as"
    by (induction xs arbitrary: as rule: collect_results.induct) (auto split: sum.splits)
qed simp

text \<open>
  A number in the environment means itself. A text is accepted as an unsigned number of
  \<open>w\<close> bits, with value \<open>n\<close>, exactly when it is a non-empty run of decimal digits, with an
  optional plus sign before it, that denotes \<open>n\<close>, and \<open>n\<close> fits; in particular the decimal
  text of every number that fits is read back, and that of one that does not is refused.
\<close>

lemma settings_read_numbers:
  "(parse_unsigned w s = Inr n \<longleftrightarrow>
      (\<exists>ds. (s = ds \<or> s = CHR ''+'' # ds) \<and> ds \<noteq> [] \<and> list_all (\<lambda>c. digit c \<noteq> None) ds \<and>
         digits_value ds = n \<and> n < 2 ^ w)) \<and>
   (parse_unsigned w (decimal k) = Inr k \<longleftrightarrow> k < 2 ^ w)"
  by (intro conjI parse_unsigned_value parse_decimal)

text \<open>
  TLS is all or nothing. The server runs with TLS only when both variables are set, the
  certificate file exists and holds at least one certificate and no malformed one, the key file
  exists and holds a key, and the library accepts the pair; it runs without TLS exactly when
  neither variable is set; everything else stops it with an error.
\<close>

lemma tls_all_or_nothing:
  "(tls_from_env T env = Inr (Some config) \<longleftrightarrow>
      (\<exists>cert key cert_file key_file certs k.
         env ''OXIDEQ_TLS_CERT'' = Some cert \<and> env ''OXIDEQ_TLS_KEY'' = Some key \<and>
         open_file T cert = Some cert_file \<and> open_file T key = Some key_file \<and>
         read_certs T cert_file = map Inr certs \<and> certs \<noteq> [] \<and>
         read_key T key_file = Inr (Some k) \<and> server_config T certs k = Inr config)) \<and>
   (tls_from_env T env = Inr None \<longleftrightarrow>
      env ''OXIDEQ_TLS_CERT'' = None \<and> env ''OXIDEQ_TLS_KEY'' = None)"
proof -
  have load: "tls_load T cert key = Inr config \<longleftrightarrow>
      (\<exists>cert_file key_file certs k.
         open_file T cert = Some cert_file \<and> open_file T key = Some key_file \<and>
         read_certs T cert_file = map Inr certs \<and> certs \<noteq> [] \<and>
         read_key T key_file = Inr (Some k) \<and> server_config T certs k = Inr config)" for cert key
    by (auto simp: tls_load_def collect_results_iff split: option.splits sum.splits if_splits)
  have some: "tls_from_env T env = Inr (Some config) \<longleftrightarrow>
      (\<exists>cert key. env ''OXIDEQ_TLS_CERT'' = Some cert \<and> env ''OXIDEQ_TLS_KEY'' = Some key \<and>
         tls_load T cert key = Inr config)"
    by (auto simp: tls_from_env_def split: option.splits sum.splits)
  have none: "tls_from_env T env = Inr None \<longleftrightarrow>
      env ''OXIDEQ_TLS_CERT'' = None \<and> env ''OXIDEQ_TLS_KEY'' = None"
    by (auto simp: tls_from_env_def split: option.splits sum.splits)
  show ?thesis unfolding some none load by blast
qed

end
