(* ===== verification/Cluster.thy ===== *)
theory Cluster
  imports Server Config
begin

text \<open>
  The network between the nodes of a cluster: the client of \<^verbatim>\<open>src/replication/network.rs\<close>,
  and what becomes of its calls at the HTTP interface of another node. The HTTP client library and
  the texts of the consensus messages are parameters.
\<close>

section \<open>The client\<close>

text \<open>
  What the client takes from its libraries: the JSON text of a message, the transfer of a request
  (an error of the connection, or a status and a body; \<open>'w\<close> is the state of the world), and
  how a status is displayed.
\<close>

record outgoing =
  url :: string
  out_headers :: "(string \<times> string) list"
  out_body :: "byte list"

record 'w http_client =
  send :: "outgoing \<Rightarrow> 'w \<Rightarrow> (string + nat \<times> byte list) \<times> 'w"
  show_status :: "nat \<Rightarrow> string"

record 'w network =
  client :: "'w http_client"
  use_tls :: bool

definition network_new :: "'w http_client \<Rightarrow> environment \<Rightarrow> 'w network" where
  "network_new H env = \<lparr>client = H, use_tls = is_raft_tls_enabled env\<rparr>"

definition scheme :: "'w network \<Rightarrow> string" where
  "scheme net = (if use_tls net then ''https'' else ''http'')"

record 'w network_connection =
  conn_client :: "'w http_client"
  target :: u64
  target_addr :: string
  conn_scheme :: string

definition new_client :: "'w network \<Rightarrow> u64 \<Rightarrow> string \<Rightarrow> 'w network_connection" where
  "new_client net node_id addr =
     \<lparr>conn_client = client net, target = node_id, target_addr = addr, conn_scheme = scheme net\<rparr>"

text \<open>The client only builds the network variant of the library's RPC errors.\<close>

datatype rpc_error = Network_error string

text \<open>
  The body the three calls share: a POST of the JSON text of the message, with the one header that
  \<^verbatim>\<open>RequestBuilder::json\<close> sets, then the checks of the answer.
\<close>

definition post_json ::
    "'w network_connection \<Rightarrow> string \<Rightarrow> ('q \<Rightarrow> string + byte list) \<Rightarrow> (byte list \<Rightarrow> string + 'a) \<Rightarrow> 'q
      \<Rightarrow> 'w \<Rightarrow> (rpc_error + 'a) \<times> 'w" where
  "post_json N to enc dec msg w =
     (case enc msg of
        Inl e \<Rightarrow> (Inl (Network_error e), w)
      | Inr bytes \<Rightarrow>
          (case send (conn_client N)
                  \<lparr>url = to, out_headers = [(''content-type'', ''application/json'')], out_body = bytes\<rparr> w of
             (Inl e, w') \<Rightarrow> (Inl (Network_error e), w')
           | (Inr (n, answer), w') \<Rightarrow>
               (if n < 200 \<or> 299 < n
                then Inl (Network_error (''Error response: '' @ show_status (conn_client N) n))
                else (case dec answer of Inl e \<Rightarrow> Inl (Network_error e) | Inr a \<Rightarrow> Inr a), w')))"

definition base_url :: "'w network_connection \<Rightarrow> string" where
  "base_url N = conn_scheme N @ ''://'' @ target_addr N"

definition append_entries ::
    "'w network_connection \<Rightarrow> ('q \<Rightarrow> string + byte list) \<Rightarrow> (byte list \<Rightarrow> string + 'a) \<Rightarrow> 'q
      \<Rightarrow> 'w \<Rightarrow> (rpc_error + 'a) \<times> 'w" where
  "append_entries N = post_json N (base_url N @ ''/raft/append'')"

definition send_snapshot ::
    "'w network_connection \<Rightarrow> ('q \<Rightarrow> string + byte list) \<Rightarrow> (byte list \<Rightarrow> string + 'a) \<Rightarrow> 'q
      \<Rightarrow> 'w \<Rightarrow> (rpc_error + 'a) \<times> 'w" where
  "send_snapshot N = post_json N (base_url N @ ''/raft/snapshot'')"

definition vote ::
    "'w network_connection \<Rightarrow> ('q \<Rightarrow> string + byte list) \<Rightarrow> (byte list \<Rightarrow> string + 'a) \<Rightarrow> 'q
      \<Rightarrow> 'w \<Rightarrow> (rpc_error + 'a) \<times> 'w" where
  "vote N = post_json N (base_url N @ ''/raft/vote'')"

section \<open>From one node to another\<close>

text \<open>The segments of the path of a URL of the form \<open>scheme://host/segment/...\<close>.\<close>

fun segments :: "string \<Rightarrow> string list" where
  "segments [] = [[]]"
| "segments (c # cs) =
     (if c = CHR ''/'' then [] # segments cs
      else (case segments cs of [] \<Rightarrow> [[c]] | s # ss \<Rightarrow> (c # s) # ss))"

definition url_path :: "string \<Rightarrow> string list" where
  "url_path u = drop 3 (segments u)"

text \<open>The request as it arrives at the node the URL names.\<close>

definition header_value :: "outgoing \<Rightarrow> string \<Rightarrow> string option" where
  "header_value out name = map_of (out_headers out) name"

definition incoming :: "outgoing \<Rightarrow> request" where
  "incoming out =
     \<lparr>req_method = POST, path = url_path (url out),
      password_header = header_value out ''x-oxideq-password'',
      content_type_header = header_value out ''content-type'',
      accept_header = header_value out ''accept'', query = [], req_body = out_body out\<rparr>"

text \<open>
  A node at the end of a connection that may fail. On a failure the request is lost, or only the
  answer is; a panic of the handler closes the connection. \<open>render\<close> turns the body of a response
  into bytes.
\<close>

datatype link_fault = Request_lost string | Answer_lost string

definition peer_send ::
    "codec \<Rightarrow> ('r, 'j) libraries \<Rightarrow> ('j body \<Rightarrow> byte list) \<Rightarrow> (outgoing \<Rightarrow> link_fault option)
      \<Rightarrow> outgoing \<Rightarrow> 'r app_state \<Rightarrow> (string + nat \<times> byte list) \<times> 'r app_state" where
  "peer_send X L render link out st =
     (case link out of
        Some (Request_lost e) \<Rightarrow> (Inl e, st)
      | other \<Rightarrow>
          (case handle_request X L (incoming out) st of
             (Inl _, st') \<Rightarrow> (Inl ''connection closed'', st')
           | (Inr resp, st') \<Rightarrow>
               ((case other of
                   Some (Answer_lost e) \<Rightarrow> Inl e
                 | _ \<Rightarrow> Inr (status resp, render (body resp))), st')))"

section \<open>The contract of a connection\<close>

text \<open>
  What the client may rely on: a call reaches the node it names or not, and whatever comes back as
  an answer is what that node's interface answered, with the state it left.
\<close>

locale peer_link =
  fixes transmit :: "outgoing \<Rightarrow> 'r app_state \<Rightarrow> (string + nat \<times> byte list) \<times> 'r app_state"
    and X :: codec and L :: "('r, 'j) libraries"
  assumes lost: "fst (transmit out st) = Inl e \<Longrightarrow>
      snd (transmit out st) = st \<or> snd (transmit out st) = snd (handle_request X L (incoming out) st)"
    and answered: "fst (transmit out st) = Inr (n, answer) \<Longrightarrow>
      \<exists>resp. handle_request X L (incoming out) st = (Inr resp, snd (transmit out st)) \<and> status resp = n"
begin

lemma refused:
  assumes "conn_client N = \<lparr>send = transmit, show_status = sh\<rparr>"
    and "\<And>out. url out = to \<Longrightarrow> out_headers out = [(''content-type'', ''application/json'')] \<Longrightarrow>
      \<exists>resp. handle_request X L (incoming out) st = (Inr resp, st) \<and> (status resp < 200 \<or> 299 < status resp)"
  shows "\<exists>e. post_json N to enc dec msg st = (Inl (Network_error e), st)"
proof (cases "enc msg")
  case (Inl e)
  then show ?thesis by (simp add: post_json_def)
next
  case (Inr bytes)
  let ?out = "\<lparr>url = to, out_headers = [(''content-type'', ''application/json'')], out_body = bytes\<rparr>"
  obtain resp where resp: "handle_request X L (incoming ?out) st = (Inr resp, st)"
    "status resp < 200 \<or> 299 < status resp"
    using assms(2) [of ?out] by auto
  obtain x w where t: "transmit ?out st = (x, w)" by fastforce
  show ?thesis
  proof (cases x)
    case (Inl e)
    then have "w = st" using lost [of ?out st e] t resp(1) by simp
    then show ?thesis using Inr t \<open>x = Inl e\<close> assms(1) by (simp add: post_json_def)
  next
    case (Inr a)
    obtain n answer where "a = (n, answer)" by fastforce
    then have "w = st" "status resp = n" "x = Inr (n, answer)"
      using answered [of ?out st n answer] t resp(1) Inr by auto
    then show ?thesis using \<open>enc msg = Inr bytes\<close> t resp(2) assms(1) by (auto simp: post_json_def)
  qed
qed

end

interpretation node: peer_link "peer_send X L render link" X L
  by unfold_locales
    (auto simp: peer_send_def split: option.splits link_fault.splits prod.splits sum.splits)

section \<open>Calls between nodes\<close>

definition plain_addr :: "string \<Rightarrow> bool" where
  "plain_addr addr \<longleftrightarrow> list_all (\<lambda>c. c \<notin> set ''/?#'' ) addr"

lemma segments_word:
  "list_all (\<lambda>c. c \<noteq> CHR ''/'') s \<Longrightarrow> segments (s @ CHR ''/'' # rest) = s # segments rest"
  by (induction s) auto

lemma rpc_path:
  assumes "plain_addr (target_addr N)" and "conn_scheme N \<in> {''http'', ''https''}"
  shows "url_path (base_url N @ CHR ''/'' # rest) = segments rest"
proof -
  have addr: "list_all (\<lambda>c. c \<noteq> CHR ''/'') (target_addr N)"
    using assms(1) by (simp add: plain_addr_def list_all_iff)
  show ?thesis
    using assms(2) segments_word [OF addr, of rest]
    by (auto simp: url_path_def base_url_def)
qed

lemma scheme_cases: "conn_scheme (new_client (network_new H env) n addr) \<in> {''http'', ''https''}"
  by (simp add: new_client_def scheme_def)

lemma peer_urls_match_paths:
  assumes "plain_addr addr" and "N = new_client (network_new H env) n addr"
  shows "find_route (url_path (base_url N @ ''/raft/append'')) = Some (Raft_rpc Append_entries)"
    and "find_route (url_path (base_url N @ ''/raft/snapshot'')) = Some (Raft_rpc Install_snapshot)"
    and "find_route (url_path (base_url N @ ''/raft/vote'')) = Some (Raft_rpc Vote)"
proof -
  have "plain_addr (target_addr N)" "conn_scheme N \<in> {''http'', ''https''}"
    using assms scheme_cases by (simp_all add: new_client_def)
  note path = rpc_path [OF this]
  show "find_route (url_path (base_url N @ ''/raft/append'')) = Some (Raft_rpc Append_entries)"
    by (simp add: path find_route_def raft_route_def)
  show "find_route (url_path (base_url N @ ''/raft/snapshot'')) = Some (Raft_rpc Install_snapshot)"
    by (simp add: path find_route_def raft_route_def)
  show "find_route (url_path (base_url N @ ''/raft/vote'')) = Some (Raft_rpc Vote)"
    by (simp add: path find_route_def raft_route_def)
qed

text \<open>
  The calls of the client reach the routes made for them. Whatever the scheme and the address,
  the URLs of the three calls select the append, the snapshot and the vote endpoint of the node.
\<close>

lemma peer_urls_match_routes:
  assumes "plain_addr addr" and "N = new_client (network_new H env) n addr"
  shows "find_route (url_path (base_url N @ ''/raft/append'')) = Some (Raft_rpc Append_entries) \<and>
    find_route (url_path (base_url N @ ''/raft/snapshot'')) = Some (Raft_rpc Install_snapshot) \<and>
    find_route (url_path (base_url N @ ''/raft/vote'')) = Some (Raft_rpc Vote)"
  by (intro conjI peer_urls_match_paths [OF assms])

lemma no_password: "out_headers out = [(''content-type'', ''application/json'')] \<Longrightarrow>
    password_header (incoming out) = None"
  by (simp add: incoming_def header_value_def)

lemma incoming_path: "path (incoming out) = url_path (url out)"
  by (simp add: incoming_def)

text \<open>
  C20: a node refuses every call of its peers. The client sends no password, and the endpoints of
  the consensus protocol are behind the check of the password. So each of the three calls, to any
  node, over any connection, with any message, ends in a network error and leaves the node as it
  was: nothing is replicated, no vote is granted, and no snapshot is transferred.
\<close>

theorem peer_rpcs_rejected:
  assumes "plain_addr addr"
    and "N = new_client (network_new \<lparr>send = peer_send X L render link, show_status = sh\<rparr> env) n addr"
    and "call \<in> {append_entries N, send_snapshot N, vote N}"
  shows "\<exists>e. call enc dec msg st = (Inl (Network_error e), st)"
proof -
  have N: "conn_client N = \<lparr>send = peer_send X L render link, show_status = sh\<rparr>"
    using assms(2) by (simp add: new_client_def network_new_def)
  have refuse: "\<exists>resp. handle_request X L (incoming out) st = (Inr resp, st) \<and>
      (status resp < 200 \<or> 299 < status resp)"
    if "find_route (url_path to) = Some (Raft_rpc f)" "url out = to"
      "out_headers out = [(''content-type'', ''application/json'')]" for out to f
  proof -
    have "handle_request X L (incoming out) st = (Inr (only_status 401), st)"
      using that no_password [OF that(3)] by (simp add: handle_request_def auth_ok_def incoming_path)
    then show ?thesis by (simp add: only_status_def)
  qed
  have post: "\<exists>e. post_json N to enc dec msg st = (Inl (Network_error e), st)"
    if "find_route (url_path to) = Some (Raft_rpc f)" for to f
    by (rule node.refused [OF N]) (rule refuse [OF that])
  note paths = peer_urls_match_paths [OF assms(1,2)]
  show ?thesis
    using assms(3) post [OF paths(1)] post [OF paths(2)] post [OF paths(3)]
    by (auto simp: append_entries_def send_snapshot_def vote_def)
qed

text \<open>
  A message of a peer over 2 MB never arrives, password or not. The endpoints of the consensus
  protocol keep the framework's limit on the body, while a client may enqueue up to 10 MB at once:
  an authorised call with a longer message gets 413, and the node stays as it is.
\<close>

lemma oversized_rpc_refused:
  assumes "find_route (path req) = Some (Raft_rpc f)" and "req_method req = POST"
    and "auth_ok (ct_eq L) (password st) (password_header req)"
    and "json_content_type L (content_type_header req)"
    and "2 * 1024 * 1024 < length (req_body req)"
  shows "handle_request X L req st =
    (Inr (text_response 413 ''Failed to buffer the request body: length limit exceeded''), st)"
  using assms
  by (simp add: handle_request_def dispatch_def Let_def json_request_def within_limit_def default_body_limit_def)

section \<open>Instances\<close>

definition two_nodes :: "unit app_state network_connection" where
  "two_nodes = new_client (network_new
     \<lparr>send = peer_send unary_codec plain_libraries (\<lambda>_. []) (\<lambda>_. None), show_status = decimal\<rparr> (\<lambda>_. None))
     2 ''node2:8540''"

lemma peer_urls_match_routes_witness:
  "find_route (url_path (base_url two_nodes @ ''/raft/vote'')) = Some (Raft_rpc Vote)"
proof -
  have "plain_addr ''node2:8540''" by (simp add: plain_addr_def)
  from peer_urls_match_routes [OF this two_nodes_def] show ?thesis by (elim conjE)
qed

theorem peer_rpcs_rejected_witness:
  "\<exists>e. append_entries two_nodes (\<lambda>b. Inr b) (\<lambda>b. Inr b) [1 :: byte] (logged_app None) =
     (Inl (Network_error e), logged_app None)"
proof -
  have "plain_addr ''node2:8540''" by (simp add: plain_addr_def)
  then show ?thesis by (rule peer_rpcs_rejected [OF _ two_nodes_def]) simp
qed

lemma oversized_rpc_refused_witness:
  "handle_request unary_codec plain_libraries
     \<lparr>req_method = POST, path = [''raft'', ''append''], password_header = Some ''secret'',
      content_type_header = Some ''application/json'', accept_header = None, query = [],
      req_body = replicate 3000000 0\<rparr> (logged_app None) =
     (Inr (text_response 413 ''Failed to buffer the request body: length limit exceeded''), logged_app None)"
  by (rule oversized_rpc_refused [where f = Append_entries])
    (simp_all add: find_route_def raft_route_def auth_ok_def plain_libraries_def logged_app_def)

end
