(* ===== verification/Boot.thy ===== *)
theory Boot
  imports Cluster
begin

text \<open>
  Start-up: \<^verbatim>\<open>main\<close> of \<^verbatim>\<open>src/main.rs\<close>, from the environment to a running server.
  The files, the database and the construction of the consensus library are the program's
  surroundings (\<open>world\<close>); every \<^verbatim>\<open>expect\<close> of the code is a panic here, in its order.
\<close>

section \<open>Settings\<close>

datatype mode = Standalone "string option" | Clustered u64 string

record 't settings =
  set_password :: string
  cleanup_interval :: u64
  task_timeout :: u64
  set_heartbeat :: u64
  port :: "16 word"
  tls :: "'t option"
  run_mode :: mode

definition next_step :: "'a res \<Rightarrow> ('a \<Rightarrow> 'b res) \<Rightarrow> 'b res" where
  "next_step x f = (case x of Inl p \<Rightarrow> Inl p | Inr a \<Rightarrow> f a)"

definition or_panic :: "string \<Rightarrow> 'e + 'a \<Rightarrow> 'a res" where
  "or_panic message x = (case x of Inl _ \<Rightarrow> Inl (Panic message) | Inr a \<Rightarrow> Inr a)"

text \<open>
  Cluster mode needs a node identifier and an address (which is only checked to be there), and has
  a directory for its log; without it the log is optional.
\<close>

definition read_mode :: "environment \<Rightarrow> mode res" where
  "read_mode env =
     (if switch env ''OXIDEQ_CLUSTER_MODE''
      then next_step (required env ''OXIDEQ_NODE_ID'' ''OXIDEQ_NODE_ID required in cluster mode'') (\<lambda>text.
           next_step (or_panic ''Invalid Node ID'' (parse_unsigned 64 text)) (\<lambda>node_id.
           next_step (required env ''OXIDEQ_RAFT_ADDR'' ''OXIDEQ_RAFT_ADDR required in cluster mode'') (\<lambda>_.
             Inr (Clustered (of_nat node_id)
               (case env ''OXIDEQ_WAL_PATH'' of None \<Rightarrow> ''data/node_'' @ decimal node_id | Some p \<Rightarrow> p)))))
      else Inr (Standalone (env ''OXIDEQ_WAL_PATH'')))"

definition read_settings :: "('c, 'k, 't) tls_lib \<Rightarrow> environment \<Rightarrow> 't settings res" where
  "read_settings T env =
     next_step (required env ''OXIDEQ_PASSWORD'' ''OXIDEQ_PASSWORD must be set'') (\<lambda>pw.
     next_step (setting env 64 ''OXIDEQ_CLEANUP_INTERVAL'' ''5'' ''OXIDEQ_CLEANUP_INTERVAL must be a number'') (\<lambda>ci.
     next_step (setting env 64 ''OXIDEQ_TASK_TIMEOUT'' ''30'' ''OXIDEQ_TASK_TIMEOUT must be a number'') (\<lambda>tt.
     next_step (setting env 64 ''OXIDEQ_HEARTBEAT_DURATION'' ''60'' ''OXIDEQ_HEARTBEAT_DURATION must be a number'') (\<lambda>hb.
     next_step (setting env 16 ''OXIDEQ_PORT'' ''8540'' ''OXIDEQ_PORT must be a number'') (\<lambda>pt.
     next_step (or_panic ''Failed to load TLS configuration'' (tls_from_env T env)) (\<lambda>tc.
     next_step (read_mode env) (\<lambda>md.
       Inr \<lparr>set_password = pw, cleanup_interval = of_nat ci, task_timeout = of_nat tt,
            set_heartbeat = of_nat hb, port = of_nat pt, tls = tc, run_mode = md\<rparr>)))))))"

section \<open>From settings to a server\<close>

text \<open>
  The surroundings: the log file at a path, creating a directory, opening the database of a
  directory, and starting the consensus library with a node identifier, the network and the
  combined storage.
\<close>

record 'r world =
  log_at :: "string \<Rightarrow> disk_file"
  create_dir_all :: "string \<Rightarrow> string + unit"
  open_db :: "string \<Rightarrow> string + sled"
  raft_new :: "u64 \<Rightarrow> bool \<Rightarrow> node \<Rightarrow> sled \<Rightarrow> string + 'r"

definition app_with :: "'t settings \<Rightarrow> storage \<Rightarrow> 'r option \<Rightarrow> 'r app_state" where
  "app_with v s r = \<lparr>app_storage = s, password = set_password v, raft = r, heartbeat_duration = set_heartbeat v\<rparr>"

definition build_app ::
    "codec \<Rightarrow> 'r world \<Rightarrow> environment \<Rightarrow> 't settings \<Rightarrow> string stream \<Rightarrow> instant stream \<Rightarrow> 'r app_state res" where
  "build_app X W env v u c =
     (case run_mode v of
        Clustered node_id wal_path \<Rightarrow>
          next_step (or_panic ''Failed to create WAL directory'' (create_dir_all W wal_path)) (\<lambda>_.
          let combined = combined_new u c in
          next_step (or_panic ''Failed to create combined storage'' (open_db W wal_path)) (\<lambda>db.
          next_step (or_panic ''Failed to create Raft'' (raft_new W node_id (is_raft_tls_enabled env) combined db)) (\<lambda>r.
            Inr (app_with v (state_machine combined) (Some r)))))
      | Standalone (Some wal_path) \<Rightarrow>
          next_step (new_persistent X (log_at W wal_path) u c) (\<lambda>s. Inr (app_with v s None))
      | Standalone None \<Rightarrow> Inr (app_with v (new_storage u c) None))"

definition boot ::
    "codec \<Rightarrow> ('c, 'k, 't) tls_lib \<Rightarrow> 'r world \<Rightarrow> environment \<Rightarrow> string stream \<Rightarrow> instant stream
      \<Rightarrow> ('t settings \<times> 'r server) res" where
  "boot X T W env u c =
     next_step (read_settings T env) (\<lambda>v.
     next_step (build_app X W env v u c) (\<lambda>st. Inr (v, start (cleanup_interval v) st)))"

text \<open>
  How the router is served (\<^verbatim>\<open>src/server/mod.rs\<close>): with TLS, connections get 10 seconds after
  the shutdown signal; without, as long as they need.
\<close>

datatype 't serving = Https 't "16 word" nat | Http_plain "16 word"

definition run_server :: "16 word \<Rightarrow> 't option \<Rightarrow> 't serving" where
  "run_server addr tls_config =
     (case tls_config of Some config \<Rightarrow> Https config addr 10 | None \<Rightarrow> Http_plain addr)"

section \<open>Shutdown\<close>

text \<open>
  \<^verbatim>\<open>shutdown_signal\<close> polls its two branches, the first one chosen at random; each installs its
  handler when it is first polled and panics when it cannot. From then on the first signal that
  arrives, if any does, completes the future.
\<close>

datatype os_signal = Ctrl_c | Sigterm

record signals =
  can_install :: "os_signal \<Rightarrow> bool"
  polled_first :: os_signal
  first_arrival :: "os_signal option"

fun other_branch :: "os_signal \<Rightarrow> os_signal" where
  "other_branch Ctrl_c = Sigterm"
| "other_branch Sigterm = Ctrl_c"

fun install_failure :: "os_signal \<Rightarrow> string" where
  "install_failure Ctrl_c = ''Failed to install Ctrl+C handler''"
| "install_failure Sigterm = ''Failed to install SIGTERM handler''"

definition install :: "signals \<Rightarrow> os_signal \<Rightarrow> unit res" where
  "install S k = (if can_install S k then Inr () else Inl (Panic (install_failure k)))"

definition shutdown_signal :: "signals \<Rightarrow> os_signal option res" where
  "shutdown_signal S =
     next_step (install S (polled_first S)) (\<lambda>_.
     next_step (install S (other_branch (polled_first S))) (\<lambda>_. Inr (first_arrival S)))"

text \<open>The future \<^verbatim>\<open>main\<close> hands to the server, with the token of the cleanup task; and its end.\<close>

definition shutdown_future :: "signals \<Rightarrow> 'r server \<Rightarrow> 'r server option res" where
  "shutdown_future S v =
     next_step (shutdown_signal S) (\<lambda>k. Inr (map_option (\<lambda>_. v\<lparr>cancelled := True\<rparr>) k))"

definition exit_code :: "string + unit \<Rightarrow> nat" where
  "exit_code served = (case served of Inl e \<Rightarrow> 1 | Inr _ \<Rightarrow> 0)"

lemma shutdown_future_cancels:
  "shutdown_future S v = Inr (Some v') \<Longrightarrow> server_step X L K timeout v Cancel v'"
  by (auto simp: shutdown_future_def next_step_def server_step_iff split: sum.splits)

lemma shutdown_signal_cases:
  "shutdown_signal S =
     (if can_install S Ctrl_c \<and> can_install S Sigterm then Inr (first_arrival S)
      else Inl (Panic (install_failure
        (if can_install S (polled_first S) then other_branch (polled_first S) else polled_first S))))"
  by (cases "polled_first S") (auto simp: shutdown_signal_def install_def next_step_def)

section \<open>What start-up guarantees\<close>

lemma next_step_ok: "next_step x f = Inr b \<longleftrightarrow> (\<exists>a. x = Inr a \<and> f a = Inr b)"
  by (auto simp: next_step_def split: sum.split)

lemma or_panic_ok: "or_panic message x = Inr a \<longleftrightarrow> x = Inr a"
  by (auto simp: or_panic_def split: sum.split)

lemma required_ok: "required env name message = Inr a \<longleftrightarrow> env name = Some a"
  by (auto simp: required_def split: option.split)

lemma setting_ok:
  "setting env w name fallback message = Inr n \<longleftrightarrow>
     parse_unsigned w (case env name of None \<Rightarrow> fallback | Some v \<Rightarrow> v) = Inr n"
  by (auto simp: setting_def split: sum.split)

lemmas startup_steps = next_step_ok or_panic_ok required_ok setting_ok

lemma read_settings_ok:
  "read_settings T env = Inr v \<longleftrightarrow>
     env ''OXIDEQ_PASSWORD'' = Some (set_password v) \<and>
     (\<exists>n. parse_unsigned 64 (case env ''OXIDEQ_CLEANUP_INTERVAL'' of None \<Rightarrow> ''5'' | Some t \<Rightarrow> t) = Inr n \<and>
        cleanup_interval v = of_nat n) \<and>
     (\<exists>n. parse_unsigned 64 (case env ''OXIDEQ_TASK_TIMEOUT'' of None \<Rightarrow> ''30'' | Some t \<Rightarrow> t) = Inr n \<and>
        task_timeout v = of_nat n) \<and>
     (\<exists>n. parse_unsigned 64 (case env ''OXIDEQ_HEARTBEAT_DURATION'' of None \<Rightarrow> ''60'' | Some t \<Rightarrow> t) = Inr n \<and>
        set_heartbeat v = of_nat n) \<and>
     (\<exists>n. parse_unsigned 16 (case env ''OXIDEQ_PORT'' of None \<Rightarrow> ''8540'' | Some t \<Rightarrow> t) = Inr n \<and>
        port v = of_nat n) \<and>
     tls_from_env T env = Inr (tls v) \<and> read_mode env = Inr (run_mode v)"
  unfolding read_settings_def startup_steps by (cases v) auto

text \<open>
  The contract of the start-up, stated without the parser: what text stands for a number, what the
  TLS variables must lead to, and the checks in their order, each with the message of its panic.
\<close>

definition number_text :: "nat \<Rightarrow> string \<Rightarrow> nat \<Rightarrow> bool" where
  "number_text w text n \<longleftrightarrow>
     (\<exists>ds. (text = ds \<or> text = CHR ''+'' # ds) \<and> ds \<noteq> [] \<and> list_all (\<lambda>c. digit c \<noteq> None) ds \<and>
        digits_value ds = n \<and> n < 2 ^ w)"

definition given :: "environment \<Rightarrow> string \<Rightarrow> string \<Rightarrow> string" where
  "given env name fallback = (case env name of None \<Rightarrow> fallback | Some text \<Rightarrow> text)"

definition tls_outcome :: "('c, 'k, 't) tls_lib \<Rightarrow> environment \<Rightarrow> 't option \<Rightarrow> bool" where
  "tls_outcome T env tc \<longleftrightarrow>
     (case tc of
        None \<Rightarrow> env ''OXIDEQ_TLS_CERT'' = None \<and> env ''OXIDEQ_TLS_KEY'' = None
      | Some config \<Rightarrow>
          (\<exists>cert key cert_file key_file certs k.
             env ''OXIDEQ_TLS_CERT'' = Some cert \<and> env ''OXIDEQ_TLS_KEY'' = Some key \<and>
             open_file T cert = Some cert_file \<and> open_file T key = Some key_file \<and>
             read_certs T cert_file = map Inr certs \<and> certs \<noteq> [] \<and>
             read_key T key_file = Inr (Some k) \<and> server_config T certs k = Inr config))"

definition mode_checks :: "environment \<Rightarrow> (bool \<times> string) list" where
  "mode_checks env =
     (if switch env ''OXIDEQ_CLUSTER_MODE''
      then [(env ''OXIDEQ_NODE_ID'' \<noteq> None, ''OXIDEQ_NODE_ID required in cluster mode''),
            (\<exists>n. number_text 64 (given env ''OXIDEQ_NODE_ID'' []) n, ''Invalid Node ID''),
            (env ''OXIDEQ_RAFT_ADDR'' \<noteq> None, ''OXIDEQ_RAFT_ADDR required in cluster mode'')]
      else [])"

definition startup_checks :: "('c, 'k, 't) tls_lib \<Rightarrow> environment \<Rightarrow> (bool \<times> string) list" where
  "startup_checks T env =
     [(env ''OXIDEQ_PASSWORD'' \<noteq> None, ''OXIDEQ_PASSWORD must be set''),
      (\<exists>n. number_text 64 (given env ''OXIDEQ_CLEANUP_INTERVAL'' ''5'') n, ''OXIDEQ_CLEANUP_INTERVAL must be a number''),
      (\<exists>n. number_text 64 (given env ''OXIDEQ_TASK_TIMEOUT'' ''30'') n, ''OXIDEQ_TASK_TIMEOUT must be a number''),
      (\<exists>n. number_text 64 (given env ''OXIDEQ_HEARTBEAT_DURATION'' ''60'') n,
        ''OXIDEQ_HEARTBEAT_DURATION must be a number''),
      (\<exists>n. number_text 16 (given env ''OXIDEQ_PORT'' ''8540'') n, ''OXIDEQ_PORT must be a number''),
      (\<exists>tc. tls_outcome T env tc, ''Failed to load TLS configuration'')] @ mode_checks env"

text \<open>The message of the first check that fails.\<close>

fun first_failure :: "(bool \<times> string) list \<Rightarrow> string option" where
  "first_failure [] = None"
| "first_failure ((ok, message) # checks) = (if ok then first_failure checks else Some message)"

definition mode_given :: "environment \<Rightarrow> mode \<Rightarrow> bool" where
  "mode_given env md \<longleftrightarrow>
     (case md of
        Clustered node_id dir \<Rightarrow>
          switch env ''OXIDEQ_CLUSTER_MODE'' \<and> number_text 64 (given env ''OXIDEQ_NODE_ID'' []) (unat node_id) \<and>
          dir = given env ''OXIDEQ_WAL_PATH'' (''data/node_'' @ decimal (unat node_id))
      | Standalone wal_path \<Rightarrow>
          \<not> switch env ''OXIDEQ_CLUSTER_MODE'' \<and> wal_path = env ''OXIDEQ_WAL_PATH'')"

definition settings_given :: "('c, 'k, 't) tls_lib \<Rightarrow> environment \<Rightarrow> 't settings \<Rightarrow> bool" where
  "settings_given T env v \<longleftrightarrow>
     env ''OXIDEQ_PASSWORD'' = Some (set_password v) \<and>
     number_text 64 (given env ''OXIDEQ_CLEANUP_INTERVAL'' ''5'') (unat (cleanup_interval v)) \<and>
     number_text 64 (given env ''OXIDEQ_TASK_TIMEOUT'' ''30'') (unat (task_timeout v)) \<and>
     number_text 64 (given env ''OXIDEQ_HEARTBEAT_DURATION'' ''60'') (unat (set_heartbeat v)) \<and>
     number_text 16 (given env ''OXIDEQ_PORT'' ''8540'') (unat (port v)) \<and>
     tls_outcome T env (tls v) \<and> mode_given env (run_mode v)"

lemma parse_number: "parse_unsigned w text = Inr n \<longleftrightarrow> number_text w text n"
  by (simp add: parse_unsigned_value number_text_def)

lemma tls_number: "tls_from_env T env = Inr tc \<longleftrightarrow> tls_outcome T env tc"
  using tls_all_or_nothing [of T env "the tc"] by (cases tc) (simp_all add: tls_outcome_def)

lemma number_word: "number_text LENGTH('a) text n \<Longrightarrow> unat (of_nat n :: 'a::len word) = n"
  by (auto simp: number_text_def unat_of_nat take_bit_nat_eq_self)

text \<open>A computation that passes its checks, or panics with the message of the first that fails.\<close>

definition checked :: "(bool \<times> string) list \<Rightarrow> 'a res \<Rightarrow> bool" where
  "checked checks x \<longleftrightarrow>
     (case first_failure checks of None \<Rightarrow> \<exists>a. x = Inr a | Some message \<Rightarrow> x = Inl (Panic message))"

lemma first_failure_append:
  "first_failure (cs @ ds) = (case first_failure cs of None \<Rightarrow> first_failure ds | Some m \<Rightarrow> Some m)"
  by (induction cs rule: first_failure.induct) simp_all

lemma checked_return [simp]: "checked [] (Inr a)"
  by (simp add: checked_def)

lemma checked_next:
  "checked cs x \<Longrightarrow> (\<And>a. x = Inr a \<Longrightarrow> checked ds (f a)) \<Longrightarrow> checked (cs @ ds) (next_step x f)"
  by (auto simp: checked_def first_failure_append next_step_def split: option.splits)

lemmas checked_step = checked_next [of "[c]" for c, simplified]

lemma checked_required: "checked [(env name \<noteq> None, message)] (required env name message)"
  by (auto simp: checked_def required_def split: option.split)

lemma checked_setting:
  "checked [(\<exists>n. number_text w (given env name fallback) n, message)] (setting env w name fallback message)"
  by (auto simp: checked_def setting_def given_def [symmetric] parse_number [symmetric] split: sum.split)

lemma checked_or_panic: "checked [(\<exists>a. x = Inr a, message)] (or_panic message x)"
  by (auto simp: checked_def or_panic_def split: sum.split)

lemma read_mode_checked: "checked (mode_checks env) (read_mode env)"
proof (cases "switch env ''OXIDEQ_CLUSTER_MODE''")
  case True
  have node: "checked [(\<exists>n. number_text 64 (given env ''OXIDEQ_NODE_ID'' []) n, ''Invalid Node ID'')]
      (or_panic ''Invalid Node ID'' (parse_unsigned 64 t))"
    if "required env ''OXIDEQ_NODE_ID'' ''OXIDEQ_NODE_ID required in cluster mode'' = Inr t" for t
    using that checked_or_panic [of "parse_unsigned 64 t" "''Invalid Node ID''"]
    by (simp add: required_ok given_def parse_number)
  show ?thesis
    unfolding read_mode_def mode_checks_def if_P [OF True]
    by (intro checked_step checked_required node checked_return)
qed (simp add: read_mode_def mode_checks_def)

lemma read_settings_checked: "checked (startup_checks T env) (read_settings T env)"
proof -
  have tls: "checked [(\<exists>tc. tls_outcome T env tc, ''Failed to load TLS configuration'')]
      (or_panic ''Failed to load TLS configuration'' (tls_from_env T env))"
    using checked_or_panic [of "tls_from_env T env"] by (simp add: tls_number)
  have mode: "checked (mode_checks env) (next_step (read_mode env) (\<lambda>md. Inr (f md)))" for f :: "mode \<Rightarrow> 't settings"
    using checked_next [OF read_mode_checked, of env "[]" "\<lambda>md. Inr (f md)"] by simp
  show ?thesis
    unfolding read_settings_def startup_checks_def append.simps
    by (intro checked_step checked_required checked_setting tls mode)
qed

lemma mode_given_read: "read_mode env = Inr md \<Longrightarrow> mode_given env md"
  unfolding read_mode_def startup_steps
  by (auto simp: startup_steps mode_given_def given_def parse_number number_word [where 'a = 64, simplified]
      split: if_splits option.splits)

lemma settings_given_read: "read_settings T env = Inr v \<Longrightarrow> settings_given T env v"
  unfolding read_settings_ok
  by (auto simp: settings_given_def given_def parse_number tls_number mode_given_read
      number_word [where 'a = 64, simplified] number_word [where 'a = 16, simplified])

text \<open>
  C39: when the program starts, and with what. Either a check of the start-up fails (the password is
  set; the four numbers are left out, which stands for 5, 30, 60 and 8540, or are decimal texts that
  fit 64 bits, 16 for the port; the TLS variables are both absent, or name a certificate and a key
  that the library accepts; in cluster mode, a node identifier that is a 64-bit number and an address
  are given), and then the program panics with the message of the first that fails, whatever the
  files and the network are; or none fails, and it has settings with exactly the values given: TLS
  exactly when its variables are set, the mode and the log's path as the environment has them.
\<close>

theorem startup_settings:
  "case first_failure (startup_checks T env) of
     Some message \<Rightarrow> boot X T W env u c = Inl (Panic message)
   | None \<Rightarrow> \<exists>v. read_settings T env = Inr v \<and> settings_given T env v"
proof (cases "first_failure (startup_checks T env)")
  case None
  then obtain v where "read_settings T env = Inr v"
    using read_settings_checked [of T env] by (auto simp: checked_def)
  then show ?thesis using None settings_given_read by auto
next
  case (Some message)
  then show ?thesis
    using read_settings_checked [of T env] by (simp add: checked_def boot_def next_step_def)
qed

lemma app_with_sel [simp]: "app_storage (app_with v s r) = s" "raft (app_with v s r) = r"
  by (simp_all add: app_with_def)

lemma started_standalone:
  assumes "boot X T W env u c = Inr (v, srv)" and "run_mode v = Standalone (Some wal_path)"
  shows "\<exists>s. new_persistent X (log_at W wal_path) u c = Inr s \<and>
    srv = start (cleanup_interval v) (app_with v s None) \<and> read_settings T env = Inr v"
proof -
  obtain st where "read_settings T env = Inr v" "build_app X W env v u c = Inr st"
    "srv = start (cleanup_interval v) st"
    using assms(1) unfolding boot_def next_step_ok by auto
  then show ?thesis using assms(2) by (auto simp: build_app_def next_step_ok)
qed

text \<open>
  C3: the program can be killed between any two requests. Start it in standalone mode with a log, on
  a disk that never fails, and let it serve anything for any time, one request or tick at a time:
  requests (authorised or not, malformed or not), ticks, panics of the cleanup and a shutdown, in any
  order. Starting it again with the same environment succeeds with the same settings, and every queue
  and every task in flight is as it was. (With requests in parallel this fails:
  \<open>Threads_Runs\<close>.)
\<close>

theorem killed_program_recovers:
  assumes "codec_law X" and "log_file X es (log_at W wal_path)"
    and "sset (disk_writes (log_at W wal_path)) \<union> sset (disk_flushes (log_at W wal_path)) \<subseteq> {None}"
    and "boot X T W env u c = Inr (v, srv)" and "run_mode v = Standalone (Some wal_path)"
    and "reaches X L K (task_timeout v) srv events srv'"
  shows "\<exists>m srv2. wal (app_storage (app srv')) = Some m \<and>
    boot X T (W\<lparr>log_at := (log_at W)(wal_path := file_after m)\<rparr>) env u' c' = Inr (v, srv2) \<and>
    view_of (app_storage (app srv2)) = view_of (app_storage (app srv'))"
proof -
  obtain s where s: "new_persistent X (log_at W wal_path) u c = Inr s"
    "srv = start (cleanup_interval v) (app_with v s None)" "read_settings T env = Inr v"
    using started_standalone [OF assms(4,5)] by blast
  have started: "new_persistent X (log_at W wal_path) u c = Inr (app_storage (app_with v s None))"
    "reaches X L K (task_timeout v) (start (cleanup_interval v) (app_with v s None)) events srv'"
    using s assms(6) by simp_all
  obtain m r where mr: "wal (app_storage (app srv')) = Some m"
    "new_persistent X (file_after m) u' c' = Inr r" "view_of r = view_of (app_storage (app srv'))"
    using server_recovers [OF assms(1-3) started(1) app_with_sel(2) started(2)] by blast
  then have "boot X T (W\<lparr>log_at := (log_at W)(wal_path := file_after m)\<rparr>) env u' c' =
      Inr (v, start (cleanup_interval v) (app_with v r None))"
    using s(3) assms(5) by (simp add: boot_def next_step_def build_app_def)
  moreover have "view_of (app_storage (app (start (cleanup_interval v) (app_with v r None)))) =
      view_of (app_storage (app srv'))"
    using mr(3) by (simp add: start_def)
  ultimately show ?thesis using mr(1) by blast
qed

text \<open>In cluster mode the state machine starts empty, whatever the directory holds.\<close>

lemma cluster_starts_empty:
  assumes "boot X T W env u c = Inr (v, srv)" and "run_mode v = Clustered node_id wal_path"
  shows "app_storage (app srv) = new_storage u c \<and> raft (app srv) \<noteq> None"
proof -
  obtain st where "build_app X W env v u c = Inr st" "srv = start (cleanup_interval v) st"
    using assms(1) unfolding boot_def next_step_ok by auto
  then show ?thesis
    using assms(2) by (auto simp: build_app_def next_step_ok Let_def combined_new_def start_def)
qed

section \<open>Instances\<close>

definition small_env :: environment where
  "small_env name =
     (if name = ''OXIDEQ_PASSWORD'' then Some ''secret''
      else if name = ''OXIDEQ_WAL_PATH'' then Some ''wal'' else None)"

definition no_tls :: "(unit, unit, unit) tls_lib" where
  "no_tls = \<lparr>open_file = (\<lambda>_. None), read_certs = (\<lambda>_. []), read_key = (\<lambda>_. Inr None),
     server_config = (\<lambda>_ _. Inl ''none'')\<rparr>"

definition small_world :: "unit world" where
  "small_world = \<lparr>log_at = (\<lambda>_. fresh_disk), create_dir_all = (\<lambda>_. Inr ()),
     open_db = (\<lambda>_. Inl ''none''), raft_new = (\<lambda>_ _ _ _. Inl ''none'')\<rparr>"

lemma small_settings:
  "read_settings no_tls small_env = Inr \<lparr>set_password = ''secret'', cleanup_interval = 5, task_timeout = 30,
     set_heartbeat = 60, port = 8540, tls = None, run_mode = Standalone (Some ''wal'')\<rparr>"
  by (simp add: read_settings_def next_step_def or_panic_def required_def setting_def small_env_def
      tls_from_env_def read_mode_def switch_def parse_unsigned_def digit_def code_def)

theorem killed_program_recovers_witness:
  "\<exists>v srv srv' m srv2.
    boot unary_codec no_tls small_world small_env numbered (sconst 0) = Inr (v, srv) \<and>
    reaches unary_codec plain_libraries listed (task_timeout v) srv [Request post_queue] srv' \<and>
    wal (app_storage (app srv')) = Some m \<and>
    boot unary_codec no_tls (small_world\<lparr>log_at := (log_at small_world)(''wal'' := file_after m)\<rparr>) small_env
      numbered (sconst 7) = Inr (v, srv2) \<and>
    view_of (app_storage (app srv2)) = view_of (app_storage (app srv'))"
proof -
  obtain v srv where b: "boot unary_codec no_tls small_world small_env numbered (sconst 0) = Inr (v, srv)"
    "run_mode v = Standalone (Some ''wal'')"
    by (simp add: boot_def small_settings next_step_def build_app_def small_world_def new_on_fresh_disk)
  have w: "log_at small_world ''wal'' = fresh_disk" by (simp add: small_world_def)
  have "log_file unary_codec [] (log_at small_world ''wal'')"
    "sset (disk_writes (log_at small_world ''wal'')) \<union> sset (disk_flushes (log_at small_world ''wal'')) \<subseteq> {None}"
    unfolding w by (rule fresh_disk_log, rule fresh_disk_io)
  from killed_program_recovers [OF unary_codec_law this b one_request] show ?thesis
    using b(1) one_request by blast
qed

end
