(* ===== verification/Threads.thy ===== *)
theory Threads
  imports Storage_Inv
begin

text \<open>
  The storage under concurrent calls. The server runs its handlers at the same time on one
  \<^verbatim>\<open>InMemoryStorage\<close>; each method of \<^verbatim>\<open>src/storage/memory.rs\<close> is cut here into
  its atomic steps, at the accesses of the two concurrent maps and at the log, and a schedule of the
  steps of all calls is run on a shared storage. A guard that a method holds across an
  \<^verbatim>\<open>await\<close> is a lock on its key; the map locks whole shards, so the real program has no other
  interleavings than these. An iteration over a map is one step.
\<close>

section \<open>Where a call is\<close>

text \<open>
  The rest of a cleanup after one of its rejections: the identifiers to go and the count. A
  rejection on its own has none.
\<close>

type_synonym rest_of_cleanup = "(string list \<times> nat) option"

datatype pc =
    Begin call
  | Create_log string
  | Create_insert string
  | Enqueue_log string "byte list"
  | Enqueue_push string "byte list"
  | Enqueue_batch_log string "byte list list"
  | Enqueue_batch_push string "byte list list"
  | Dequeue_log string queue_item string
  | Dequeue_deliver string queue_item string
  | Dequeue_batch_log string "queue_item list" "string list"
  | Dequeue_batch_deliver string "(string \<times> queue_item) list" "in_flight_task list"
  | Ack_log string
  | Nack_log rest_of_cleanup string in_flight_task
  | Nack_restore rest_of_cleanup string in_flight_task string
  | Nack_return rest_of_cleanup in_flight_task
  | Extend_log string u64
  | Extend_update string
  | Ack_batch_check "string list" "string list" "string list"
  | Ack_batch_log "string list"
  | Ack_batch_remove "string list"
  | Cleanup_next "string list" nat
  | Finished reply
  | Abandoned

section \<open>Steps\<close>

text \<open>After the log has answered: return its error, or go on.\<close>

definition logging ::
    "codec \<Rightarrow> wal_op \<Rightarrow> (string \<Rightarrow> storage \<Rightarrow> pc \<times> storage) \<Rightarrow> (storage \<Rightarrow> pc \<times> storage)
      \<Rightarrow> storage \<Rightarrow> pc \<times> storage" where
  "logging X a failed logged s =
     (case log_op X a s of (Inl e, s1) \<Rightarrow> failed e s1 | (Inr _, s1) \<Rightarrow> logged s1)"

definition done_with :: "unit res \<Rightarrow> storage \<Rightarrow> pc \<times> storage" where
  "done_with r s = (Finished (Done r), s)"

definition content :: "string \<Rightarrow> storage \<Rightarrow> queue_item list" where
  "content q s = (case fmlookup (queues s) q of None \<Rightarrow> [] | Some xs \<Rightarrow> xs)"

definition after_nack :: "rest_of_cleanup \<Rightarrow> unit res \<Rightarrow> pc" where
  "after_nack k r =
     (case k of
        None \<Rightarrow> Finished (Done r)
      | Some (ids, n) \<Rightarrow> Cleanup_next ids (case r of Inr _ \<Rightarrow> n + 1 | Inl _ \<Rightarrow> n))"

text \<open>The first step of \<^verbatim>\<open>nack\<close>: the atomic removal.\<close>

definition begin_nack :: "rest_of_cleanup \<Rightarrow> string \<Rightarrow> storage \<Rightarrow> pc \<times> storage" where
  "begin_nack k i s =
     (case fmlookup (in_flight s) i of
        None \<Rightarrow> (after_nack k (Inl (Err ''Task not found'')), s)
      | Some t \<Rightarrow> (Nack_log k i t, s\<lparr>in_flight := fmdrop i (in_flight s)\<rparr>))"

text \<open>The first step of each call.\<close>

fun begin_call :: "key_order \<Rightarrow> call \<Rightarrow> storage \<Rightarrow> pc \<times> storage" where
  "begin_call K (Create_queue n) s =
     (if n |\<in>| fmdom (queues s)
      then done_with (Inl (Err (''Queue '' @ quoted n @ '' already exists''))) s
      else (Create_log n, s))"
| "begin_call K (Queue q d) s =
     (if q |\<notin>| fmdom (queues s) then done_with (Inl (Err (queue_not_found q))) s
      else (Enqueue_log q d, s))"
| "begin_call K (Queue_batch q ds) s =
     (if q |\<notin>| fmdom (queues s) then done_with (Inl (Err (queue_not_found q))) s
      else (Enqueue_batch_log q ds, s))"
| "begin_call K (Dequeue_one q) s =
     (case fmlookup (queues s) q of
        None \<Rightarrow> (Finished (Delivered (Inl (Err (queue_not_found q)))), s)
      | Some [] \<Rightarrow> (Finished (Delivered (Inr None)), s)
      | Some (item # rest) \<Rightarrow>
          (Dequeue_log q item (shd (uuids s)),
           s\<lparr>queues := fmupd q rest (queues s), uuids := stl (uuids s)\<rparr>))"
| "begin_call K (Dequeue_batch q cnt) s =
     (case fmlookup (queues s) q of
        None \<Rightarrow> (Finished (Delivered_batch (Inl (Err (queue_not_found q)))), s)
      | Some xs \<Rightarrow>
          if xs = [] then (Finished (Delivered_batch (Inr [])), s)
          else if capacity_overflow queue_item_size (unat cnt)
          then (Finished (Delivered_batch (Inl (Panic ''capacity overflow''))), s)
          else (case pop_items (unat cnt) xs of (popped, rest) \<Rightarrow>
            if popped = [] then (Finished (Delivered_batch (Inr [])), s\<lparr>queues := fmupd q rest (queues s)\<rparr>)
            else (Dequeue_batch_log q popped (stake (length popped) (uuids s)),
                  s\<lparr>queues := fmupd q rest (queues s), uuids := sdrop (length popped) (uuids s)\<rparr>)))"
| "begin_call K (Ack_one i) s =
     (case fmlookup (in_flight s) i of
        None \<Rightarrow> done_with (Inl (Err ''Task not found'')) s
      | Some _ \<Rightarrow> (Ack_log i, s\<lparr>in_flight := fmdrop i (in_flight s)\<rparr>))"
| "begin_call K (Nack_one i) s = begin_nack None i s"
| "begin_call K (Extend_visibility i dur) s =
     (case fmlookup (in_flight s) i of
        None \<Rightarrow> done_with (Inl (Err ''Task not found'')) s
      | Some _ \<Rightarrow> (Extend_log i dur, s))"
| "begin_call K (Cleanup_expired_tasks timeout) s =
     (case scan_expired_tasks K timeout s of
        (Inl p, s1) \<Rightarrow> (Finished (Cleaned (Inl p)), s1)
      | (Inr ids, s1) \<Rightarrow> (Cleanup_next ids 0, s1))"
| "begin_call K Get_stats s = (Finished (Reported (get_stats s)), s)"
| "begin_call K (Ack_batch ids) s = (Ack_batch_check ids ids [], s)"

text \<open>The next step of a call.\<close>

fun step_call :: "codec \<Rightarrow> key_order \<Rightarrow> pc \<Rightarrow> storage \<Rightarrow> pc \<times> storage" where
  "step_call X K (Begin c) s = begin_call K c s"
| "step_call X K (Create_log n) s =
     logging X (CreateQueue n) (\<lambda>e. done_with (Inl (Err e))) (Pair (Create_insert n)) s"
| "step_call X K (Create_insert n) s = done_with (Inr ()) (s\<lparr>queues := fmupd n [] (queues s)\<rparr>)"
| "step_call X K (Enqueue_log q d) s =
     logging X (Enqueue q d) (\<lambda>e. done_with (Inl (Err e))) (Pair (Enqueue_push q d)) s"
| "step_call X K (Enqueue_push q d) s =
     (case fmlookup (queues s) q of
        None \<Rightarrow> done_with (Inl (Err (queue_not_found q))) s
      | Some xs \<Rightarrow>
          done_with (Inr ()) (s\<lparr>queues := fmupd q (xs @ [\<lparr>item_data = d, item_attempts = 0\<rparr>]) (queues s)\<rparr>))"
| "step_call X K (Enqueue_batch_log q ds) s =
     logging X (EnqueueBatch q ds) (\<lambda>e. done_with (Inl (Err e))) (Pair (Enqueue_batch_push q ds)) s"
| "step_call X K (Enqueue_batch_push q ds) s =
     (case fmlookup (queues s) q of
        None \<Rightarrow> done_with (Inl (Err (queue_not_found q))) s
      | Some xs \<Rightarrow>
          done_with (Inr ()) (s\<lparr>queues := fmupd q
            (foldl (\<lambda>q d. q @ [\<lparr>item_data = d, item_attempts = 0\<rparr>]) xs ds) (queues s)\<rparr>))"
| "step_call X K (Dequeue_log q item tid) s =
     logging X (Dequeued q tid)
       (\<lambda>e s1. (Finished (Delivered (Inl (Err e))),
                s1\<lparr>queues := fmupd q (item # content q s1) (queues s1)\<rparr>))
       (Pair (Dequeue_deliver q item tid)) s"
| "step_call X K (Dequeue_deliver q item tid) s =
     (let task = \<lparr>task_id = tid, task_data = item_data item, consumed_at = shd (clock s), task_queue = q,
                  task_attempts = item_attempts item + 1\<rparr>
      in (Finished (Delivered (Inr (Some task))),
          s\<lparr>clock := stl (clock s), in_flight := fmupd tid task (in_flight s)\<rparr>))"
| "step_call X K (Dequeue_batch_log q popped ids) s =
     logging X (DequeuedBatch q ids)
       (\<lambda>e s1. (Finished (Delivered_batch (Inl (Err e))),
                s1\<lparr>queues := fmupd q (foldl (\<lambda>q item. item # q) (content q s1) (rev popped)) (queues s1)\<rparr>))
       (Pair (Dequeue_batch_deliver q (zip ids popped) [])) s"
| "step_call X K (Dequeue_batch_deliver q [] tasks) s = (Finished (Delivered_batch (Inr tasks)), s)"
| "step_call X K (Dequeue_batch_deliver q ((tid, item) # todo) tasks) s =
     (let task = \<lparr>task_id = tid, task_data = item_data item, consumed_at = shd (clock s), task_queue = q,
                  task_attempts = item_attempts item + 1\<rparr>
      in (Dequeue_batch_deliver q todo (tasks @ [task]),
          s\<lparr>clock := stl (clock s), in_flight := fmupd tid task (in_flight s)\<rparr>))"
| "step_call X K (Ack_log i) s =
     logging X (Ack i) (\<lambda>e. done_with (Inl (Err (''WAL write failed: '' @ e)))) (done_with (Inr ())) s"
| "step_call X K (Nack_log k i t) s =
     logging X (Nack i) (\<lambda>e. Pair (Nack_restore k i t e)) (Pair (Nack_return k t)) s"
| "step_call X K (Nack_restore k i t e) s =
     (after_nack k (Inl (Err (''WAL write failed: '' @ e))), s\<lparr>in_flight := fmupd i t (in_flight s)\<rparr>)"
| "step_call X K (Nack_return k t) s = (case requeue t s of (r, s1) \<Rightarrow> (after_nack k r, s1))"
| "step_call X K (Extend_log i dur) s =
     logging X (ExtendVisibility i dur) (\<lambda>e. done_with (Inl (Err e))) (Pair (Extend_update i)) s"
| "step_call X K (Extend_update i) s =
     done_with (Inr ())
       (s\<lparr>in_flight := (case fmlookup (in_flight s) i of
                         None \<Rightarrow> in_flight s
                       | Some t \<Rightarrow> fmupd i (t\<lparr>consumed_at := shd (clock s)\<rparr>) (in_flight s)),
           clock := stl (clock s)\<rparr>)"
| "step_call X K (Ack_batch_check ids [] missing) s =
     (if missing \<noteq> [] then done_with (Inl (Err (''Tasks not found: '' @ join_comma missing))) s
      else (Ack_batch_log ids, s))"
| "step_call X K (Ack_batch_check ids (i # todo) missing) s =
     (Ack_batch_check ids todo (if i |\<in>| fmdom (in_flight s) then missing else missing @ [i]), s)"
| "step_call X K (Ack_batch_log ids) s =
     logging X (AckBatch ids) (\<lambda>e. done_with (Inl (Err e))) (Pair (Ack_batch_remove ids)) s"
| "step_call X K (Ack_batch_remove []) s = done_with (Inr ()) s"
| "step_call X K (Ack_batch_remove (i # ids)) s =
     (Ack_batch_remove ids, s\<lparr>in_flight := fmdrop i (in_flight s)\<rparr>)"
| "step_call X K (Cleanup_next [] n) s = (Finished (Cleaned (Inr n)), s)"
| "step_call X K (Cleanup_next (i # ids) n) s = begin_nack (Some (ids, n)) i s"
| "step_call X K (Finished r) s = (Finished r, s)"
| "step_call X K Abandoned s = (Abandoned, s)"

section \<open>Guards\<close>

datatype lock = Queue_lock string | Task_lock string

text \<open>The guards a call holds between its steps.\<close>

fun holds :: "pc \<Rightarrow> lock set" where
  "holds (Dequeue_log q item tid) = {Queue_lock q}"
| "holds (Dequeue_deliver q item tid) = {Queue_lock q}"
| "holds (Dequeue_batch_log q popped ids) = {Queue_lock q}"
| "holds (Dequeue_batch_deliver q todo tasks) = {Queue_lock q}"
| "holds (Extend_log i dur) = {Task_lock i}"
| "holds (Extend_update i) = {Task_lock i}"
| "holds _ = {}"

text \<open>The keys of the maps the next step touches.\<close>

fun call_touches :: "call \<Rightarrow> lock set" where
  "call_touches (Create_queue n) = {Queue_lock n}"
| "call_touches (Queue q d) = {Queue_lock q}"
| "call_touches (Queue_batch q ds) = {Queue_lock q}"
| "call_touches (Dequeue_one q) = {Queue_lock q}"
| "call_touches (Dequeue_batch q n) = {Queue_lock q}"
| "call_touches (Ack_one i) = {Task_lock i}"
| "call_touches (Nack_one i) = {Task_lock i}"
| "call_touches (Extend_visibility i dur) = {Task_lock i}"
| "call_touches (Cleanup_expired_tasks n) = range Task_lock"
| "call_touches Get_stats = UNIV"
| "call_touches (Ack_batch ids) = {}"

fun touches :: "pc \<Rightarrow> lock set" where
  "touches (Begin c) = call_touches c"
| "touches (Create_insert n) = {Queue_lock n}"
| "touches (Enqueue_push q d) = {Queue_lock q}"
| "touches (Enqueue_batch_push q ds) = {Queue_lock q}"
| "touches (Dequeue_deliver q item tid) = {Task_lock tid}"
| "touches (Dequeue_batch_deliver q ((tid, item) # todo) tasks) = {Task_lock tid}"
| "touches (Nack_restore k i t e) = {Task_lock i}"
| "touches (Nack_return k t) =
     {Queue_lock (if 5 \<le> task_attempts t then dlq_name (task_queue t) else task_queue t)}"
| "touches (Ack_batch_check ids (i # todo) missing) = {Task_lock i}"
| "touches (Ack_batch_remove (i # ids)) = {Task_lock i}"
| "touches (Cleanup_next (i # ids) n) = {Task_lock i}"
| "touches _ = {}"

section \<open>Schedules\<close>

record system =
  threads :: "pc list"
  shared :: storage

datatype schedule_event = Arrive call | Run nat | Abandon nat

text \<open>
  Where a call can be abandoned: waiting for the log, or with its entry in the file and the answer
  of the log not yet seen.
\<close>

fun at_log :: "pc \<Rightarrow> bool" where
  "at_log (Begin c) = False"
| "at_log (Dequeue_batch_deliver q todo tasks) = (tasks = [])"
| "at_log (Nack_restore k i t e) = False"
| "at_log (Ack_batch_check ids todo missing) = False"
| "at_log (Cleanup_next ids n) = False"
| "at_log (Finished r) = False"
| "at_log Abandoned = False"
| "at_log _ = True"

text \<open>The guards of all calls but the one at \<open>i\<close>.\<close>

definition held_by_others :: "nat \<Rightarrow> pc list \<Rightarrow> lock set" where
  "held_by_others i ts = \<Union> (set (map holds (take i ts @ drop (Suc i) ts)))"

text \<open>
  A call arrives, or one takes a step (a call that has to wait for a guard does nothing), or one is
  abandoned: the web framework drops the handler of a client that disconnects, at the
  \<^verbatim>\<open>await\<close> it has reached, which can only be that of the log. The guards are released.
\<close>

fun sys_step :: "codec \<Rightarrow> key_order \<Rightarrow> schedule_event \<Rightarrow> system \<Rightarrow> system" where
  "sys_step X K (Arrive c) y = y\<lparr>threads := threads y @ [Begin c]\<rparr>"
| "sys_step X K (Run i) y =
     (if i < length (threads y) \<and> touches (threads y ! i) \<inter> held_by_others i (threads y) = {}
      then (case step_call X K (threads y ! i) (shared y) of
              (pc, s) \<Rightarrow> \<lparr>threads = (threads y)[i := pc], shared = s\<rparr>)
      else y)"
| "sys_step X K (Abandon i) y =
     (if i < length (threads y) \<and> at_log (threads y ! i) \<and> wal (shared y) \<noteq> None
      then y\<lparr>threads := (threads y)[i := Abandoned]\<rparr> else y)"

definition idle_system :: "storage \<Rightarrow> system" where
  "idle_system s = \<lparr>threads = [], shared = s\<rparr>"

lemmas thread_defs [step_defs] = logging_def done_with_def begin_nack_def held_by_others_def idle_system_def

end
