(* ===== verification/Threads_Laws.thy ===== *)
theory Threads_Laws
  imports Threads Accounting
begin

text \<open>
  What holds of the storage under every schedule of concurrent calls: the ownership of identifiers,
  the account of messages with its only losses, and that a call that runs alone is the call of the
  sequential model.
\<close>

section \<open>What a call has in hand\<close>

text \<open>The payloads out of both maps, and the identifiers spoken for, while a call is under way.\<close>

fun in_hand :: "pc \<Rightarrow> byte list multiset" where
  "in_hand (Dequeue_log q item tid) = {#item_data item#}"
| "in_hand (Dequeue_deliver q item tid) = {#item_data item#}"
| "in_hand (Dequeue_batch_log q popped ids) = payloads popped"
| "in_hand (Dequeue_batch_deliver q todo tasks) = payloads (map snd todo)"
| "in_hand (Nack_log k i t) = {#task_data t#}"
| "in_hand (Nack_restore k i t e) = {#task_data t#}"
| "in_hand (Nack_return k t) = {#task_data t#}"
| "in_hand _ = {#}"

fun owned :: "pc \<Rightarrow> string list" where
  "owned (Dequeue_log q item tid) = [tid]"
| "owned (Dequeue_deliver q item tid) = [tid]"
| "owned (Dequeue_batch_log q popped ids) = ids"
| "owned (Dequeue_batch_deliver q todo tasks) = map fst todo"
| "owned (Nack_log k i t) = [i]"
| "owned (Nack_restore k i t e) = [i]"
| "owned (Nack_return k t) = [task_id t]"
| "owned _ = []"

text \<open>What a call may rely on about the queues it goes back to.\<close>

fun pc_ok :: "pc \<Rightarrow> (string, queue_item list) fmap \<Rightarrow> bool" where
  "pc_ok (Dequeue_log q item tid) qs \<longleftrightarrow> q |\<in>| fmdom qs"
| "pc_ok (Dequeue_deliver q item tid) qs \<longleftrightarrow> q |\<in>| fmdom qs"
| "pc_ok (Dequeue_batch_log q popped ids) qs \<longleftrightarrow> q |\<in>| fmdom qs \<and> length ids = length popped"
| "pc_ok (Dequeue_batch_deliver q todo tasks) qs \<longleftrightarrow> q |\<in>| fmdom qs"
| "pc_ok (Nack_log k i t) qs \<longleftrightarrow> task_id t = i \<and> task_queue t |\<in>| fmdom qs"
| "pc_ok (Nack_restore k i t e) qs \<longleftrightarrow> task_id t = i \<and> task_queue t |\<in>| fmdom qs"
| "pc_ok (Nack_return k t) qs \<longleftrightarrow> task_queue t |\<in>| fmdom qs"
| "pc_ok _ qs \<longleftrightarrow> True"

text \<open>\<open>own\<close> are the identifiers of one call, \<open>R\<close> those of the others.\<close>

definition ids_apart ::
    "string stream \<Rightarrow> (string, in_flight_task) fmap \<Rightarrow> string list \<Rightarrow> string set \<Rightarrow> bool" where
  "ids_apart u fl own R \<longleftrightarrow>
     unrepeated u \<and> distinct own \<and> set own \<inter> R = {} \<and> (set own \<union> R) \<inter> fset (fmdom fl) = {} \<and>
     sset u \<inter> (fset (fmdom fl) \<union> set own \<union> R) = {}"

lemma ids_apart_insert:
  "ids_apart u fl (i # own) R \<Longrightarrow> ids_apart u (fmupd i t fl) own R"
  by (auto simp: ids_apart_def)

lemma ids_apart_take:
  "ids_apart u fl [] R \<Longrightarrow> i |\<in>| fmdom fl \<Longrightarrow> ids_apart u (fmdrop i fl) [i] R"
  by (auto simp: ids_apart_def)

lemma ids_apart_drop: "ids_apart u fl own R \<Longrightarrow> ids_apart u (fmdrop i fl) own R"
  by (auto simp: ids_apart_def)

lemma ids_apart_forget: "ids_apart u fl own R \<Longrightarrow> ids_apart u fl [] R"
  by (auto simp: ids_apart_def)

lemma ids_apart_replace: "ids_apart u fl own R \<Longrightarrow> i |\<in>| fmdom fl \<Longrightarrow> ids_apart u (fmupd i t fl) own R"
  by (auto simp: ids_apart_def)

lemma ids_apart_fresh: "ids_apart u fl [] R \<Longrightarrow> ids_apart (sdrop n u) fl (stake n u) R"
  using unrepeated_stake [of u n] unrepeated_sdrop [of u n]
  unfolding ids_apart_def by (blast dest: set_stake_subset sset_sdrop_subset)

lemma ids_apart_next: "ids_apart u fl [] R \<Longrightarrow> ids_apart (stl u) fl [shd u] R"
  using ids_apart_fresh [of u fl R 1] by simp

lemma ids_apart_free: "ids_apart u fl (i # own) R \<Longrightarrow> fmlookup fl i = None"
  by (auto simp: ids_apart_def fmdom_lookup)

definition local_ok :: "pc \<Rightarrow> storage \<Rightarrow> string set \<Rightarrow> bool" where
  "local_ok pc s R \<longleftrightarrow>
     flights_ok (queues s) (in_flight s) \<and> ids_apart (uuids s) (in_flight s) (owned pc) R \<and>
     pc_ok pc (queues s)"

section \<open>The account of one step\<close>

text \<open>The payloads a step takes in, releases, or loses.\<close>

fun accepted_at :: "pc \<Rightarrow> storage \<Rightarrow> byte list multiset" where
  "accepted_at (Enqueue_push q d) s = (if q |\<in>| fmdom (queues s) then {#d#} else {#})"
| "accepted_at (Enqueue_batch_push q ds) s = (if q |\<in>| fmdom (queues s) then mset ds else {#})"
| "accepted_at _ s = {#}"

fun released_at :: "pc \<Rightarrow> storage \<Rightarrow> byte list multiset" where
  "released_at (Begin (Ack_one i)) s = named [i] (in_flight s)"
| "released_at (Ack_batch_remove (i # ids)) s = named [i] (in_flight s)"
| "released_at _ s = {#}"

fun overwritten_at :: "pc \<Rightarrow> storage \<Rightarrow> byte list multiset" where
  "overwritten_at (Create_insert n) s = payloads (content n s)"
| "overwritten_at _ s = {#}"

definition step_ok :: "pc \<Rightarrow> storage \<Rightarrow> string set \<Rightarrow> pc \<times> storage \<Rightarrow> bool" where
  "step_ok pc s R x \<longleftrightarrow>
     local_ok (fst x) (snd x) R \<and> fmdom (queues s) |\<subseteq>| fmdom (queues (snd x)) \<and>
     messages (snd x) + in_hand (fst x) + (released_at pc s + overwritten_at pc s) =
       messages s + in_hand pc + accepted_at pc s"

lemma step_logging:
  assumes "\<And>e w c. step_ok pc s R (f e (s\<lparr>wal := w, clock := c\<rparr>))"
    and "\<And>w c. step_ok pc s R (g (s\<lparr>wal := w, clock := c\<rparr>))"
  shows "step_ok pc s R (logging X a f g s)"
  by (cases X a s rule: step_cases) (use assms in \<open>auto simp: logging_def log_op_step\<close>)

lemma content_lookup: "q |\<in>| fmdom (queues s) \<Longrightarrow> fmlookup (queues s) q = Some (content q s)"
  by (auto simp: content_def fmdom_lookup)

lemma queued_put:
  "queued (fmupd q xs (queues s)) + payloads (content q s) = payloads xs + queued (queues s)"
  by (cases "fmlookup (queues s) q") (simp_all add: content_def queued_new queued_replace)

lemma after_nack_simps [simp]:
  "in_hand (after_nack k r) = {#}" "owned (after_nack k r) = []" "pc_ok (after_nack k r) qs"
  by (auto simp: after_nack_def split: option.split)

lemma flights_ok_put: "flights_ok qs fl \<Longrightarrow> flights_ok (fmupd q xs qs) fl"
  by (rule flights_ok_upd)

lemma begin_nack_ok:
  assumes "local_ok pc s R" and "owned pc = []" and "in_hand pc = {#}" and "accepted_at pc s = {#}"
    and "released_at pc s = {#}" and "overwritten_at pc s = {#}"
  shows "step_ok pc s R (begin_nack k i s)"
proof (cases "fmlookup (in_flight s) i")
  case None
  then show ?thesis using assms by (simp add: step_ok_def local_ok_def begin_nack_def)
next
  case (Some t)
  then have "task_id t = i" "task_queue t |\<in>| fmdom (queues s)"
    using assms(1) by (auto simp: local_ok_def flights_ok_def)
  moreover have "i |\<in>| fmdom (in_flight s)" using Some by (simp add: fmdom_lookup)
  ultimately show ?thesis
    using assms Some flying_drop [OF Some]
    by (simp add: step_ok_def local_ok_def begin_nack_def flights_ok_drop ids_apart_take messages_def)
qed

lemma begin_dequeue_ok:
  assumes "local_ok (Begin (Dequeue_one q)) s R"
  shows "step_ok (Begin (Dequeue_one q)) s R (begin_call K (Dequeue_one q) s)"
proof (cases "fmlookup (queues s) q")
  case None
  then show ?thesis using assms by (simp add: step_ok_def local_ok_def)
next
  case (Some xs)
  then have "q |\<in>| fmdom (queues s)" by (simp add: fmdom_lookup)
  then show ?thesis
    using assms Some queued_pop [OF Some, of "{#item_data (hd xs)#}" "tl xs"]
    by (cases xs) (auto simp: step_ok_def local_ok_def messages_def flights_ok_upd ids_apart_next)
qed

lemma begin_dequeue_batch_ok:
  assumes "local_ok (Begin (Dequeue_batch q n)) s R"
  shows "step_ok (Begin (Dequeue_batch q n)) s R (begin_call K (Dequeue_batch q n) s)"
proof (cases "fmlookup (queues s) q")
  case None
  then show ?thesis using assms by (simp add: step_ok_def local_ok_def)
next
  case (Some xs)
  then have "q |\<in>| fmdom (queues s)" by (simp add: fmdom_lookup)
  moreover have "payloads (take (unat n) xs) + queued (fmupd q (drop (unat n) xs) (queues s)) = queued (queues s)"
    by (rule queued_pop [OF Some]) (simp flip: payloads_simps(3))
  ultimately show ?thesis
    using assms Some
    by (auto simp: step_ok_def local_ok_def messages_def flights_ok_upd ids_apart_fresh pop_items_eq
        ac_simps)
qed

lemma begin_ok:
  assumes "local_ok (Begin c) s R"
  shows "step_ok (Begin c) s R (begin_call K c s)"
proof (cases c)
  case (Dequeue_one q)
  then show ?thesis using begin_dequeue_ok assms by simp
next
  case (Dequeue_batch q n)
  then show ?thesis using begin_dequeue_batch_ok assms by simp
next
  case (Nack_one i)
  then show ?thesis using begin_nack_ok [OF assms, of None i] by simp
next
  case (Ack_one i)
  then show ?thesis
    using assms flying_drop [of "in_flight s" i]
    by (auto simp: step_ok_def local_ok_def done_with_def messages_def flights_ok_drop ids_apart_drop
        split: option.split)
next
  case (Cleanup_expired_tasks n)
  then show ?thesis
    using assms scan_state [of K n s]
    by (auto simp: step_ok_def local_ok_def split: prod.split sum.split)
qed (use assms in \<open>auto simp: step_ok_def local_ok_def done_with_def split: option.split\<close>)

lemma insert_task_ok:
  assumes "flights_ok (queues s) (in_flight s)" and "ids_apart (uuids s) (in_flight s) (tid # own) R"
    and "q |\<in>| fmdom (queues s)" and "task_id t = tid" and "task_queue t = q"
  shows "flights_ok (queues s) (fmupd tid t (in_flight s)) \<and>
    ids_apart (uuids s) (fmupd tid t (in_flight s)) own R \<and>
    flying (fmupd tid t (in_flight s)) = add_mset (task_data t) (flying (in_flight s))"
  using assms flights_ok_insert [of "queues s" "in_flight s" t] flying_insert [OF ids_apart_free [OF assms(2)]]
  by (simp add: ids_apart_insert)

lemma step_call_ok:
  assumes "local_ok pc s R"
  shows "step_ok pc s R (step_call X K pc s)"
proof (cases pc)
  case (Begin c)
  then show ?thesis using begin_ok assms by simp
next
  case (Create_log n)
  show ?thesis
    unfolding Create_log step_call.simps
    by (rule step_logging)
      (use assms Create_log in \<open>simp_all add: step_ok_def local_ok_def done_with_def\<close>)
next
  case (Create_insert n)
  then show ?thesis
    using assms queued_put [of n "[]" s]
    by (auto simp: step_ok_def local_ok_def done_with_def messages_def flights_ok_upd ac_simps)
next
  case (Enqueue_log q d)
  show ?thesis
    unfolding Enqueue_log step_call.simps
    by (rule step_logging)
      (use assms Enqueue_log in \<open>simp_all add: step_ok_def local_ok_def done_with_def\<close>)
next
  case (Enqueue_push q d)
  then show ?thesis
    using assms queued_push [of "queues s" q _ "_ @ [\<lparr>item_data = d, item_attempts = 0\<rparr>]" "{#d#}"]
    by (auto simp: step_ok_def local_ok_def done_with_def messages_def flights_ok_upd fmdom_lookup split: option.split)
next
  case (Enqueue_batch_log q ds)
  show ?thesis
    unfolding Enqueue_batch_log step_call.simps
    by (rule step_logging)
      (use assms Enqueue_batch_log in \<open>simp_all add: step_ok_def local_ok_def done_with_def\<close>)
next
  case (Enqueue_batch_push q ds)
  then show ?thesis
    using assms queued_push [of "queues s" q _ "_ @ map fresh_item ds" "mset ds"]
    by (auto simp: step_ok_def local_ok_def done_with_def messages_def flights_ok_upd fmdom_lookup push_all
        split: option.split)
next
  case (Dequeue_log q item tid)
  show ?thesis
    unfolding Dequeue_log step_call.simps
    by (rule step_logging)
      (use assms Dequeue_log queued_put [of q "item # content q s" s] in
        \<open>auto simp: step_ok_def local_ok_def messages_def flights_ok_upd content_def dest: ids_apart_forget\<close>)
next
  case (Dequeue_deliver q item tid)
  then show ?thesis
    using assms insert_task_ok [of s tid "[]" R q "task_of tid q (shd (clock s)) item"]
    by (simp add: step_ok_def local_ok_def messages_def Let_def task_of_def)
next
  case (Dequeue_batch_log q popped ids)
  show ?thesis
    unfolding Dequeue_batch_log step_call.simps
    by (rule step_logging)
      (use assms Dequeue_batch_log queued_put [of q "popped @ content q s" s] in
        \<open>auto simp: step_ok_def local_ok_def messages_def flights_ok_upd content_def push_front_all
          dest: ids_apart_forget\<close>)
next
  case (Dequeue_batch_deliver q todo tasks)
  then show ?thesis
    using assms insert_task_ok [of s _ "map fst (tl todo)" R q "task_of (fst (hd todo)) q (shd (clock s)) (snd (hd todo))"]
    by (cases todo) (auto simp: step_ok_def local_ok_def messages_def Let_def task_of_def)
next
  case (Ack_log i)
  show ?thesis
    unfolding Ack_log step_call.simps
    by (rule step_logging)
      (use assms Ack_log in \<open>simp_all add: step_ok_def local_ok_def done_with_def\<close>)
next
  case (Nack_log k i t)
  show ?thesis
    unfolding Nack_log step_call.simps
    by (rule step_logging)
      (use assms Nack_log in \<open>auto simp: step_ok_def local_ok_def dest: ids_apart_forget\<close>)
next
  case (Nack_restore k i t e)
  then show ?thesis
    using assms insert_task_ok [of s i "[]" R "task_queue t" t]
    by (simp add: step_ok_def local_ok_def messages_def)
next
  case (Nack_return k t)
  have "flights_ok (returned t (queues s)) (in_flight s)"
    using assms by (intro flights_ok_mono [OF _ fmdom_returned]) (simp_all add: local_ok_def)
  then show ?thesis
    using assms Nack_return queued_returned [of t "queues s"] fmdom_returned [of "queues s" t]
    by (auto simp: step_ok_def local_ok_def requeue_eq messages_def dest: ids_apart_forget)
next
  case (Extend_log i dur)
  show ?thesis
    unfolding Extend_log step_call.simps
    by (rule step_logging)
      (use assms Extend_log in \<open>simp_all add: step_ok_def local_ok_def done_with_def\<close>)
next
  case (Extend_update i)
  have "flights_ok (queues s) (fmupd i (t\<lparr>consumed_at := a\<rparr>) (in_flight s))"
    if "fmlookup (in_flight s) i = Some t" for t a
    using that assms by (auto simp: local_ok_def flights_ok_def)
  then show ?thesis
    using assms Extend_update
    by (auto simp: step_ok_def local_ok_def done_with_def messages_def flying_replace ids_apart_replace
        fmdom_lookup split: option.split)
next
  case (Ack_batch_check ids todo missing)
  then show ?thesis
    using assms by (cases todo) (simp_all add: step_ok_def local_ok_def done_with_def)
next
  case (Ack_batch_log ids)
  show ?thesis
    unfolding Ack_batch_log step_call.simps
    by (rule step_logging)
      (use assms Ack_batch_log in \<open>simp_all add: step_ok_def local_ok_def done_with_def\<close>)
next
  case (Ack_batch_remove ids)
  then show ?thesis
    using assms flying_drop_all [of "[hd ids]" "in_flight s"]
    by (cases ids) (auto simp: step_ok_def local_ok_def done_with_def messages_def flights_ok_drop ids_apart_drop
        split: option.splits)
next
  case (Cleanup_next ids n)
  then show ?thesis
    using assms begin_nack_ok [of pc s R]
    by (cases ids) (simp_all add: step_ok_def local_ok_def)
qed (use assms in \<open>simp_all add: step_ok_def local_ok_def\<close>)

section \<open>The whole system\<close>

definition sys_ok :: "system \<Rightarrow> bool" where
  "sys_ok y \<longleftrightarrow>
     flights_ok (queues (shared y)) (in_flight (shared y)) \<and>
     ids_apart (uuids (shared y)) (in_flight (shared y)) (concat (map owned (threads y))) {} \<and>
     (\<forall>pc\<in>set (threads y). pc_ok pc (queues (shared y)))"

text \<open>Everything the server still has: in the maps and in the hands of calls under way.\<close>

definition held :: "system \<Rightarrow> byte list multiset" where
  "held y = messages (shared y) + sum_list (map in_hand (threads y))"

fun ended :: "pc \<Rightarrow> bool" where
  "ended (Finished r) = True"
| "ended Abandoned = True"
| "ended _ = False"

definition can_run :: "nat \<Rightarrow> system \<Rightarrow> bool" where
  "can_run i y \<longleftrightarrow>
     i < length (threads y) \<and> touches (threads y ! i) \<inter> held_by_others i (threads y) = {}"

definition can_abandon :: "nat \<Rightarrow> system \<Rightarrow> bool" where
  "can_abandon i y \<longleftrightarrow> i < length (threads y) \<and> at_log (threads y ! i) \<and> wal (shared y) \<noteq> None"

text \<open>What an event of a schedule takes in, releases to the client, or loses.\<close>

fun accepted_by :: "schedule_event \<Rightarrow> system \<Rightarrow> byte list multiset" where
  "accepted_by (Run i) y = (if can_run i y then accepted_at (threads y ! i) (shared y) else {#})"
| "accepted_by _ y = {#}"

fun released_by :: "schedule_event \<Rightarrow> system \<Rightarrow> byte list multiset" where
  "released_by (Run i) y = (if can_run i y then released_at (threads y ! i) (shared y) else {#})"
| "released_by _ y = {#}"

fun lost_by :: "schedule_event \<Rightarrow> system \<Rightarrow> byte list multiset" where
  "lost_by (Arrive c) y = {#}"
| "lost_by (Run i) y = (if can_run i y then overwritten_at (threads y ! i) (shared y) else {#})"
| "lost_by (Abandon i) y = (if can_abandon i y then in_hand (threads y ! i) else {#})"

lemma sys_step_run:
  "sys_step X K (Run i) y =
     (if can_run i y
      then (case step_call X K (threads y ! i) (shared y) of
              (pc, s) \<Rightarrow> \<lparr>threads = (threads y)[i := pc], shared = s\<rparr>)
      else y)"
  by (simp add: can_run_def)

lemma sys_step_abandon:
  "sys_step X K (Abandon i) y = (if can_abandon i y then y\<lparr>threads := (threads y)[i := Abandoned]\<rparr> else y)"
  by (simp add: can_abandon_def)

lemma ids_apart_split:
  "ids_apart u fl (A @ own @ B) {} \<longleftrightarrow> ids_apart u fl own (set A \<union> set B) \<and> distinct (A @ B)"
  unfolding ids_apart_def by auto

lemma pc_ok_mono: "pc_ok pc qs \<Longrightarrow> fmdom qs |\<subseteq>| fmdom qs' \<Longrightarrow> pc_ok pc qs'"
  by (cases pc) auto

text \<open>The identifiers of the calls other than the one between \<open>xs\<close> and \<open>ys\<close>.\<close>

definition others :: "pc list \<Rightarrow> pc list \<Rightarrow> string set" where
  "others xs ys = set (concat (map owned xs)) \<union> set (concat (map owned ys))"

lemma sys_ok_split:
  "sys_ok \<lparr>threads = xs @ pc # ys, shared = s\<rparr> \<longleftrightarrow>
     local_ok pc s (others xs ys) \<and> distinct (concat (map owned xs) @ concat (map owned ys)) \<and>
     (\<forall>pc\<in>set (xs @ ys). pc_ok pc (queues s))"
  using ids_apart_split [of "uuids s" "in_flight s" "concat (map owned xs)" "owned pc" "concat (map owned ys)"]
  by (auto simp: sys_ok_def local_ok_def others_def)

lemma held_split: "held \<lparr>threads = xs @ pc # ys, shared = s\<rparr> =
    messages s + in_hand pc + sum_list (map in_hand (xs @ ys))"
  by (simp add: held_def ac_simps)

lemma sys_ok_pc: "sys_ok y \<Longrightarrow> can_run i y \<Longrightarrow> pc_ok (threads y ! i) (queues (shared y))"
  by (simp add: sys_ok_def can_run_def)

text \<open>A step of one call, and the end of one, between the other calls.\<close>

lemma run_at:
  assumes "can_run i y"
  obtains xs pc ys pc' s' where "y = \<lparr>threads = xs @ pc # ys, shared = shared y\<rparr>"
    and "threads y ! i = pc" and "step_call X K pc (shared y) = (pc', s')"
    and "touches pc \<inter> \<Union> (set (map holds (xs @ ys))) = {}"
    and "sys_step X K (Run i) y = \<lparr>threads = xs @ pc' # ys, shared = s'\<rparr>"
proof -
  let ?xs = "take i (threads y)" and ?pc = "threads y ! i" and ?ys = "drop (Suc i) (threads y)"
  have i: "i < length (threads y)" and free: "touches ?pc \<inter> \<Union> (set (map holds (?xs @ ?ys))) = {}"
    using assms by (simp_all add: can_run_def held_by_others_def)
  obtain pc' s' where step: "step_call X K ?pc (shared y) = (pc', s')" by fastforce
  have "y = \<lparr>threads = ?xs @ ?pc # ?ys, shared = shared y\<rparr>" using id_take_nth_drop [OF i] by simp
  moreover have "sys_step X K (Run i) y = \<lparr>threads = ?xs @ pc' # ?ys, shared = s'\<rparr>"
    using assms step upd_conv_take_nth_drop [OF i] by (simp add: sys_step_run del: sys_step.simps)
  ultimately show thesis using that step free by blast
qed

lemma abandon_at:
  assumes "can_abandon i y"
  obtains xs pc ys where "y = \<lparr>threads = xs @ pc # ys, shared = shared y\<rparr>" and "threads y ! i = pc"
    and "sys_step X K (Abandon i) y = \<lparr>threads = xs @ Abandoned # ys, shared = shared y\<rparr>"
proof -
  let ?xs = "take i (threads y)" and ?pc = "threads y ! i" and ?ys = "drop (Suc i) (threads y)"
  have i: "i < length (threads y)" using assms by (simp add: can_abandon_def)
  have "y = \<lparr>threads = ?xs @ ?pc # ?ys, shared = shared y\<rparr>" using id_take_nth_drop [OF i] by simp
  moreover have "sys_step X K (Abandon i) y = \<lparr>threads = ?xs @ Abandoned # ?ys, shared = shared y\<rparr>"
    using assms upd_conv_take_nth_drop [OF i] by (simp add: sys_step_abandon del: sys_step.simps)
  ultimately show thesis using that by blast
qed

text \<open>The next two lemmas are the whole argument: a step of one call, and the end of one.\<close>

lemma one_call_steps:
  assumes "sys_ok \<lparr>threads = xs @ pc # ys, shared = s\<rparr>" and "step_call X K pc s = (pc', s')"
  shows "sys_ok \<lparr>threads = xs @ pc' # ys, shared = s'\<rparr>"
    and "held \<lparr>threads = xs @ pc' # ys, shared = s'\<rparr> + (released_at pc s + overwritten_at pc s) =
      held \<lparr>threads = xs @ pc # ys, shared = s\<rparr> + accepted_at pc s"
proof -
  have ok: "step_ok pc s (others xs ys) (pc', s')"
    using step_call_ok [of pc s "others xs ys" X K] assms by (simp add: sys_ok_split)
  then show "sys_ok \<lparr>threads = xs @ pc' # ys, shared = s'\<rparr>"
    using assms(1) pc_ok_mono unfolding sys_ok_split step_ok_def fst_conv snd_conv by blast
  have "messages s' + in_hand pc' + (released_at pc s + overwritten_at pc s) =
      messages s + in_hand pc + accepted_at pc s"
    using ok by (simp add: step_ok_def)
  then show "held \<lparr>threads = xs @ pc' # ys, shared = s'\<rparr> + (released_at pc s + overwritten_at pc s) =
      held \<lparr>threads = xs @ pc # ys, shared = s\<rparr> + accepted_at pc s"
    unfolding held_split by (metis (no_types, lifting) add.assoc add.commute)
qed

lemma one_call_ends:
  assumes "sys_ok \<lparr>threads = xs @ pc # ys, shared = s\<rparr>"
  shows "sys_ok \<lparr>threads = xs @ Abandoned # ys, shared = s\<rparr>"
    and "held \<lparr>threads = xs @ Abandoned # ys, shared = s\<rparr> + in_hand pc =
      held \<lparr>threads = xs @ pc # ys, shared = s\<rparr>"
  using assms ids_apart_forget by (auto simp: sys_ok_split local_ok_def held_split ac_simps)

lemma sys_step_ok:
  assumes "sys_ok y"
  shows "sys_ok (sys_step X K e y)"
    and "held (sys_step X K e y) + (released_by e y + lost_by e y) = held y + accepted_by e y"
proof -
  have "sys_ok (sys_step X K e y) \<and>
    held (sys_step X K e y) + (released_by e y + lost_by e y) = held y + accepted_by e y"
  proof (cases e)
    case (Arrive c)
    then show ?thesis using assms by (simp add: sys_ok_def held_def)
  next
      case (Run i)
    show ?thesis
    proof (cases "can_run i y")
      case True
      then obtain xs pc ys pc' s' where y: "y = \<lparr>threads = xs @ pc # ys, shared = shared y\<rparr>"
        "threads y ! i = pc" and step: "step_call X K pc (shared y) = (pc', s')"
        and y': "sys_step X K (Run i) y = \<lparr>threads = xs @ pc' # ys, shared = s'\<rparr>"
        by (rule run_at [where X = X and K = K])
      have "sys_ok \<lparr>threads = xs @ pc # ys, shared = shared y\<rparr>" using assms y(1) by simp
      from one_call_steps [OF this step] show ?thesis
        using True y y' Run by (simp only: accepted_by.simps released_by.simps lost_by.simps) simp
    qed (use assms Run in \<open>simp add: sys_step_run del: sys_step.simps\<close>)
  next
    case (Abandon i)
    show ?thesis
    proof (cases "can_abandon i y")
      case True
      then obtain xs pc ys where y: "y = \<lparr>threads = xs @ pc # ys, shared = shared y\<rparr>" "threads y ! i = pc"
        and y': "sys_step X K (Abandon i) y = \<lparr>threads = xs @ Abandoned # ys, shared = shared y\<rparr>"
        by (rule abandon_at [where X = X and K = K])
      have "sys_ok \<lparr>threads = xs @ pc # ys, shared = shared y\<rparr>" using assms y(1) by simp
      from one_call_ends [OF this] show ?thesis
        using True y y' Abandon by (simp only: accepted_by.simps released_by.simps lost_by.simps) simp
    qed (use assms Abandon in \<open>simp add: sys_step_abandon del: sys_step.simps\<close>)
  qed
  then show "sys_ok (sys_step X K e y)"
    and "held (sys_step X K e y) + (released_by e y + lost_by e y) = held y + accepted_by e y" by auto
qed

interpretation calls: accounted "sys_step X K" sys_ok held accepted_by "\<lambda>e y. released_by e y + lost_by e y"
  for X :: codec and K :: key_order
  by unfold_locales (simp_all only: sys_step_ok)

lemma total_plus: "total step (\<lambda>c s. f c s + g c s) cs s = total step f cs s + total step g cs s"
  by (induction cs arbitrary: s) (simp_all add: ac_simps)

lemma sys_ok_idle: "well_formed s \<Longrightarrow> sys_ok (idle_system s)"
  by (auto simp: sys_ok_def idle_system_def well_formed_def ids_ok_def ids_apart_def)

lemma held_idle: "held (idle_system s) = messages s"
  by (simp add: held_def idle_system_def)

text \<open>
  C4: the account of messages under concurrency is exact. Let any calls arrive at any time, run
  their steps in any order, fail to log, wait for each other, and be abandoned. Then what the server
  holds, in its maps and in the hands of calls under way, together with what it released to
  acknowledgements and what it lost, is what it held at the start and what enqueues put in; and it
  loses messages in two ways only: a \<^verbatim>\<open>create_queue\<close> that finishes over a queue made since
  its check (the content of that queue), and a call abandoned while it waits for the log (what it
  had taken out of the maps).
\<close>

theorem concurrent_account:
  assumes "well_formed s"
  shows "held (run (sys_step X K) events (idle_system s)) +
      (total (sys_step X K) released_by events (idle_system s) +
       total (sys_step X K) lost_by events (idle_system s)) =
    messages s + total (sys_step X K) accepted_by events (idle_system s)"
  using calls.run_balance [OF sys_ok_idle [OF assms], of X K events]
  by (simp add: total_plus held_idle)

section \<open>No loss\<close>

text \<open>Schedules without \<^verbatim>\<open>create_queue\<close> and without abandoned calls.\<close>

fun harmless :: "schedule_event \<Rightarrow> bool" where
  "harmless (Arrive (Create_queue n)) = False"
| "harmless (Abandon i) = False"
| "harmless _ = True"

fun creating :: "pc \<Rightarrow> bool" where
  "creating (Begin (Create_queue n)) = True"
| "creating (Create_log n) = True"
| "creating (Create_insert n) = True"
| "creating _ = False"

lemma creating_simps [simp]: "\<not> creating (after_nack k r)"
  by (auto simp: after_nack_def split: option.split)

lemma not_creating_begin:
  assumes "\<not> creating (Begin c)" shows "\<not> creating (fst (begin_call K c s))"
proof (cases c)
  case (Cleanup_expired_tasks n)
  then show ?thesis by (simp split: prod.split sum.split)
qed (use assms in \<open>auto simp: done_with_def begin_nack_def Let_def split: option.split list.split prod.split\<close>)

lemma not_creating_step:
  assumes "\<not> creating pc" shows "\<not> creating (fst (step_call X K pc s))"
proof (cases "(X, K, pc, s)" rule: step_call.cases)
  case (1 X K c s)
  then show ?thesis using not_creating_begin assms by simp
qed (use assms in \<open>auto simp: done_with_def begin_nack_def logging_def Let_def
    split: option.split prod.split sum.split\<close>)

lemma harmless_step:
  assumes "harmless e" and "\<forall>pc\<in>set (threads y). \<not> creating pc"
  shows "(\<forall>pc\<in>set (threads (sys_step X K e y)). \<not> creating pc) \<and> lost_by e y = {#}"
proof (cases e)
  case (Arrive c)
  then show ?thesis using assms by (cases c) auto
next
  case (Run i)
  have "\<not> creating pc \<Longrightarrow> overwritten_at pc s = {#}" for pc s by (cases pc) auto
  then show ?thesis
    using assms(2) Run not_creating_step [of "threads y ! i" X K "shared y"]
    by (auto simp: can_run_def split: prod.split dest!: subsetD [OF set_update_subset_insert])
next
  case (Abandon i)
  then show ?thesis using assms(1) by simp
qed

lemma harmless_lost:
  "\<forall>e\<in>set events. harmless e \<Longrightarrow> \<forall>pc\<in>set (threads y). \<not> creating pc \<Longrightarrow>
     total (sys_step X K) lost_by events y = {#}"
proof (induction events arbitrary: y)
  case (Cons e events)
  then show ?case using harmless_step [of e y X K] by simp
qed simp

text \<open>
  Concurrent calls on existing queues lose nothing. In a schedule without
  \<^verbatim>\<open>create_queue\<close> and in which no call is abandoned, whatever the calls and their
  interleaving and whatever fails to be logged, what the server holds and what it released are what
  it held at the start and what it accepted: no message is lost and none is delivered as two.
\<close>

lemma concurrent_calls_keep_messages:
  assumes "well_formed s" and "\<forall>e\<in>set events. harmless e"
  shows "held (run (sys_step X K) events (idle_system s)) +
      total (sys_step X K) released_by events (idle_system s) =
    messages s + total (sys_step X K) accepted_by events (idle_system s)"
  using calls.run_balance [OF sys_ok_idle [OF assms(1)], of X K events]
    harmless_lost [OF assms(2), of "idle_system s" X K]
  by (simp add: total_plus held_idle) (simp add: idle_system_def)

end
