(* ===== verification/Threads_Runs.thy ===== *)
theory Threads_Runs
  imports Threads_Laws Durability
begin

text \<open>
  Particular schedules: a call that runs alone is the call of the sequential model, and three
  schedules in which concurrent or abandoned calls lose a message or let a restart lose one.
\<close>

section \<open>A call on its own\<close>

definition alone :: "codec \<Rightarrow> key_order \<Rightarrow> pc \<times> storage \<Rightarrow> pc \<times> storage" where
  "alone X K x = (case x of (pc, s) \<Rightarrow> step_call X K pc s)"

definition leads :: "codec \<Rightarrow> key_order \<Rightarrow> pc \<times> storage \<Rightarrow> pc \<times> storage \<Rightarrow> bool" where
  "leads X K x y \<longleftrightarrow> (\<exists>n. (alone X K ^^ n) x = y)"

lemma alone_pair [simp]: "alone X K (pc, s) = step_call X K pc s"
  by (simp add: alone_def)

lemma leads_refl: "leads X K x x"
  unfolding leads_def by (rule exI [of _ 0]) simp

lemma leads_step: "leads X K (step_call X K pc s) y \<Longrightarrow> leads X K (pc, s) y"
  unfolding leads_def by (metis alone_pair comp_apply funpow_Suc_right)

lemma leads_trans: "leads X K x y \<Longrightarrow> leads X K y z \<Longrightarrow> leads X K x z"
  unfolding leads_def by (metis comp_apply funpow_add)

text \<open>Three steps are enough for a call without a loop.\<close>

lemma leads_three: "alone X K (alone X K (alone X K x)) = y \<Longrightarrow> leads X K x y"
  unfolding leads_def by (rule exI [of _ 3]) (simp add: numeral_3_eq_3)

lemma nack_alone:
  "leads X K (begin_nack k i s) (after_nack k (fst (nack X i s)), snd (nack X i s))"
proof (cases "fmlookup (in_flight s) i")
  case None
  then show ?thesis by (simp add: begin_nack_def nack_missing leads_refl)
next
  case (Some t)
  show ?thesis
    by (cases X "Nack i" s rule: step_cases)
      (use Some in \<open>auto simp: begin_nack_def nack_failed nack_logged logging_def log_op_step fmupd_same
        requeue_def Let_def intro!: leads_step leads_refl split: prod.split option.split\<close>)
qed

lemma cleanup_alone:
  "leads X K (Cleanup_next ids n, s)
     (Finished (Cleaned (Inr (fst (nack_all X ids n s)))), snd (nack_all X ids n s))"
proof (induction ids arbitrary: n s)
  case Nil
  show ?case by (rule leads_step) (simp add: leads_refl)
next
  case (Cons i ids)
  have "leads X K (Cleanup_next (i # ids) n, s)
      (after_nack (Some (ids, n)) (fst (nack X i s)), snd (nack X i s))"
    by (rule leads_step) (simp add: nack_alone)
  from leads_trans [OF this] show ?case
    using Cons.IH by (auto simp: after_nack_def split: prod.split sum.split)
qed

lemma deliver_alone:
  "leads X K (Dequeue_batch_deliver q todo tasks, s)
     (Finished (Delivered_batch (Inr (tasks @ fst (deliver_items q todo s)))), snd (deliver_items q todo s))"
proof (induction todo arbitrary: tasks s)
  case Nil
  show ?case by (rule leads_step) (simp add: leads_refl)
next
  case (Cons x todo)
  obtain tid item where x: "x = (tid, item)" by fastforce
  show ?case
    by (rule leads_step) (use Cons.IH in \<open>simp add: x Let_def split: prod.split\<close>, metis append.assoc append_Cons append_Nil fst_conv snd_conv)
qed

lemma check_alone:
  "leads X K (Ack_batch_check ids todo missing, s)
     (Ack_batch_check ids [] (missing @ missing_tasks todo s), s)"
proof (induction todo arbitrary: missing)
  case Nil
  show ?case by (simp add: missing_tasks_def leads_refl)
next
  case (Cons i todo)
  show ?case
    by (rule leads_step)
      (use Cons.IH [of missing] Cons.IH [of "missing @ [i]"] in \<open>simp add: missing_tasks_def\<close>)
qed

lemma remove_alone:
  "leads X K (Ack_batch_remove ids, s)
     (Finished (Done (Inr ())), s\<lparr>in_flight := drop_all ids (in_flight s)\<rparr>)"
proof (induction ids arbitrary: s)
  case Nil
  show ?case by (rule leads_step) (simp add: done_with_def leads_refl)
next
  case (Cons i ids)
  show ?case by (rule leads_step) (use Cons.IH [of "s\<lparr>in_flight := fmdrop i (in_flight s)\<rparr>"] in simp)
qed

lemma batch_alone:
  "leads X K (Begin (Dequeue_batch q n), s)
     (Finished (Delivered_batch (fst (dequeue_batch X q n s))), snd (dequeue_batch X q n s))"
proof (cases "fmlookup (queues s) q")
  case None
  then show ?thesis by (simp add: dequeue_batch_missing leads_three)
next
  case (Some xs)
  obtain popped rest where pop: "pop_items (unat n) xs = (popped, rest)" by fastforce
  show ?thesis
  proof (cases "xs = [] \<or> capacity_overflow queue_item_size (unat n) \<or> popped = []")
    case True
    then show ?thesis using Some pop by (auto simp: dequeue_batch_def intro: leads_three)
  next
    case False
    let ?ids = "stake (length popped) (uuids s)"
    let ?s = "s\<lparr>queues := fmupd q rest (queues s), uuids := sdrop (length popped) (uuids s)\<rparr>"
    have start: "leads X K (Begin (Dequeue_batch q n), s) (Dequeue_batch_log q popped ?ids, ?s)"
      using Some pop False by (intro leads_step) (simp add: leads_refl)
    have "leads X K (Dequeue_batch_log q popped ?ids, ?s)
      (Finished (Delivered_batch (fst (dequeue_batch X q n s))), snd (dequeue_batch X q n s))"
      by (cases X "DequeuedBatch q ?ids" ?s rule: step_cases; rule leads_step)
        (use Some pop False deliver_alone [where tasks = "[]"] in
          \<open>auto simp: dequeue_batch_def Let_def logging_def log_op_step content_def leads_refl split: prod.split\<close>,
          metis append_Nil fst_conv snd_conv)
    with start show ?thesis by (rule leads_trans)
  qed
qed

lemma ack_batch_alone:
  "leads X K (Begin (Ack_batch ids), s) (Finished (Done (fst (ack_batch X ids s))), snd (ack_batch X ids s))"
proof -
  have start: "leads X K (Begin (Ack_batch ids), s) (Ack_batch_check ids [] (missing_tasks ids s), s)"
    using check_alone [of X K ids ids "[]" s] by (intro leads_step) simp
  have "leads X K (Ack_batch_check ids [] (missing_tasks ids s), s)
      (Finished (Done (fst (ack_batch X ids s))), snd (ack_batch X ids s))"
  proof (cases "missing_tasks ids s = []")
    case False
    then show ?thesis by (auto simp: ack_batch_missing done_with_def intro: leads_three)
  next
    case True
    have log: "leads X K (Ack_batch_check ids [] (missing_tasks ids s), s) (Ack_batch_log ids, s)"
      by (rule leads_step) (simp add: True leads_refl)
    have "leads X K (Ack_batch_log ids, s) (Finished (Done (fst (ack_batch X ids s))), snd (ack_batch X ids s))"
      by (cases X "AckBatch ids" s rule: step_cases; rule leads_step)
        (use True remove_alone [of X K ids "s\<lparr>wal := _, clock := _\<rparr>"] in
          \<open>auto simp: ack_batch_failed ack_batch_logged logging_def log_op_step done_with_def leads_refl\<close>)
    with log show ?thesis by (rule leads_trans)
  qed
  with start show ?thesis by (rule leads_trans)
qed

lemma single_alone:
  "leads X K (Begin (Create_queue q), s) (Finished (Done (fst (create_queue X q s))), snd (create_queue X q s))"
  "leads X K (Begin (Queue q d), s) (Finished (Done (fst (queue X q d s))), snd (queue X q d s))"
  "leads X K (Begin (Queue_batch q ds), s) (Finished (Done (fst (queue_batch X q ds s))), snd (queue_batch X q ds s))"
  "leads X K (Begin (Dequeue_one q), s) (Finished (Delivered (fst (dequeue X q s))), snd (dequeue X q s))"
  "leads X K (Begin (Ack_one i), s) (Finished (Done (fst (ack X i s))), snd (ack X i s))"
  "leads X K (Begin (Extend_visibility i n), s)
     (Finished (Done (fst (extend_visibility X i n s))), snd (extend_visibility X i n s))"
  by (rule leads_three,
      auto simp: op_defs step_defs log_op_step content_def Let_def fmdom_lookup split: prod.split sum.split option.split list.split)+

lemma begin_alone: "leads X K (Begin c, s) (Finished (fst (perform X K c s)), snd (perform X K c s))"
proof (cases c)
  case (Nack_one i)
  have "leads X K (Begin (Nack_one i), s) (after_nack None (fst (nack X i s)), snd (nack X i s))"
    by (rule leads_step) (simp add: nack_alone)
  then show ?thesis using Nack_one by (simp add: after_nack_def)
next
  case (Cleanup_expired_tasks n)
  have "leads X K (Cleanup_next ids 0, s1) (Finished (Cleaned (Inr m)), s2)" if "nack_all X ids 0 s1 = (m, s2)"
    for ids s1 m s2
    using cleanup_alone [of X K ids 0 s1] that by simp
  then show ?thesis
    unfolding Cleanup_expired_tasks
    by (intro leads_step) (auto simp: cleanup_expired_tasks_def leads_refl split: prod.split sum.split)
next
  case Get_stats
  then show ?thesis by (auto intro: leads_three)
qed (simp_all add: single_alone batch_alone ack_batch_alone)

lemma run_alone:
  "run (sys_step X K) (replicate n (Run 0)) \<lparr>threads = [pc], shared = s\<rparr> =
     (case (alone X K ^^ n) (pc, s) of (pc', s') \<Rightarrow> \<lparr>threads = [pc'], shared = s'\<rparr>)"
proof (induction n arbitrary: pc s)
  case (Suc n)
  obtain pc' s' where "step_call X K pc s = (pc', s')" by fastforce
  then show ?case using Suc by (simp add: held_by_others_def funpow_swap1)
qed simp

text \<open>
  C10: cutting the calls into steps changes nothing for a call that runs alone. For every call of the
  trait and every state, running its steps without another call in between gives, after finitely
  many of them, the reply and the storage that the sequential model gives.
\<close>

theorem alone_call_is_sequential:
  "\<exists>n. run (sys_step X K) (Arrive c # replicate n (Run 0)) (idle_system s) =
     \<lparr>threads = [Finished (fst (perform X K c s))], shared = snd (perform X K c s)\<rparr>"
proof -
  obtain n where "(alone X K ^^ n) (Begin c, s) = (Finished (fst (perform X K c s)), snd (perform X K c s))"
    using begin_alone [of X K c s] unfolding leads_def by blast
  then have "run (sys_step X K) (Arrive c # replicate n (Run 0)) (idle_system s) =
      \<lparr>threads = [Finished (fst (perform X K c s))], shared = snd (perform X K c s)\<rparr>"
    by (simp add: run_alone idle_system_def)
  then show ?thesis by blast
qed

section \<open>Two creations of one queue\<close>

text \<open>
  Two calls check for the queue; the second makes it, a message is queued, and the first makes it
  again.
\<close>

definition racing_creates :: "string \<Rightarrow> byte list \<Rightarrow> schedule_event list" where
  "racing_creates q d =
     [Arrive (Create_queue q), Arrive (Create_queue q), Run 0, Run 1, Run 1, Run 1,
      Arrive (Queue q d), Run 2, Run 2, Run 2, Run 0, Run 0]"

lemma run_thread:
  assumes "i < length (threads y)" and "touches (threads y ! i) \<inter> held_by_others i (threads y) = {}"
    and "step_call X K (threads y ! i) (shared y) = (pc, s)"
  shows "sys_step X K (Run i) y = \<lparr>threads = (threads y)[i := pc], shared = s\<rparr>"
  using assms by simp

text \<open>
  C14: creating a queue twice at once loses a message that was accepted. On an empty storage whose
  log, if it has one, works, the schedule above answers all three calls with success, yet at its end
  the queue is empty and nothing is in flight: the message is gone.
\<close>

theorem racing_creates_lose_message:
  assumes "log_works X w"
  shows "\<exists>s. run (sys_step X K) (racing_creates q d) (idle_system ((new_storage u c)\<lparr>wal := w\<rparr>)) =
      \<lparr>threads = [Finished (Done (Inr ())), Finished (Done (Inr ())), Finished (Done (Inr ()))], shared = s\<rparr> \<and>
    queues s = fmupd q [] fmempty \<and> in_flight s = fmempty"
proof -
  obtain w1 c1 where 1: "wal_step X (CreateQueue q) w c = (Inr (), w1, c1)" "log_works X w1"
    by (rule log_works_step [OF assms])
  obtain w2 c2 where 2: "wal_step X (Enqueue q d) w1 c1 = (Inr (), w2, c2)" "log_works X w2"
    by (rule log_works_step [OF 1(2)])
  obtain w3 c3 where 3: "wal_step X (CreateQueue q) w2 c2 = (Inr (), w3, c3)"
    by (rule log_works_step [OF 2(2)])
  show ?thesis
    by (simp add: racing_creates_def step_defs new_storage_def log_op_step 1(1) 2(1) 3 eval_nat_numeral)
qed

theorem racing_creates_lose_message_witness:
  "\<exists>s. run (sys_step unary_codec listed) (racing_creates ''q'' [1]) (idle_system ((new_storage numbered (sconst 0))\<lparr>wal := None\<rparr>)) =
      \<lparr>threads = [Finished (Done (Inr ())), Finished (Done (Inr ())), Finished (Done (Inr ()))], shared = s\<rparr> \<and>
    queues s = fmupd ''q'' [] fmempty \<and> in_flight s = fmempty"
  by (rule racing_creates_lose_message [OF log_works_None])

section \<open>Abandoned calls\<close>

text \<open>
  A client that disconnects while its delivery, or its rejection of a task, waits for the log.
  \<open>d\<close> is the payload the call has taken out of the maps by then.
\<close>

definition abandoned_delivery :: "string \<Rightarrow> schedule_event list" where
  "abandoned_delivery q = [Arrive (Dequeue_one q), Run 0, Abandon 0]"

definition abandoned_rejection :: "string \<Rightarrow> schedule_event list" where
  "abandoned_rejection i = [Arrive (Nack_one i), Run 0, Abandon 0]"

definition gives_up :: "storage \<Rightarrow> schedule_event list \<Rightarrow> byte list \<Rightarrow> bool" where
  "gives_up s schedule d \<longleftrightarrow>
     (\<exists>q item rest. fmlookup (queues s) q = Some (item # rest) \<and> item_data item = d \<and>
        schedule = abandoned_delivery q) \<or>
     (\<exists>i t. fmlookup (in_flight s) i = Some t \<and> task_data t = d \<and> schedule = abandoned_rejection i)"

lemma gives_up_balance:
  assumes "gives_up s schedule d" and "wal s = Some m"
  shows "total (sys_step X K) accepted_by schedule (idle_system s) = {#}"
    and "total (sys_step X K) (\<lambda>e y. released_by e y + lost_by e y) schedule (idle_system s) = {#d#}"
    and "wal (shared (run (sys_step X K) schedule (idle_system s))) = Some m"
  using assms
  by (auto simp: gives_up_def abandoned_delivery_def abandoned_rejection_def step_defs can_run_def can_abandon_def)

text \<open>
  C15: a client that disconnects can lose a message. A storage was recovered from its log, on a disk
  that does not fail, and has served any calls. A delivery or the rejection of a task is abandoned
  while it waits for the log: its message has left the maps and is in no call's hands, so the server
  holds one message less; and no later events, however many, bring it back: what is held, released
  and lost from then on is what was left and what later enqueues put in. The log knows nothing of
  it: a restart at that point has every queue and every task as they were before the call.
\<close>

theorem abandoned_call_loses_message:
  assumes "codec_law X" and "log_file X es f"
    and "sset (disk_writes f) \<union> sset (disk_flushes f) \<subseteq> {None}"
    and "new_persistent X f u c = Inr s0" and "s = run (after X K) earlier s0" and "well_formed s"
    and "gives_up s schedule d" and "y = run (sys_step X K) schedule (idle_system s)"
  shows "add_mset d (held y) = messages s \<and>
    add_mset d (held (run (sys_step X K) later y) +
        total (sys_step X K) (\<lambda>e y. released_by e y + lost_by e y) later y) =
      messages s + total (sys_step X K) accepted_by later y \<and>
    (\<exists>m r. wal (shared y) = Some m \<and> new_persistent X (file_after m) u' c' = Inr r \<and>
       view_of r = view_of s)"
proof -
  obtain m r where m: "wal s = Some m" "new_persistent X (file_after m) u' c' = Inr r" "view_of r = view_of s"
    using recovered_view [OF assms(1-4)] unfolding assms(5) by blast
  note none = gives_up_balance [OF assms(7) m(1), of X K]
  have idle: "sys_ok (idle_system s)" by (rule sys_ok_idle [OF assms(6)])
  have lost: "add_mset d (held y) = messages s"
    using calls.run_balance [OF idle, of X K schedule] none(1,2) by (simp add: assms(8) held_idle)
  have "sys_ok y" unfolding assms(8) by (rule calls.inv_run [OF idle])
  from calls.run_balance [OF this, of X K later]
  have "add_mset d (held (run (sys_step X K) later y) +
      total (sys_step X K) (\<lambda>e y. released_by e y + lost_by e y) later y) =
    add_mset d (held y) + total (sys_step X K) accepted_by later y" by simp
  then show ?thesis using lost m none(3) by (auto simp: assms(8))
qed

section \<open>Two messages for one queue\<close>

text \<open>
  Two enqueues write their log entries in one order and push in the other; then a message is
  delivered and acknowledged.
\<close>

definition racing_enqueues :: "string \<Rightarrow> byte list \<Rightarrow> byte list \<Rightarrow> string \<Rightarrow> schedule_event list" where
  "racing_enqueues q a b i =
     [Arrive (Create_queue q), Run 0, Run 0, Run 0,
      Arrive (Queue q a), Arrive (Queue q b), Run 1, Run 2, Run 1, Run 2, Run 2, Run 1,
      Arrive (Dequeue_one q), Run 3, Run 3, Run 3, Arrive (Ack_one i), Run 4, Run 4]"

definition log_holds :: "codec \<Rightarrow> wal_op list \<Rightarrow> wal_manager option \<Rightarrow> bool" where
  "log_holds X as w \<longleftrightarrow> (\<exists>es s. map entry_op es = as \<and> wal s = w \<and> tracks True X es s)"

lemma log_holds_fresh: "log_holds X [] (Some fresh_manager)"
proof -
  have "tracks True X [] ((new_storage numbered (sconst 0))\<lparr>wal := Some fresh_manager\<rparr>)"
    by (simp add: tracks_def io_ok_def fresh_manager_def wal_ready_def perfect_io_def)
  then show ?thesis
    unfolding log_holds_def
    by (intro exI [of _ "[]"] exI [of _ "(new_storage numbered (sconst 0))\<lparr>wal := Some fresh_manager\<rparr>"]) simp
qed

lemma fmmap_emptyD:
  assumes "fmmap f m = fmempty" shows "m = fmempty"
proof (rule fmap_ext)
  fix k
  have "fmlookup (fmmap f m) k = None" by (simp add: assms)
  then show "fmlookup m k = fmlookup fmempty k" by simp
qed

lemma log_holds_step:
  assumes "codec_law X" and "log_holds X as w"
  obtains w' c' where "wal_step X a w c = (Inr (), w', c')" and "log_holds X (as @ [a]) w'"
proof -
  obtain es s where es: "map entry_op es = as" "wal s = w" "tracks True X es (s\<lparr>clock := c\<rparr>)"
    using assms(2) by (auto simp: log_holds_def tracks_def)
  obtain r w' c' where r: "wal_step X a w c = (r, w', c')" by (cases "wal_step X a w c")
  then obtain fs where fs: "tracks True X (es @ fs) (s\<lparr>wal := w'\<rparr>)"
      "map entry_op fs = (if is_ok r then [a] else [])" "is_ok r"
    using wal_step_tracks [OF assms(1) es(3), of a r w' c' "s\<lparr>wal := w'\<rparr>"] es(2) by auto
  have "r = Inr ()" using fs(3) by (cases r) auto
  moreover have "log_holds X (as @ [a]) w'"
    unfolding log_holds_def
    by (rule exI [of _ "es @ fs"], rule exI [of _ "s\<lparr>wal := w'\<rparr>"]) (use fs es(1) in simp)
  ultimately show thesis using that r by simp
qed

lemma log_holds_restart:
  assumes "codec_law X" and "log_holds X as w"
  obtains m r where "w = Some m" and "new_persistent X (file_after m) u c = Inr r"
    and "view_of r = fold apply_op as empty_view"
proof -
  obtain es m where m: "map entry_op es = as" "w = Some m" "wal_ready X es m"
    using assms(2) by (auto simp: log_holds_def tracks_def)
  obtain r where "new_persistent X (file_after m) u c = Inr r"
    "view_of r = fold apply_op (map entry_op es) empty_view"
    using restart_log_file [OF assms(1) log_file_after [OF m(3)]] by metis
  then show thesis using that m by simp
qed

text \<open>
  C13: concurrent enqueues can make a restart redeliver an acknowledged message and lose another. On
  an empty server with a log whose disk never fails, the schedule above answers every call with
  success: the second message is delivered and acknowledged, and the first waits in its queue. But
  the log has the two in the other order, so the server restarted from it has the acknowledged
  message in the queue, and the waiting one is gone.
\<close>

theorem racing_enqueues_cross_the_log:
  assumes "codec_law X"
  shows "\<exists>s now m r. run (sys_step X K) (racing_enqueues q a b (shd u))
        (idle_system ((new_storage u c)\<lparr>wal := Some fresh_manager\<rparr>)) =
      \<lparr>threads = [Finished (Done (Inr ())), Finished (Done (Inr ())), Finished (Done (Inr ())),
                   Finished (Delivered (Inr (Some (task_of (shd u) q now (fresh_item b))))),
                   Finished (Done (Inr ()))], shared = s\<rparr> \<and>
    queues s = fmupd q [fresh_item a] fmempty \<and> in_flight s = fmempty \<and>
    wal s = Some m \<and> new_persistent X (file_after m) u' c' = Inr r \<and>
    queues r = fmupd q [fresh_item b] fmempty \<and> in_flight r = fmempty"
proof -
  obtain w1 c1 where 1: "wal_step X (CreateQueue q) (Some fresh_manager) c = (Inr (), w1, c1)"
      "log_holds X [CreateQueue q] w1"
    using log_holds_step [OF assms log_holds_fresh] by (metis append_Nil)
  obtain w2 c2 where 2: "wal_step X (Enqueue q a) w1 c1 = (Inr (), w2, c2)"
      "log_holds X [CreateQueue q, Enqueue q a] w2"
    using log_holds_step [OF assms 1(2)] by (metis append_Cons append_Nil)
  obtain w3 c3 where 3: "wal_step X (Enqueue q b) w2 c2 = (Inr (), w3, c3)"
      "log_holds X [CreateQueue q, Enqueue q a, Enqueue q b] w3"
    using log_holds_step [OF assms 2(2)] by (metis append_Cons append_Nil)
  obtain w4 c4 where 4: "wal_step X (Dequeued q (shd u)) w3 c3 = (Inr (), w4, c4)"
      "log_holds X [CreateQueue q, Enqueue q a, Enqueue q b, Dequeued q (shd u)] w4"
    using log_holds_step [OF assms 3(2)] by (metis append_Cons append_Nil)
  obtain w5 c5 where 5: "wal_step X (Ack (shd u)) w4 (stl c4) = (Inr (), w5, c5)"
      "log_holds X [CreateQueue q, Enqueue q a, Enqueue q b, Dequeued q (shd u), Ack (shd u)] w5"
    using log_holds_step [OF assms 4(2)] by (metis append_Cons append_Nil)
  obtain m r where r: "w5 = Some m" "new_persistent X (file_after m) u' c' = Inr r"
    "view_of r = fold apply_op [CreateQueue q, Enqueue q a, Enqueue q b, Dequeued q (shd u), Ack (shd u)] empty_view"
    by (rule log_holds_restart [OF assms 5(2)])
  have after: "view_of r = \<lparr>vqueues = fmupd q [fresh_item b] fmempty, vflights = fmempty\<rparr>"
    unfolding r(3) by (simp add: empty_view_def push_def deliver_def)
  let ?s = "\<lparr>queues = fmupd q [fresh_item a] fmempty, in_flight = fmempty, wal = w5, uuids = stl u, clock = c5\<rparr>"
  have "run (sys_step X K) (racing_enqueues q a b (shd u))
        (idle_system ((new_storage u c)\<lparr>wal := Some fresh_manager\<rparr>)) =
      \<lparr>threads = [Finished (Done (Inr ())), Finished (Done (Inr ())), Finished (Done (Inr ())),
                   Finished (Delivered (Inr (Some (task_of (shd u) q (shd c4) (fresh_item b))))),
                   Finished (Done (Inr ()))], shared = ?s\<rparr>"
    by (simp add: racing_enqueues_def step_defs new_storage_def log_op_step 1(1) 2(1) 3(1) 4(1) 5(1) eval_nat_numeral task_of_def fresh_item_def Let_def)
  moreover have "queues r = fmupd q [fresh_item b] fmempty" "in_flight r = fmempty"
    using after by (auto simp: view_of_def intro: fmmap_emptyD)
  ultimately show ?thesis using r(1,2) by fastforce
qed

theorem racing_enqueues_cross_the_log_witness:
  "\<exists>s now m r. run (sys_step unary_codec listed) (racing_enqueues ''q'' [1] [2] (shd numbered))
        (idle_system ((new_storage numbered (sconst 0))\<lparr>wal := Some fresh_manager\<rparr>)) =
      \<lparr>threads = [Finished (Done (Inr ())), Finished (Done (Inr ())), Finished (Done (Inr ())),
                   Finished (Delivered (Inr (Some (task_of (shd numbered) ''q'' now (fresh_item [2]))))),
                   Finished (Done (Inr ()))], shared = s\<rparr> \<and>
    queues s = fmupd ''q'' [fresh_item [1]] fmempty \<and> in_flight s = fmempty \<and>
    wal s = Some m \<and> new_persistent unary_codec (file_after m) numbered (sconst 7) = Inr r \<and>
    queues r = fmupd ''q'' [fresh_item [2]] fmempty \<and> in_flight r = fmempty"
  by (rule racing_enqueues_cross_the_log [OF unary_codec_law])

section \<open>Instances\<close>

lemma one_queued_well_formed:
  "well_formed ((new_storage numbered (sconst 0))\<lparr>queues := fmupd ''q'' [] fmempty\<rparr>)"
  by (simp add: well_formed_def new_storage_def flights_ok_def ids_ok_def)

definition two_clients :: "schedule_event list" where
  "two_clients = [Arrive (Queue ''q'' [1]), Arrive (Queue ''q'' [2]), Run 0, Run 1, Run 1, Run 0, Run 1, Run 0,
     Arrive (Dequeue_one ''q''), Run 2]"

theorem concurrent_account_witness:
  "held (run (sys_step unary_codec listed) two_clients
      (idle_system ((new_storage numbered (sconst 0))\<lparr>queues := fmupd ''q'' [] fmempty\<rparr>))) = {#[1], [2]#}"
  using concurrent_account [OF one_queued_well_formed, of unary_codec listed two_clients]
  by (simp add: two_clients_def step_defs new_storage_def can_run_def log_op_step eval_nat_numeral messages_def queued_def flying_def fm_sum_upd)

lemma concurrent_calls_keep_messages_witness:
  "held (run (sys_step unary_codec listed) two_clients
      (idle_system ((new_storage numbered (sconst 0))\<lparr>queues := fmupd ''q'' [] fmempty\<rparr>))) = {#[1], [2]#}"
proof -
  have "\<forall>e\<in>set two_clients. harmless e" by (simp add: two_clients_def)
  from concurrent_calls_keep_messages [OF one_queued_well_formed this, of unary_codec listed] show ?thesis
    by (simp add: two_clients_def step_defs new_storage_def can_run_def log_op_step eval_nat_numeral messages_def queued_def flying_def fm_sum_upd)
qed

theorem abandoned_call_loses_message_witness:
  "\<exists>s y. y = run (sys_step unary_codec listed) (abandoned_delivery ''q'') (idle_system s) \<and>
    messages s = {#[1]#} \<and> held y = {#} \<and>
    (\<exists>m r. wal (shared y) = Some m \<and> new_persistent unary_codec (file_after m) numbered (sconst 7) = Inr r \<and>
       view_of r = view_of s)"
proof -
  let ?s0 = "(new_storage numbered (sconst 0))\<lparr>wal := Some fresh_manager\<rparr>"
  define s where "s = run (after unary_codec listed) [Create_queue ''q'', Queue ''q'' [1]] ?s0"
  have wf0: "well_formed ?s0" by (simp add: well_formed_def new_storage_def flights_ok_def ids_ok_def)
  have wf: "well_formed s" unfolding s_def by (rule keeps.inv_run [OF wf0])
  obtain w1 c1 where 1: "wal_step unary_codec (CreateQueue ''q'') (Some fresh_manager) (sconst 0) = (Inr (), w1, c1)"
      "log_holds unary_codec [CreateQueue ''q''] w1"
    using log_holds_step [OF unary_codec_law log_holds_fresh] by (metis append_Nil)
  obtain w2 c2 where 2: "wal_step unary_codec (Enqueue ''q'' [1]) w1 c1 = (Inr (), w2, c2)"
    using log_holds_step [OF unary_codec_law 1(2)] by metis
  have s: "queues s = fmupd ''q'' [fresh_item [1]] fmempty" "in_flight s = fmempty"
    by (simp_all add: s_def new_storage_def op_defs log_op_step 1(1) 2 fresh_item_def)
  then have msgs: "messages s = {#[1]#}"
    by (simp add: messages_def queued_def flying_def fm_sum_upd fresh_item_def)
  have "gives_up s (abandoned_delivery ''q'') [1]"
    unfolding gives_up_def using s(1) by (auto simp: fresh_item_def)
  note gone = abandoned_call_loses_message [OF unary_codec_law fresh_disk_log fresh_disk_io new_on_fresh_disk s_def wf
      this refl, where later = "[]" and u' = numbered and c' = "sconst 7"]
  from conjunct1 [OF gone] have "held (run (sys_step unary_codec listed) (abandoned_delivery ''q'') (idle_system s)) = {#}"
    using msgs by simp
  with gone msgs show ?thesis by blast
qed

end
