(* ===== verification/Threads_Once.thy ===== *)
theory Threads_Once
  imports Threads_Runs
begin

text \<open>
  Racing acknowledgements and rejections: under every schedule at most one of the calls that name a
  task settles it. The argument follows the identifier: it is still to be generated, or in the hands
  of one call, or in flight, and nothing brings it back once it is settled. An acknowledgement in a
  batch can be answered with success although it is not the call that settled the task.
\<close>

section \<open>Where an identifier is\<close>

definition marked :: "bool \<Rightarrow> nat" where
  "marked b = (if b then 1 else 0)"

lemma marked_simps [simp]: "marked True = 1" "marked False = 0"
  by (simp_all add: marked_def)

definition token :: "string \<Rightarrow> string list \<Rightarrow> (string, in_flight_task) fmap \<Rightarrow> string stream \<Rightarrow> nat" where
  "token i own fl u = marked (i |\<in>| fmdom fl) + count_list own i + marked (i \<in> sset u)"

text \<open>
  A step settles a task: an acknowledgement removes it, a batch does, or a rejection returns its
  message.
\<close>

fun settles_at :: "string \<Rightarrow> pc \<Rightarrow> storage \<Rightarrow> nat" where
  "settles_at i (Begin (Ack_one j)) s = marked (j = i \<and> j |\<in>| fmdom (in_flight s))"
| "settles_at i (Ack_batch_remove (j # ids)) s = marked (j = i \<and> j |\<in>| fmdom (in_flight s))"
| "settles_at i (Nack_return k t) s = marked (task_id t = i)"
| "settles_at i _ s = 0"

fun settled_by :: "string \<Rightarrow> schedule_event \<Rightarrow> system \<Rightarrow> nat" where
  "settled_by i (Run n) y = (if can_run n y then settles_at i (threads y ! n) (shared y) else 0)"
| "settled_by i _ y = 0"

lemma token_forget: "token i [] fl u \<le> token i own fl u"
  by (simp add: token_def)

lemma token_insert: "token i own (fmupd j t fl) u \<le> token i (j # own) fl u"
  by (auto simp: token_def marked_def)

lemma token_replace: "j |\<in>| fmdom fl \<Longrightarrow> token i own (fmupd j t fl) u = token i own fl u"
  by (auto simp: token_def marked_def)

lemma token_take: "j |\<in>| fmdom fl \<Longrightarrow> token i [j] (fmdrop j fl) u \<le> token i [] fl u"
  by (auto simp: token_def marked_def)

lemma token_drop: "token i [] (fmdrop j fl) u + marked (j = i \<and> j |\<in>| fmdom fl) = token i [] fl u"
  by (auto simp: token_def marked_def)

lemma count_distinct: "distinct xs \<Longrightarrow> count_list xs i = marked (i \<in> set xs)"
  by (induction xs) auto

lemma token_zip: "token i (map fst (zip own xs)) fl u \<le> token i own fl u"
  unfolding token_def by (induction own xs rule: list_induct2') auto

lemma token_fresh:
  assumes "unrepeated u"
  shows "token i (stake n u) fl (sdrop n u) \<le> token i [] fl u"
proof -
  have d: "distinct (stake n u)" "set (stake n u) \<inter> sset (sdrop n u) = {}"
    using unrepeated_stake [OF assms, of n] by simp_all
  have "marked (i \<in> set (stake n u)) + marked (i \<in> sset (sdrop n u)) \<le> marked (i \<in> sset u)"
    using d(2) by (auto simp: marked_def dest: set_stake_subset sset_sdrop_subset)
  then show ?thesis
    using count_distinct [OF d(1), of i] by (simp add: token_def)
qed

lemma token_next: "unrepeated u \<Longrightarrow> token i [shd u] fl (stl u) \<le> token i [] fl u"
  using token_fresh [of u i 1] by simp

section \<open>One step\<close>

definition spends :: "string \<Rightarrow> pc \<Rightarrow> storage \<Rightarrow> pc \<times> storage \<Rightarrow> bool" where
  "spends i pc s x \<longleftrightarrow> 
     token i (owned (fst x)) (in_flight (snd x)) (uuids (snd x)) + settles_at i pc s
       \<le> token i (owned pc) (in_flight s) (uuids s)"

lemma spends_logging:
  assumes "\<And>e w c. spends i pc s (f e (s\<lparr>wal := w, clock := c\<rparr>))"
    and "\<And>w c. spends i pc s (g (s\<lparr>wal := w, clock := c\<rparr>))"
  shows "spends i pc s (logging X a f g s)"
  by (cases X a s rule: step_cases) (use assms in \<open>auto simp: logging_def log_op_step\<close>)

text \<open>Steps that leave the identifiers where they are, or forget some of a call.\<close>

lemma spends_nothing:
  assumes "in_flight (snd x) = in_flight s" and "uuids (snd x) = uuids s"
    and "owned (fst x) = [] \<or> owned (fst x) = owned pc" and "settles_at i pc s = 0"
  shows "spends i pc s x"
  using assms by (auto simp: spends_def token_def)

lemma spends_begin_nack:
  "owned pc = [] \<Longrightarrow> settles_at i pc s = 0 \<Longrightarrow> spends i pc s (begin_nack k j s)"
  by (auto simp: begin_nack_def spends_def fmdom_lookup token_take split: option.split)

lemma spends_begin:
  assumes "unrepeated (uuids s)"
  shows "spends i (Begin c) s (begin_call K c s)"
proof (cases c)
  case (Dequeue_one q)
  then show ?thesis
    using token_next [OF assms, of i] by (auto simp: spends_def split: option.split list.split)
next
  case (Dequeue_batch q n)
  then show ?thesis
    using token_fresh [OF assms, of i] by (auto simp: spends_def split: option.split prod.split)
next
  case (Ack_one j)
  then show ?thesis
    using token_drop [of i j "in_flight s" "uuids s"]
    by (auto simp: spends_def done_with_def fmdom_lookup split: option.split)
next
  case (Nack_one j)
  then show ?thesis using spends_begin_nack [of "Begin c" i s] by simp
next
  case (Cleanup_expired_tasks n)
  then show ?thesis
    using scan_state [of K n s] by (auto intro!: spends_nothing split: prod.split sum.split)
qed (auto simp: done_with_def intro!: spends_nothing split: option.split)

lemma spends_step:
  assumes "unrepeated (uuids s)" and "pc_ok pc (queues s)"
  shows "spends i pc s (step_call X K pc s)"
proof (cases pc)
  case (Begin c)
  then show ?thesis using spends_begin assms(1) by simp
next
  case (Create_log n)
  show ?thesis
    unfolding Create_log step_call.simps
    by (rule spends_logging; rule spends_nothing) (simp_all add: done_with_def)
next
  case (Create_insert n)
  then show ?thesis by (simp add: spends_nothing done_with_def)
next
  case (Enqueue_log q d)
  show ?thesis
    unfolding Enqueue_log step_call.simps
    by (rule spends_logging; rule spends_nothing) (simp_all add: done_with_def)
next
  case (Enqueue_push q d)
  then show ?thesis by (auto simp: done_with_def intro!: spends_nothing split: option.split)
next
  case (Enqueue_batch_log q ds)
  show ?thesis
    unfolding Enqueue_batch_log step_call.simps
    by (rule spends_logging; rule spends_nothing) (simp_all add: done_with_def)
next
  case (Enqueue_batch_push q ds)
  then show ?thesis by (auto simp: done_with_def intro!: spends_nothing split: option.split)
next
  case (Dequeue_log q item tid)
  show ?thesis
    unfolding Dequeue_log step_call.simps
    by (rule spends_logging; rule spends_nothing) simp_all
next
  case (Dequeue_deliver q item tid)
  then show ?thesis by (simp add: spends_def Let_def token_insert)
next
  case (Dequeue_batch_log q popped ids)
  show ?thesis
    unfolding Dequeue_batch_log step_call.simps
    by (rule spends_logging) (auto simp: spends_def token_forget token_zip)
next
  case (Dequeue_batch_deliver q todo tasks)
  then show ?thesis
    by (cases todo) (auto simp: spends_def Let_def token_insert)
next
  case (Ack_log j)
  show ?thesis
    unfolding Ack_log step_call.simps
    by (rule spends_logging; rule spends_nothing) (simp_all add: done_with_def)
next
  case (Nack_log k j t)
  show ?thesis
    by (cases X "Nack j" s rule: step_cases)
      (use assms(2) in \<open>auto simp: Nack_log spends_def logging_def log_op_step token_def marked_def\<close>)
next
  case (Nack_restore k j t e)
  then show ?thesis by (simp add: spends_def token_insert)
next
  case (Nack_return k t)
  then show ?thesis
    using assms(2) by (simp add: spends_def requeue_eq token_def marked_def)
next
  case (Extend_log j dur)
  show ?thesis
    unfolding Extend_log step_call.simps
    by (rule spends_logging; rule spends_nothing) (simp_all add: done_with_def)
next
  case (Extend_update j)
  then show ?thesis
    by (auto simp: spends_def done_with_def token_replace fmdom_lookup split: option.split)
next
  case (Ack_batch_check ids todo missing)
  then show ?thesis by (cases todo) (auto simp: done_with_def intro!: spends_nothing)
next
  case (Ack_batch_log ids)
  show ?thesis
    unfolding Ack_batch_log step_call.simps
    by (rule spends_logging; rule spends_nothing) (simp_all add: done_with_def)
next
  case (Ack_batch_remove ids)
  then show ?thesis
    using token_drop [of i "hd ids" "in_flight s" "uuids s"]
    by (cases ids) (auto simp: done_with_def spends_def)
next
  case (Cleanup_next ids n)
  then show ?thesis
    using spends_begin_nack [of pc i s] by (cases ids) (auto intro: spends_nothing)
qed (simp_all add: spends_nothing)

section \<open>All calls\<close>

definition sys_token :: "string \<Rightarrow> system \<Rightarrow> nat" where
  "sys_token i y =
     token i (concat (map owned (threads y))) (in_flight (shared y)) (uuids (shared y))"

lemma token_split: "token i (xs @ own @ ys) fl u = token i own fl u + count_list (xs @ ys) i"
  by (simp add: token_def)

lemma sys_token_split:
  "sys_token i \<lparr>threads = xs @ pc # ys, shared = s\<rparr> =
     token i (owned pc) (in_flight s) (uuids s) + count_list (concat (map owned (xs @ ys))) i"
  by (simp add: sys_token_def token_split)

lemma sys_ok_unrepeated: "sys_ok y \<Longrightarrow> unrepeated (uuids (shared y))"
  by (simp add: sys_ok_def ids_apart_def)

lemma sys_step_spends:
  assumes "sys_ok y"
  shows "sys_token i (sys_step X K e y) + settled_by i e y \<le> sys_token i y"
proof (cases e)
  case (Arrive c)
  then show ?thesis by (simp add: sys_token_def)
next
  case (Run n)
  show ?thesis
  proof (cases "can_run n y")
    case True
    then obtain xs pc ys pc' s' where y: "y = \<lparr>threads = xs @ pc # ys, shared = shared y\<rparr>"
      "threads y ! n = pc" and step: "step_call X K pc (shared y) = (pc', s')"
      and y': "sys_step X K (Run n) y = \<lparr>threads = xs @ pc' # ys, shared = s'\<rparr>"
      by (rule run_at [where X = X and K = K])
    have "spends i pc (shared y) (pc', s')"
      using spends_step [OF sys_ok_unrepeated [OF assms], of pc i X K] sys_ok_pc [OF assms True] y(2) step
      by simp
    moreover have "sys_token i y = sys_token i \<lparr>threads = xs @ pc # ys, shared = shared y\<rparr>" using y(1) by simp
    ultimately show ?thesis
      using True y(2) unfolding Run y' by (simp add: sys_token_split spends_def)
  qed (simp add: Run sys_step_run del: sys_step.simps)
next
  case (Abandon n)
  show ?thesis
  proof (cases "can_abandon n y")
    case True
    then obtain xs pc ys where y: "y = \<lparr>threads = xs @ pc # ys, shared = shared y\<rparr>"
      and y': "sys_step X K (Abandon n) y = \<lparr>threads = xs @ Abandoned # ys, shared = shared y\<rparr>"
      by (rule abandon_at [where X = X and K = K])
    have "sys_token i y = sys_token i \<lparr>threads = xs @ pc # ys, shared = shared y\<rparr>" using y by simp
    then show ?thesis unfolding Abandon y' by (simp add: sys_token_split token_forget)
  qed (simp add: Abandon sys_step_abandon del: sys_step.simps)
qed

lemma run_spends:
  "sys_ok y \<Longrightarrow>
     sys_token i (run (sys_step X K) events y) + total (sys_step X K) (settled_by i) events y \<le> sys_token i y"
proof (induction events arbitrary: y)
  case (Cons e events)
  have "sys_ok (sys_step X K e y)" using Cons.prems by (rule sys_step_ok)
  from Cons.IH [OF this] sys_step_spends [OF Cons.prems, of i X K e] show ?case
    by (simp del: sys_step.simps settled_by.simps)
qed simp

lemma sys_token_idle: "well_formed s \<Longrightarrow> sys_token i (idle_system s) \<le> 1"
  by (auto simp: sys_token_def idle_system_def token_def marked_def well_formed_def ids_ok_def)

text \<open>
  C6: no task is settled twice. Whatever acknowledgements, rejections, batches and cleanups race for
  a task, in whatever order their steps run, whichever of them cannot log and whichever are
  abandoned: over the whole schedule at most one of them takes the task for good, by removing it for
  an acknowledgement or by returning its message. So a message whose delivery was acknowledged is
  not returned to a queue by a racing rejection or cleanup, and a task that expires while its
  consumer rejects it goes back once.
\<close>

theorem each_task_settled_once:
  assumes "well_formed s"
  shows "total (sys_step X K) (settled_by i) events (idle_system s) \<le> 1"
  using run_spends [OF sys_ok_idle [OF assms], of i X K events] sys_token_idle [OF assms, of i]
  by simp

definition racing_settlements :: "string \<Rightarrow> schedule_event list" where
  "racing_settlements i = [Arrive (Ack_one i), Arrive (Nack_one i), Run 0, Run 1, Run 0, Run 1]"

theorem each_task_settled_once_witness:
  "total (sys_step unary_codec listed) (settled_by ''t'') (racing_settlements ''t'')
     (idle_system (one_task None)) \<le> 1 \<and>
   threads (run (sys_step unary_codec listed) (racing_settlements ''t'') (idle_system (one_task None))) =
     [Finished (Done (Inr ())), Finished (Done (Inl (Err ''Task not found'')))]"
proof
  show "total (sys_step unary_codec listed) (settled_by ''t'') (racing_settlements ''t'')
     (idle_system (one_task None)) \<le> 1"
    using one_task_well_formed by (rule each_task_settled_once)
qed (simp add: racing_settlements_def step_defs log_op_step eval_nat_numeral after_nack_def)

section \<open>A batch acknowledgement that does not settle\<close>

text \<open>
  The batch finds the task, a rejection (or the cleanup) takes it and returns its message, and the
  batch goes on.
\<close>

definition rejected_during_batch :: "string \<Rightarrow> schedule_event list" where
  "rejected_during_batch i =
     [Arrive (Ack_batch [i]), Run 0, Run 0, Arrive (Nack_one i), Run 1, Run 1, Run 1,
      Run 0, Run 0, Run 0, Run 0]"

text \<open>
  C16: a batch acknowledgement can succeed for a message that stays. It looks every identifier up
  before it logs and removes anything, so when a task is rejected, or expires, in between, the batch
  removes nothing and still answers with success, as the rejection does: the message acknowledged is
  back in its queue (or among the dead letters) and will be delivered again. An acknowledgement on
  its own is refused there: it starts with the atomic removal.
\<close>

theorem batch_acknowledges_returned_message:
  assumes "well_formed s" and "log_works X (wal s)" and "fmlookup (in_flight s) i = Some t"
  shows "\<exists>y. run (sys_step X K) (rejected_during_batch i) (idle_system s) =
      \<lparr>threads = [Finished (Done (Inr ())), Finished (Done (Inr ()))], shared = y\<rparr> \<and>
    queues y = returned t (queues s) \<and> in_flight y = fmdrop i (in_flight s) \<and> messages y = messages s"
proof -
  obtain w1 c1 where 1: "wal_step X (Nack i) (wal s) (clock s) = (Inr (), w1, c1)" "log_works X w1"
    by (rule log_works_step [OF assms(2)])
  obtain w2 c2 where 2: "wal_step X (AckBatch [i]) w1 c1 = (Inr (), w2, c2)"
    by (rule log_works_step [OF 1(2)])
  have q: "task_queue t |\<in>| fmdom (queues s)" using assms(1,3) by (rule well_formed_task)
  have i: "i |\<in>| fmdom (in_flight s)" using assms(3) by (simp add: fmdom_lookup)
  let ?y = "s\<lparr>queues := returned t (queues s), in_flight := fmdrop i (in_flight s), wal := w2, clock := c2\<rparr>"
  have "messages ?y = messages s"
    using queued_returned [OF q] flying_drop [OF assms(3)] by (simp add: messages_def)
  moreover have "run (sys_step X K) (rejected_during_batch i) (idle_system s) =
      \<lparr>threads = [Finished (Done (Inr ())), Finished (Done (Inr ()))], shared = ?y\<rparr>"
    using assms(3) i q
    by (simp add: rejected_during_batch_def step_defs log_op_step 1 2 eval_nat_numeral requeue_eq after_nack_def)
  ultimately show ?thesis by simp
qed

theorem batch_acknowledges_returned_message_witness:
  "\<exists>y. run (sys_step unary_codec listed) (rejected_during_batch ''t'') (idle_system (one_task None)) =
      \<lparr>threads = [Finished (Done (Inr ())), Finished (Done (Inr ()))], shared = y\<rparr> \<and>
    fmlookup (queues y) ''q'' = Some [\<lparr>item_data = [7], item_attempts = 1\<rparr>] \<and> in_flight y = fmempty"
proof -
  have t: "fmlookup (in_flight (one_task None)) ''t'' = Some (task_of ''t'' ''q'' 0 (fresh_item [7]))" by simp
  obtain y where "run (sys_step unary_codec listed) (rejected_during_batch ''t'') (idle_system (one_task None)) =
      \<lparr>threads = [Finished (Done (Inr ())), Finished (Done (Inr ()))], shared = y\<rparr>"
    "queues y = returned (task_of ''t'' ''q'' 0 (fresh_item [7])) (queues (one_task None))"
    "in_flight y = fmdrop ''t'' (in_flight (one_task None))"
    using batch_acknowledges_returned_message [OF one_task_well_formed _ t, of unary_codec listed] by auto
  then show ?thesis
    by (intro exI [of _ y]) (simp add: returned_def Let_def task_of_def fresh_item_def item_of_def word_le_nat_alt)
qed

end
