(* ===== verification/Threads_Fifo.thy ===== *)
theory Threads_Fifo
  imports Threads_Laws
begin

text \<open>
  Order under concurrency: the guards of the queues exclude each other, so that whatever calls race,
  and whatever the log refuses, each queue delivers first in, first out.
\<close>

section \<open>Guards exclude each other\<close>

fun apart :: "pc list \<Rightarrow> bool" where
  "apart [] = True"
| "apart (pc # ts) = (holds pc \<inter> \<Union> (set (map holds ts)) = {} \<and> apart ts)"

lemma apart_split:
  "apart (xs @ pc # ys) \<longleftrightarrow> apart (xs @ ys) \<and> holds pc \<inter> \<Union> (set (map holds (xs @ ys))) = {}"
  by (induction xs) auto

text \<open>A call holds after a step what it held or was free to touch.\<close>

lemma begin_holds: "holds (fst (begin_call K c s)) \<subseteq> call_touches c"
proof (cases c)
  case (Cleanup_expired_tasks n)
  then show ?thesis by (simp split: prod.split sum.split)
qed (auto simp: done_with_def begin_nack_def after_nack_def split: option.split list.split prod.split)

lemma after_nack_holds [simp]: "holds (after_nack k r) = {}"
  by (auto simp: after_nack_def split: option.split)

lemma step_holds: "holds (fst (step_call X K pc s)) \<subseteq> holds pc \<union> touches pc"
proof (cases "(X, K, pc, s)" rule: step_call.cases)
  case (1 X K c s)
  then show ?thesis using begin_holds by auto
qed (auto simp: done_with_def begin_nack_def logging_def Let_def
    split: option.split prod.split sum.split)

lemma apart_step:
  assumes "apart (threads y)" shows "apart (threads (sys_step X K e y))"
proof (cases e)
  case (Arrive c)
  then show ?thesis using assms apart_split [of "threads y" "Begin c" "[]"] by simp
next
  case (Run i)
  show ?thesis
  proof (cases "can_run i y")
    case True
    then obtain xs pc ys pc' s' where y: "y = \<lparr>threads = xs @ pc # ys, shared = shared y\<rparr>"
      and step: "step_call X K pc (shared y) = (pc', s')"
      and free: "touches pc \<inter> \<Union> (set (map holds (xs @ ys))) = {}"
      and y': "sys_step X K (Run i) y = \<lparr>threads = xs @ pc' # ys, shared = s'\<rparr>"
      by (rule run_at [where X = X and K = K])
    have "apart (xs @ pc # ys)" using assms y by (metis system.select_convs(1))
    moreover have "holds pc' \<subseteq> holds pc \<union> touches pc" using step_holds [of X K pc "shared y"] step by simp
    ultimately show ?thesis using free unfolding Run y' by (simp add: apart_split) blast
  qed (use assms Run in \<open>simp add: sys_step_run del: sys_step.simps\<close>)
next
  case (Abandon i)
  show ?thesis
  proof (cases "can_abandon i y")
    case True
    then obtain xs pc ys where y: "y = \<lparr>threads = xs @ pc # ys, shared = shared y\<rparr>"
      and y': "sys_step X K (Abandon i) y = \<lparr>threads = xs @ Abandoned # ys, shared = shared y\<rparr>"
      by (rule abandon_at [where X = X and K = K])
    have "apart (xs @ pc # ys)" using assms y by (metis system.select_convs(1))
    then show ?thesis unfolding Abandon y' by (simp add: apart_split)
  qed (use assms Abandon in \<open>simp add: sys_step_abandon del: sys_step.simps\<close>)
qed

interpretation guards: machine "sys_step X K" "\<lambda>y. apart (threads y)"
  for X :: codec and K :: key_order
  by unfold_locales (rule apart_step)

section \<open>What a queue holds\<close>

text \<open>
  The items a call has popped from \<open>q\<close> and not yet delivered, in order, and the whole line: they
  come before what is still in the queue.
\<close>

fun taken_from :: "string \<Rightarrow> pc \<Rightarrow> queue_item list" where
  "taken_from q (Dequeue_log q' item tid) = (if q' = q then [item] else [])"
| "taken_from q (Dequeue_deliver q' item tid) = (if q' = q then [item] else [])"
| "taken_from q (Dequeue_batch_log q' popped ids) = (if q' = q then popped else [])"
| "taken_from q (Dequeue_batch_deliver q' todo tasks) = (if q' = q then map snd todo else [])"
| "taken_from q _ = []"

definition line :: "string \<Rightarrow> system \<Rightarrow> queue_item list" where
  "line q y = concat (map (taken_from q) (threads y)) @ content q (shared y)"

text \<open>What a step delivers from \<open>q\<close>, and what it puts at its end.\<close>

fun delivers_at :: "string \<Rightarrow> pc \<Rightarrow> queue_item list" where
  "delivers_at q (Dequeue_deliver q' item tid) = (if q' = q then [item] else [])"
| "delivers_at q (Dequeue_batch_deliver q' (x # todo) tasks) = (if q' = q then [snd x] else [])"
| "delivers_at q _ = []"

fun pushes_at :: "string \<Rightarrow> pc \<Rightarrow> storage \<Rightarrow> queue_item list" where
  "pushes_at q (Enqueue_push q' d) s = (if q' = q \<and> q |\<in>| fmdom (queues s) then [fresh_item d] else [])"
| "pushes_at q (Enqueue_batch_push q' ds) s =
     (if q' = q \<and> q |\<in>| fmdom (queues s) then map fresh_item ds else [])"
| "pushes_at q _ s = []"

fun delivered_by :: "string \<Rightarrow> schedule_event \<Rightarrow> system \<Rightarrow> queue_item list" where
  "delivered_by q (Run i) y = (if can_run i y then delivers_at q (threads y ! i) else [])"
| "delivered_by q _ y = []"

fun pushed_by :: "string \<Rightarrow> schedule_event \<Rightarrow> system \<Rightarrow> queue_item list" where
  "pushed_by q (Run i) y = (if can_run i y then pushes_at q (threads y ! i) (shared y) else [])"
| "pushed_by q _ y = []"

text \<open>Calls that put no delivered message back and do not create \<open>q\<close>.\<close>

fun orderly_call :: "string \<Rightarrow> call \<Rightarrow> bool" where
  "orderly_call q (Create_queue n) = (n \<noteq> q)"
| "orderly_call q (Nack_one i) = False"
| "orderly_call q (Cleanup_expired_tasks n) = False"
| "orderly_call q _ = True"

fun orderly :: "string \<Rightarrow> pc \<Rightarrow> bool" where
  "orderly q (Begin c) = orderly_call q c"
| "orderly q (Create_log n) = (n \<noteq> q)"
| "orderly q (Create_insert n) = (n \<noteq> q)"
| "orderly q (Nack_log k i t) = False"
| "orderly q (Nack_restore k i t e) = False"
| "orderly q (Nack_return k t) = False"
| "orderly q (Cleanup_next ids n) = False"
| "orderly q _ = True"

fun orderly_event :: "string \<Rightarrow> schedule_event \<Rightarrow> bool" where
  "orderly_event q (Arrive c) = orderly_call q c"
| "orderly_event q (Run i) = True"
| "orderly_event q (Abandon i) = False"

section \<open>One step\<close>

lemma content_simps [simp]:
  "content q (s\<lparr>queues := qs\<rparr>) = (case fmlookup qs q of None \<Rightarrow> [] | Some xs \<Rightarrow> xs)"
  "content q (s\<lparr>in_flight := fl\<rparr>) = content q s" "content q (s\<lparr>wal := w\<rparr>) = content q s"
  "content q (s\<lparr>clock := c\<rparr>) = content q s" "content q (s\<lparr>uuids := u\<rparr>) = content q s"
  by (simp_all add: content_def)

text \<open>The line as one call sees it.\<close>

definition in_order :: "string \<Rightarrow> pc \<Rightarrow> storage \<Rightarrow> pc \<times> storage \<Rightarrow> bool" where
  "in_order q pc s x \<longleftrightarrow> orderly q (fst x) \<and>
     delivers_at q pc @ taken_from q (fst x) @ content q (snd x) =
       taken_from q pc @ content q s @ pushes_at q pc s"

lemma in_order_logging:
  assumes "\<And>e w c. in_order q pc s (f e (s\<lparr>wal := w, clock := c\<rparr>))"
    and "\<And>w c. in_order q pc s (g (s\<lparr>wal := w, clock := c\<rparr>))"
  shows "in_order q pc s (logging X a f g s)"
  by (cases X a s rule: step_cases) (use assms in \<open>auto simp: logging_def log_op_step\<close>)

lemma begin_in_order:
  assumes "orderly_call q c" shows "in_order q (Begin c) s (begin_call K c s)"
  using assms
  by (cases c) (auto simp: in_order_def done_with_def content_def pop_items_eq split: option.split list.split)

lemma step_in_order:
  assumes "orderly q pc" and "pc_ok pc (queues s)"
  shows "in_order q pc s (step_call X K pc s)"
proof (cases pc)
  case (Begin c)
  then show ?thesis using begin_in_order assms by simp
next
  case (Create_log n)
  show ?thesis
    unfolding Create_log step_call.simps
    by (rule in_order_logging) (use assms Create_log in \<open>simp_all add: in_order_def done_with_def\<close>)
next
  case (Enqueue_log q' d)
  show ?thesis
    unfolding Enqueue_log step_call.simps
    by (rule in_order_logging) (simp_all add: in_order_def done_with_def)
next
  case (Enqueue_push q' d)
  then show ?thesis
    by (auto simp: in_order_def done_with_def content_def fresh_item_def fmdom_lookup split: option.split)
next
  case (Enqueue_batch_log q' ds)
  show ?thesis
    unfolding Enqueue_batch_log step_call.simps
    by (rule in_order_logging) (simp_all add: in_order_def done_with_def)
next
  case (Enqueue_batch_push q' ds)
  then show ?thesis
    by (auto simp: in_order_def done_with_def content_def fmdom_lookup push_all split: option.split)
next
  case (Dequeue_log q' item tid)
  show ?thesis
    unfolding Dequeue_log step_call.simps
    by (rule in_order_logging) (auto simp: in_order_def content_def)
next
  case (Dequeue_deliver q' item tid)
  then show ?thesis by (simp add: in_order_def Let_def)
next
  case (Dequeue_batch_log q' popped ids)
  show ?thesis
    unfolding Dequeue_batch_log step_call.simps
    by (rule in_order_logging)
      (use assms Dequeue_batch_log in \<open>auto simp: in_order_def content_def push_front_all\<close>)
next
  case (Dequeue_batch_deliver q' todo tasks)
  then show ?thesis by (cases todo) (auto simp: in_order_def Let_def)
next
  case (Ack_log i)
  show ?thesis
    unfolding Ack_log step_call.simps
    by (rule in_order_logging) (simp_all add: in_order_def done_with_def)
next
  case (Extend_log i dur)
  show ?thesis
    unfolding Extend_log step_call.simps
    by (rule in_order_logging) (simp_all add: in_order_def done_with_def)
next
  case (Extend_update i)
  then show ?thesis by (simp add: in_order_def done_with_def)
next
  case (Ack_batch_check ids todo missing)
  then show ?thesis by (cases todo) (simp_all add: in_order_def done_with_def)
next
  case (Ack_batch_log ids)
  show ?thesis
    unfolding Ack_batch_log step_call.simps
    by (rule in_order_logging) (simp_all add: in_order_def done_with_def)
next
  case (Ack_batch_remove ids)
  then show ?thesis by (cases ids) (simp_all add: in_order_def done_with_def)
qed (use assms in \<open>simp_all add: in_order_def done_with_def content_def\<close>)

lemma taken_needs_guard: "Queue_lock q \<notin> holds pc \<Longrightarrow> taken_from q pc = []"
  by (cases pc) auto

lemma elsewhere:
  assumes "Queue_lock q \<notin> holds pc \<union> touches pc"
  shows "delivers_at q pc = []" and "pushes_at q pc s = []"
  using assms by (cases "(q, pc)" rule: delivers_at.cases; auto)+

section \<open>All calls\<close>

definition in_line :: "string \<Rightarrow> system \<Rightarrow> bool" where
  "in_line q y \<longleftrightarrow> sys_ok y \<and> apart (threads y) \<and> (\<forall>pc\<in>set (threads y). orderly q pc)"

lemma none_taken:
  "\<forall>pc\<in>set ts. Queue_lock q \<notin> holds pc \<Longrightarrow> concat (map (taken_from q) ts) = []"
  using taken_needs_guard by (induction ts) auto

lemma run_in_line:
  assumes "in_line q y" and "can_run i y"
  shows "in_line q (sys_step X K (Run i) y) \<and>
    delivers_at q (threads y ! i) @ line q (sys_step X K (Run i) y) =
      line q y @ pushes_at q (threads y ! i) (shared y)"
proof -
  obtain xs pc ys pc' s' where y: "y = \<lparr>threads = xs @ pc # ys, shared = shared y\<rparr>" "threads y ! i = pc"
    and step: "step_call X K pc (shared y) = (pc', s')"
    and free: "touches pc \<inter> \<Union> (set (map holds (xs @ ys))) = {}"
    and y': "sys_step X K (Run i) y = \<lparr>threads = xs @ pc' # ys, shared = s'\<rparr>"
    by (rule run_at [OF assms(2), where X = X and K = K])
  have ts: "threads y = xs @ pc # ys" using y(1) by (metis system.select_convs(1))
  have "sys_ok y" "apart (threads y)" and orderly: "\<forall>pc\<in>set (xs @ pc # ys). orderly q pc"
    using assms(1) ts by (simp_all add: in_line_def)
  then have ap: "apart (xs @ ys)" "holds pc \<inter> \<Union> (set (map holds (xs @ ys))) = {}"
    and pc: "pc_ok pc (queues (shared y))" by (simp_all add: ts apart_split sys_ok_def)
  have ok: "in_order q pc (shared y) (pc', s')"
    using step_in_order [of q pc "shared y" X K] orderly pc step by simp
  have holds': "holds pc' \<subseteq> holds pc \<union> touches pc" using step_holds [of X K pc "shared y"] step by simp
  have "apart (threads (sys_step X K (Run i) y))" using \<open>apart (threads y)\<close> by (rule apart_step)
  moreover have "sys_ok (sys_step X K (Run i) y)" using \<open>sys_ok y\<close> by (rule sys_step_ok)
  ultimately have inv: "in_line q (sys_step X K (Run i) y)"
    using orderly ok unfolding in_line_def y' by (auto simp: in_order_def)
  have "delivers_at q pc @ line q \<lparr>threads = xs @ pc' # ys, shared = s'\<rparr> =
      line q \<lparr>threads = xs @ pc # ys, shared = shared y\<rparr> @ pushes_at q pc (shared y)"
  proof (cases "Queue_lock q \<in> holds pc \<union> touches pc")
    case True
    then have "\<forall>p\<in>set xs. Queue_lock q \<notin> holds p" "\<forall>p\<in>set ys. Queue_lock q \<notin> holds p"
      using ap(2) free by auto
    then show ?thesis using ok by (simp add: line_def none_taken in_order_def)
  next
    case False
    then have "taken_from q pc = []" "taken_from q pc' = []" using holds' by (auto intro: taken_needs_guard)
    then show ?thesis using ok elsewhere [OF False] by (simp add: line_def in_order_def)
  qed
  then show ?thesis using inv y by (metis y')
qed

lemma line_step:
  assumes "orderly_event q e" and "in_line q y"
  shows "in_line q (sys_step X K e y)"
    and "delivered_by q e y @ line q (sys_step X K e y) = line q y @ pushed_by q e y"
proof -
  have "in_line q (sys_step X K e y) \<and>
    delivered_by q e y @ line q (sys_step X K e y) = line q y @ pushed_by q e y"
  proof (cases e)
    case (Arrive c)
    have "apart (threads (sys_step X K (Arrive c) y))" "sys_ok (sys_step X K (Arrive c) y)"
      using assms(2) apart_step sys_step_ok(1) unfolding in_line_def by blast+
    then show ?thesis using assms Arrive by (auto simp: in_line_def line_def)
  next
    case (Run i)
    then show ?thesis
      using run_in_line [OF assms(2), of i X K] assms(2)
      by (cases "can_run i y") (simp_all add: sys_step_run del: sys_step.simps)
  qed (use assms in simp)
  then show "in_line q (sys_step X K e y)"
    and "delivered_by q e y @ line q (sys_step X K e y) = line q y @ pushed_by q e y" by blast+
qed

interpretation queue_line: channel "sys_step X K" "orderly_event q" "in_line q" "line q"
    "pushed_by q" "delivered_by q"
  for X :: codec and K :: key_order and q :: string
  by unfold_locales (rule line_step; assumption)+

lemma in_line_idle: "well_formed s \<Longrightarrow> in_line q (idle_system s)"
  using sys_ok_idle by (simp add: in_line_def idle_system_def)

text \<open>
  C18: queues are first in, first out under concurrency. Let any calls race that do not create the
  queue and put no delivered message back (no rejection, no cleanup), let any of them fail to log,
  and abandon none. Then the items delivered from the queue, in the order of their deliveries,
  followed by those popped and not yet delivered or restored, followed by what the queue holds, are
  what it held at the start followed by the items pushed, in the order of the pushes. No consumer
  overtakes another, and an item that is put back for want of a log entry comes back to its place.
\<close>

theorem concurrent_fifo:
  assumes "well_formed s" and "\<forall>e\<in>set events. orderly_event q e"
  shows "flow (sys_step X K) (delivered_by q) events (idle_system s) @
      line q (run (sys_step X K) events (idle_system s)) =
    content q s @ flow (sys_step X K) (pushed_by q) events (idle_system s)"
  using queue_line.run_pass [OF assms(2) in_line_idle [OF assms(1)], of X K]
  by (simp add: line_def idle_system_def)

text \<open>
  Two consumers race for two messages: the second cannot start before the first has its message, and
  gets the second one.
\<close>

definition two_consumers :: "schedule_event list" where
  "two_consumers = [Arrive (Dequeue_one ''q''), Arrive (Dequeue_one ''q''), Run 0, Run 1, Run 0, Run 0, Run 1,
     Run 1, Run 1]"

theorem concurrent_fifo_witness:
  "flow (sys_step unary_codec (\<lambda>_. [])) (delivered_by ''q'') two_consumers
     (idle_system ((new_storage numbered (sconst 0))\<lparr>queues := fmupd ''q'' (map fresh_item [[1], [2]]) fmempty\<rparr>))
   = map fresh_item [[1], [2]]"
proof -
  have wf: "well_formed ((new_storage numbered (sconst 0))\<lparr>queues := fmupd ''q'' (map fresh_item [[1], [2]]) fmempty\<rparr>)"
    by (simp add: well_formed_def new_storage_def flights_ok_def ids_ok_def)
  have ok: "\<forall>e\<in>set two_consumers. orderly_event ''q'' e" by (simp add: two_consumers_def)
  show ?thesis
    using concurrent_fifo [OF wf ok, of unary_codec "\<lambda>_. []"]
    by (simp add: two_consumers_def step_defs new_storage_def can_run_def log_op_step eval_nat_numeral
        line_def content_def Let_def)
qed

end
