(* ===== verification/Threads_Effects.thy ===== *)
theory Threads_Effects
  imports Threads_Fifo Durability
begin

text \<open>
  Concurrent calls as a sequence of whole operations: what the calls of a schedule do to the storage
  is what some of the operations of the log would do, one after the other, each where its last
  access is. In between, items and tasks that calls have taken out count as still where they were.
\<close>

section \<open>The storage with everything put back\<close>

fun hand :: "pc \<Rightarrow> (string, in_flight_task) fmap" where
  "hand (Nack_log k i t) = fmupd i t fmempty"
| "hand (Nack_restore k i t e) = fmupd i t fmempty"
| "hand (Nack_return k t) = fmupd (task_id t) t fmempty"
| "hand _ = fmempty"

text \<open>
  Around one call, the others have taken \<open>A\<close> (before it) and \<open>B\<close> from the queues and hold the
  tasks \<open>H\<close>.
\<close>

definition around ::
    "(string \<Rightarrow> queue_item list) \<Rightarrow> (string \<Rightarrow> queue_item list) \<Rightarrow> (string, in_flight_task) fmap \<Rightarrow> pc \<Rightarrow> storage \<Rightarrow> view" where
  "around A B H pc s =
     \<lparr>vqueues = fmmap_keys (\<lambda>q xs. A q @ taken_from q pc @ B q @ xs) (queues s),
      vflights = fmmap untimed ((in_flight s ++\<^sub>f hand pc) ++\<^sub>f H)\<rparr>"

fun hands :: "pc list \<Rightarrow> (string, in_flight_task) fmap" where
  "hands [] = fmempty"
| "hands (pc # ts) = hand pc ++\<^sub>f hands ts"

definition settled :: "system \<Rightarrow> view" where
  "settled y =
     \<lparr>vqueues = fmmap_keys (\<lambda>q xs. concat (map (taken_from q) (threads y)) @ xs) (queues (shared y)),
      vflights = fmmap untimed (in_flight (shared y) ++\<^sub>f hands (threads y))\<rparr>"

text \<open>The operation a step completes.\<close>

fun effect_at :: "pc \<Rightarrow> storage \<Rightarrow> wal_op list" where
  "effect_at (Begin (Ack_one i)) s = (if i |\<in>| fmdom (in_flight s) then [Ack i] else [])"
| "effect_at (Create_insert n) s = (if n |\<in>| fmdom (queues s) then [] else [CreateQueue n])"
| "effect_at (Enqueue_push q d) s = (if q |\<in>| fmdom (queues s) then [Enqueue q d] else [])"
| "effect_at (Enqueue_batch_push q ds) s = (if q |\<in>| fmdom (queues s) then [EnqueueBatch q ds] else [])"
| "effect_at (Dequeue_deliver q item tid) s = [Dequeued q tid]"
| "effect_at (Dequeue_batch_deliver q (x # todo) tasks) s = [Dequeued q (fst x)]"
| "effect_at (Nack_return k t) s = [Nack (task_id t)]"
| "effect_at (Ack_batch_remove (i # ids)) s = (if i |\<in>| fmdom (in_flight s) then [Ack i] else [])"
| "effect_at _ s = []"

fun effect_by :: "schedule_event \<Rightarrow> system \<Rightarrow> wal_op list" where
  "effect_by (Run i) y = (if can_run i y then effect_at (threads y ! i) (shared y) else [])"
| "effect_by _ y = []"

section \<open>One step\<close>

text \<open>What the other calls leave alone while this one runs.\<close>

definition apart_from :: "(string \<Rightarrow> queue_item list) \<Rightarrow> (string \<Rightarrow> queue_item list)
    \<Rightarrow> (string, in_flight_task) fmap \<Rightarrow> pc \<Rightarrow> storage \<Rightarrow> bool" where
  "apart_from A B H pc s \<longleftrightarrow>
     (\<forall>q. Queue_lock q \<in> holds pc \<union> touches pc \<longrightarrow> A q = [] \<and> B q = []) \<and>
     set (owned pc) \<inter> fset (fmdom H) = {} \<and> fset (fmdom (in_flight s)) \<inter> fset (fmdom H) = {} \<and>
     (\<forall>i\<in>set (owned pc). i |\<notin>| fmdom (in_flight s)) \<and> sset (uuids s) \<inter> fset (fmdom H) = {} \<and>
     pc_ok pc (queues s)"

definition commits_at :: "(string \<Rightarrow> queue_item list) \<Rightarrow> (string \<Rightarrow> queue_item list)
    \<Rightarrow> (string, in_flight_task) fmap \<Rightarrow> pc \<Rightarrow> storage \<Rightarrow> pc \<times> storage \<Rightarrow> bool" where
  "commits_at A B H pc s x \<longleftrightarrow>
     list_all (\<lambda>a. enabled a (around A B H pc s)) (effect_at pc s) \<and>
     around A B H (fst x) (snd x) = fold apply_op (effect_at pc s) (around A B H pc s)"

lemma commits_logging:
  assumes "\<And>e w c. commits_at A B H pc s (f e (s\<lparr>wal := w, clock := c\<rparr>))"
    and "\<And>w c. commits_at A B H pc s (g (s\<lparr>wal := w, clock := c\<rparr>))"
  shows "commits_at A B H pc s (logging X a f g s)"
  by (cases X a s rule: step_cases) (use assms in \<open>auto simp: logging_def log_op_step\<close>)

lemma view_eqI:
  "(\<And>q. fmlookup (vqueues v) q = fmlookup (vqueues w) q) \<Longrightarrow>
   (\<And>i. fmlookup (vflights v) i = fmlookup (vflights w) i) \<Longrightarrow> v = (w :: view)"
  by (cases v; cases w) (auto intro: fmap_ext)

lemma around_lookup [simp]:
  "fmlookup (vqueues (around A B H pc s)) q = map_option (\<lambda>xs. A q @ taken_from q pc @ B q @ xs) (fmlookup (queues s) q)"
  "fmlookup (vflights (around A B H pc s)) i =
     map_option untimed (if i |\<in>| fmdom H then fmlookup H i
       else if i |\<in>| fmdom (hand pc) then fmlookup (hand pc) i else fmlookup (in_flight s) i)"
  by (simp_all add: around_def)

text \<open>A step that only moves things within reach of the call.\<close>

lemma around_same:
  assumes "\<And>q. map_option (\<lambda>xs. A q @ taken_from q pc' @ B q @ xs) (fmlookup (queues s') q) =
      map_option (\<lambda>xs. A q @ taken_from q pc @ B q @ xs) (fmlookup (queues s) q)"
    and "\<And>i. i |\<notin>| fmdom H \<Longrightarrow>
      map_option untimed (if i |\<in>| fmdom (hand pc') then fmlookup (hand pc') i else fmlookup (in_flight s') i) =
      map_option untimed (if i |\<in>| fmdom (hand pc) then fmlookup (hand pc) i else fmlookup (in_flight s) i)"
  shows "around A B H pc' s' = around A B H pc s"
  by (rule view_eqI) (use assms in \<open>auto\<close>)

lemma commits_nothing:
  assumes "effect_at pc s = []" and "around A B H (fst x) (snd x) = around A B H pc s"
  shows "commits_at A B H pc s x"
  using assms by (simp add: commits_at_def)

lemma around_storage:
  "queues s' = queues s \<Longrightarrow> in_flight s' = in_flight s \<Longrightarrow> hand pc' = hand pc \<Longrightarrow>
     (\<And>q. taken_from q pc' = taken_from q pc) \<Longrightarrow> around A B H pc' s' = around A B H pc s"
  by (simp add: around_def)

lemma after_nack_idle [simp]: "taken_from q (after_nack k r) = []" "hand (after_nack k r) = fmempty"
  by (auto simp: after_nack_def split: option.split)

lemma commits_begin_nack:
  assumes "effect_at pc s = []" and "hand pc = fmempty" and "\<And>q. taken_from q pc = []"
    and "flights_ok (queues s) (in_flight s)"
  shows "commits_at A B H pc s (begin_nack k i s)"
proof (rule commits_nothing [OF assms(1)], cases "fmlookup (in_flight s) i")
  case None
  then show "around A B H (fst (begin_nack k i s)) (snd (begin_nack k i s)) = around A B H pc s"
    using assms(2,3) by (simp add: begin_nack_def around_def)
next
  case (Some t)
  show "around A B H (fst (begin_nack k i s)) (snd (begin_nack k i s)) = around A B H pc s"
    by (rule around_same) (use Some assms(2,3) in \<open>auto simp: begin_nack_def\<close>)
qed

lemma commits_begin:
  assumes "apart_from A B H (Begin c) s" and "flights_ok (queues s) (in_flight s)"
  shows "commits_at A B H (Begin c) s (begin_call K c s)"
proof (cases c)
  case (Dequeue_one q)
  show ?thesis
    by (rule commits_nothing)
      (use assms Dequeue_one in \<open>auto simp: apart_from_def split: option.split list.split intro!: around_same\<close>)
next
  case (Dequeue_batch q n)
  show ?thesis
    by (rule commits_nothing)
      (use assms Dequeue_batch in \<open>auto simp: apart_from_def pop_items_eq split: option.split intro!: around_same\<close>)
next
  case (Nack_one i)
  then show ?thesis using commits_begin_nack [of "Begin c" s A B H] assms(2) by simp
next
  case (Ack_one i)
  have H: "i |\<in>| fmdom (in_flight s) \<Longrightarrow> i |\<notin>| fmdom H" using assms(1) by (auto simp: apart_from_def)
  show ?thesis
  proof (cases "fmlookup (in_flight s) i")
    case None
    then show ?thesis using Ack_one by (simp add: commits_at_def done_with_def around_def fmdom_lookup)
  next
    case (Some t)
    then have i: "i |\<in>| fmdom (in_flight s)" by (simp add: fmdom_lookup)
    have "around A B H (Ack_log i) (s\<lparr>in_flight := fmdrop i (in_flight s)\<rparr>) =
        apply_op (Ack i) (around A B H (Begin c) s)"
      by (rule view_eqI) (use H [OF i] Ack_one in auto)
    then show ?thesis using Some i H [OF i] Ack_one by (simp add: commits_at_def fmdom_lookup)
  qed
next
  case (Cleanup_expired_tasks n)
  then show ?thesis
    using scan_state [of K n s]
    by (auto intro!: commits_nothing around_storage split: prod.split sum.split)
qed (auto simp: done_with_def intro!: commits_nothing around_storage split: option.split)

lemma commits_push:
  assumes "A q = []" and "B q = []" and "taken_from q pc = []" and "taken_from q pc' = []"
    and "\<And>n. taken_from n pc = []" and "\<And>n. taken_from n pc' = []" and "hand pc = fmempty" and "hand pc' = fmempty"
    and "fmlookup (queues s) q = Some xs"
  shows "around A B H pc' (s\<lparr>queues := fmupd q (xs @ items) (queues s)\<rparr>) = push q items (around A B H pc s)"
  by (rule view_eqI) (use assms in \<open>auto simp: push_def\<close>)

lemma commits_deliver:
  assumes "A q = []" and "B q = []" and "taken_from q pc = item # taken_from q pc'"
    and "\<And>n. n \<noteq> q \<Longrightarrow> taken_from n pc = taken_from n pc'" and "hand pc = fmempty" and "hand pc' = fmempty"
    and "q |\<in>| fmdom (queues s)" and "tid |\<notin>| fmdom H"
  shows "around A B H pc' (s\<lparr>clock := c, in_flight := fmupd tid (task_of tid q a item) (in_flight s)\<rparr>) =
      deliver q (around A B H pc s) tid \<and> enabled (Dequeued q tid) (around A B H pc s)"
proof -
  obtain xs where xs: "fmlookup (queues s) q = Some xs" using assms(7) by (auto simp: fmdom_lookup)
  have front: "fmlookup (vqueues (around A B H pc s)) q = Some (item # taken_from q pc' @ xs)"
    using assms(1-3) xs by simp
  show ?thesis
  proof
    show "around A B H pc' (s\<lparr>clock := c, in_flight := fmupd tid (task_of tid q a item) (in_flight s)\<rparr>) =
        deliver q (around A B H pc s) tid"
      unfolding deliver_def front
      by (rule view_eqI) (use assms xs in auto)
  qed (use front in \<open>simp del: around_lookup\<close>)
qed

lemma commits_return:
  assumes "task_queue t |\<in>| fmdom (queues s)" and "task_id t |\<notin>| fmdom H" and "task_id t |\<notin>| fmdom (in_flight s)"
    and "A (destination t) = []" and "B (destination t) = []"
  shows "around A B H (after_nack k r) (s\<lparr>queues := returned t (queues s)\<rparr>) =
      apply_op (Nack (task_id t)) (around A B H (Nack_return k t) s)"
proof -
  obtain xs where xs: "fmlookup (queues s) (task_queue t) = Some xs" using assms(1) by (auto simp: fmdom_lookup)
  have t: "fmlookup (vflights (around A B H (Nack_return k t) s)) (task_id t) = Some (untimed t)"
    using assms(2) by simp
  have missing: "fmlookup (in_flight s) (task_id t) = None" using assms(3) by (simp add: fmdom_lookup)
  have "fmlookup (vqueues (around A B H (after_nack k r) (s\<lparr>queues := returned t (queues s)\<rparr>))) q =
      fmlookup (returned t (vqueues (around A B H (Nack_return k t) s))) q" for q
    using assms(4,5) xs
    by (cases "fmlookup (queues s) (dlq_name (task_queue t))")
      (auto simp: returned_def destination_def Let_def)
  moreover have "fmlookup (vflights (around A B H (after_nack k r) (s\<lparr>queues := returned t (queues s)\<rparr>))) i =
      fmlookup (fmdrop (task_id t) (vflights (around A B H (Nack_return k t) s))) i" for i
    using assms(2) missing by simp
  ultimately show ?thesis
    by (intro view_eqI) (simp_all add: t del: around_lookup)
qed

lemma commits_step:
  assumes ap: "apart_from A B H pc s" and fl: "flights_ok (queues s) (in_flight s)"
    and "overwritten_at pc s = {#}"
  shows "commits_at A B H pc s (step_call X K pc s)"
proof (cases pc)
  case (Begin c)
  then show ?thesis using commits_begin assms by simp
next
  case (Create_log n)
  show ?thesis
    unfolding Create_log step_call.simps
    by (rule commits_logging; rule commits_nothing) (simp_all add: done_with_def around_storage)
next
  case (Create_insert n)
  have "A n = []" "B n = []" using ap Create_insert by (auto simp: apart_from_def)
  moreover have "n |\<in>| fmdom (queues s) \<Longrightarrow> fmlookup (queues s) n = Some []"
    using assms(3) Create_insert content_lookup [of n s] by (cases "content n s") auto
  ultimately show ?thesis
    unfolding Create_insert
    by (auto simp: commits_at_def done_with_def fmdom_lookup intro!: view_eqI split: option.splits)
next
  case (Enqueue_log q d)
  show ?thesis
    unfolding Enqueue_log step_call.simps
    by (rule commits_logging; rule commits_nothing) (simp_all add: done_with_def around_storage)
next
  case (Enqueue_push q d)
  have "A q = []" "B q = []" using ap Enqueue_push by (auto simp: apart_from_def)
  then show ?thesis
    unfolding Enqueue_push
    using commits_push [of A q B "Enqueue_push q d" "Finished (Done (Inr ()))" s _ H "[fresh_item d]"]
    by (cases "fmlookup (queues s) q")
      (simp_all add: commits_at_def done_with_def fmdom_lookup fresh_item_def around_storage)
next
  case (Enqueue_batch_log q ds)
  show ?thesis
    unfolding Enqueue_batch_log step_call.simps
    by (rule commits_logging; rule commits_nothing) (simp_all add: done_with_def around_storage)
next
  case (Enqueue_batch_push q ds)
  have "A q = []" "B q = []" using ap Enqueue_batch_push by (auto simp: apart_from_def)
  then show ?thesis
    unfolding Enqueue_batch_push
    using commits_push [of A q B "Enqueue_batch_push q ds" "Finished (Done (Inr ()))" s _ H "map fresh_item ds"]
    by (cases "fmlookup (queues s) q")
      (simp_all add: commits_at_def done_with_def fmdom_lookup push_all around_storage)
next
  case (Dequeue_log q item tid)
  have "A q = []" "B q = []" "q |\<in>| fmdom (queues s)" using ap Dequeue_log by (auto simp: apart_from_def)
  then show ?thesis
    unfolding Dequeue_log step_call.simps
    by (intro commits_logging; intro commits_nothing)
      (auto simp: content_def fmdom_lookup intro!: around_same around_storage)
next
  case (Dequeue_deliver q item tid)
  have "A q = []" "B q = []" "q |\<in>| fmdom (queues s)" "tid |\<notin>| fmdom H"
    using ap Dequeue_deliver by (auto simp: apart_from_def)
  from commits_deliver [of A q B pc item "Finished (Delivered (Inr (Some (task_of tid q (shd (clock s)) item))))" s tid H,
      OF this(1,2) _ _ _ _ this(3,4)] show ?thesis
    unfolding Dequeue_deliver by (simp add: commits_at_def Let_def task_of_def del: enabled.simps)
next
  case (Dequeue_batch_log q popped ids)
  have "A q = []" "B q = []" "q |\<in>| fmdom (queues s)" "length ids = length popped"
    using ap Dequeue_batch_log by (auto simp: apart_from_def)
  then show ?thesis
    unfolding Dequeue_batch_log step_call.simps
    by (intro commits_logging; intro commits_nothing)
      (auto simp: content_def fmdom_lookup push_front_all intro!: around_same around_storage)
next
  case (Dequeue_batch_deliver q todo tasks)
  show ?thesis
  proof (cases todo)
    case Nil
    then show ?thesis
      unfolding Dequeue_batch_deliver by (intro commits_nothing) (simp_all add: around_storage)
  next
    case (Cons x rest)
    obtain tid item where x: "x = (tid, item)" by fastforce
    have "A q = []" "B q = []" "q |\<in>| fmdom (queues s)" "tid |\<notin>| fmdom H"
      using ap Dequeue_batch_deliver Cons x by (auto simp: apart_from_def)
    from commits_deliver [of A q B pc item "Dequeue_batch_deliver q rest (tasks @ [task_of tid q (shd (clock s)) item])" s tid H,
        OF this(1,2) _ _ _ _ this(3,4)] show ?thesis
      unfolding Dequeue_batch_deliver Cons x
      by (simp add: commits_at_def Let_def task_of_def del: enabled.simps)
  qed
next
  case (Ack_log i)
  show ?thesis
    unfolding Ack_log step_call.simps
    by (rule commits_logging; rule commits_nothing) (simp_all add: done_with_def around_storage)
next
  case (Nack_log k i t)
  have "task_id t = i" using ap Nack_log by (simp add: apart_from_def)
  then show ?thesis
    unfolding Nack_log step_call.simps
    by (intro commits_logging; intro commits_nothing) (simp_all add: around_storage)
next
  case (Nack_restore k i t e)
  then show ?thesis by (auto simp: apart_from_def intro!: commits_nothing around_same)
next
  case (Nack_return k t)
  have "task_queue t |\<in>| fmdom (queues s)" "task_id t |\<notin>| fmdom H" "task_id t |\<notin>| fmdom (in_flight s)"
    "A (destination t) = []" "B (destination t) = []"
    using ap Nack_return by (auto simp: apart_from_def destination_def)
  moreover from this(2) have "fmlookup (vflights (around A B H (Nack_return k t) s)) (task_id t) = Some (untimed t)"
    by simp
  then have "task_id t |\<in>| fmdom (vflights (around A B H (Nack_return k t) s))" by (rule fmdomI)
  ultimately show ?thesis
    unfolding Nack_return
    using commits_return [of t s H A B k "Inr ()"] by (simp add: commits_at_def requeue_eq)
next
  case (Extend_log i dur)
  show ?thesis
    unfolding Extend_log step_call.simps
    by (rule commits_logging; rule commits_nothing) (simp_all add: done_with_def around_storage)
next
  case (Extend_update i)
  show ?thesis
    unfolding Extend_update
    by (rule commits_nothing) (auto simp: done_with_def intro!: around_same around_storage split: option.split)
next
  case (Ack_batch_check ids todo missing)
  then show ?thesis by (cases todo) (auto simp: done_with_def intro!: commits_nothing around_storage)
next
  case (Ack_batch_log ids)
  show ?thesis
    unfolding Ack_batch_log step_call.simps
    by (rule commits_logging; rule commits_nothing) (simp_all add: done_with_def around_storage)
next
  case (Ack_batch_remove ids)
  show ?thesis
  proof (cases ids)
    case Nil
    then show ?thesis
      unfolding Ack_batch_remove by (intro commits_nothing) (simp_all add: done_with_def around_storage)
  next
    case (Cons i rest)
    have "i |\<in>| fmdom (in_flight s) \<Longrightarrow> i |\<notin>| fmdom H" using ap by (auto simp: apart_from_def)
    then show ?thesis
      unfolding Ack_batch_remove Cons
      by (auto simp: commits_at_def fmdom_lookup intro!: view_eqI)
  qed
next
  case (Cleanup_next ids n)
  then show ?thesis
    using commits_begin_nack [of pc s A B H] fl
    by (cases ids) (auto intro!: commits_nothing around_storage)
qed (simp_all add: commits_nothing around_storage)

section \<open>All calls\<close>

lemma fmadd_hands: "hands (xs @ ys) = hands xs ++\<^sub>f hands ys"
  by (induction xs) simp_all

lemma hand_owned: "fset (fmdom (hand pc)) \<subseteq> set (owned pc)"
  by (cases pc) auto

lemma hands_owned: "fset (fmdom (hands ts)) \<subseteq> set (concat (map owned ts))"
  using hand_owned by (induction ts) auto

lemma owned_apart:
  assumes "sys_ok \<lparr>threads = xs @ pc # ys, shared = s\<rparr>"
  shows "set (owned pc) \<inter> fset (fmdom (hands (xs @ ys))) = {}"
    and "fset (fmdom (in_flight s)) \<inter> fset (fmdom (hands (xs @ ys))) = {}"
    and "sset (uuids s) \<inter> fset (fmdom (hands (xs @ ys))) = {}"
    and "\<forall>i\<in>set (owned pc). i |\<notin>| fmdom (in_flight s)"
    and "pc_ok pc (queues s)" and "flights_ok (queues s) (in_flight s)"
proof -
  have ok: "ids_apart (uuids s) (in_flight s) (owned pc) (others xs ys)" "pc_ok pc (queues s)"
    "flights_ok (queues s) (in_flight s)"
    using assms by (simp_all add: sys_ok_split local_ok_def)
  have H: "fset (fmdom (hands (xs @ ys))) \<subseteq> others xs ys"
    using hands_owned [of "xs @ ys"] by (simp add: others_def)
  show "set (owned pc) \<inter> fset (fmdom (hands (xs @ ys))) = {}"
    "fset (fmdom (in_flight s)) \<inter> fset (fmdom (hands (xs @ ys))) = {}"
    "sset (uuids s) \<inter> fset (fmdom (hands (xs @ ys))) = {}"
    "\<forall>i\<in>set (owned pc). i |\<notin>| fmdom (in_flight s)"
    "pc_ok pc (queues s)" "flights_ok (queues s) (in_flight s)"
    using ok H unfolding ids_apart_def by blast+
qed

lemma settled_split:
  assumes "sys_ok \<lparr>threads = xs @ pc # ys, shared = s\<rparr>"
  shows "settled \<lparr>threads = xs @ pc # ys, shared = s\<rparr> =
    around (\<lambda>q. concat (map (taken_from q) xs)) (\<lambda>q. concat (map (taken_from q) ys)) (hands (xs @ ys)) pc s"
proof -
  have "fset (fmdom (hand pc)) \<inter> fset (fmdom (hands (xs @ ys))) = {}"
    using owned_apart(1) [OF assms] hand_owned [of pc] by blast
  then have "in_flight s ++\<^sub>f hands (xs @ pc # ys) = (in_flight s ++\<^sub>f hand pc) ++\<^sub>f hands (xs @ ys)"
    by (intro fmap_ext) (auto simp: fmadd_hands)
  then show ?thesis by (simp add: settled_def around_def)
qed

lemma effect_short: "effect_at pc s = [] \<or> (\<exists>a. effect_at pc s = [a])"
  by (cases "(pc, s)" rule: effect_at.cases) simp_all

lemma commits_commits:
  "commits_at A B H pc s x \<Longrightarrow>
     commits apply_op enabled (=) (around A B H pc s) (effect_at pc s) (around A B H (fst x) (snd x))"
  using effect_short [of pc s] by (auto simp: commits_at_def intro: commits_nil commits_one)

lemma run_commits:
  assumes "sys_ok y" and "apart (threads y)" and "can_run i y"
    and "overwritten_at (threads y ! i) (shared y) = {#}"
  shows "commits apply_op enabled (=) (settled y) (effect_at (threads y ! i) (shared y))
    (settled (sys_step X K (Run i) y))"
proof -
  obtain xs pc ys pc' s' where y: "y = \<lparr>threads = xs @ pc # ys, shared = shared y\<rparr>" "threads y ! i = pc"
    and step: "step_call X K pc (shared y) = (pc', s')"
    and free: "touches pc \<inter> \<Union> (set (map holds (xs @ ys))) = {}"
    and y': "sys_step X K (Run i) y = \<lparr>threads = xs @ pc' # ys, shared = s'\<rparr>"
    by (rule run_at [OF assms(3), where X = X and K = K])
  let ?A = "\<lambda>q. concat (map (taken_from q) xs)" and ?B = "\<lambda>q. concat (map (taken_from q) ys)"
  have old: "sys_ok \<lparr>threads = xs @ pc # ys, shared = shared y\<rparr>" using assms(1) y(1) by simp
  have new: "sys_ok \<lparr>threads = xs @ pc' # ys, shared = s'\<rparr>" using sys_step_ok(1) [OF assms(1), of X K "Run i"] y' by simp
  have "threads y = xs @ pc # ys" using y(1) by (metis system.select_convs(1))
  then have "holds pc \<inter> \<Union> (set (map holds (xs @ ys))) = {}" using assms(2) by (simp add: apart_split)
  then have "Queue_lock q \<in> holds pc \<union> touches pc \<longrightarrow> ?A q = [] \<and> ?B q = []" for q
    using free by (auto intro!: none_taken simp flip: concat_eq_Nil_conv)
  then have "apart_from ?A ?B (hands (xs @ ys)) pc (shared y)"
    using owned_apart [OF old] by (simp add: apart_from_def)
  from commits_commits [OF commits_step [OF this owned_apart(6) [OF old], of X K]] assms(4) y(2) step
  have "commits apply_op enabled (=) (around ?A ?B (hands (xs @ ys)) pc (shared y)) (effect_at pc (shared y))
      (around ?A ?B (hands (xs @ ys)) pc' s')" by simp
  moreover have "settled y = around ?A ?B (hands (xs @ ys)) pc (shared y)"
    using settled_split [OF old] y(1) by simp
  ultimately show ?thesis using y(2) unfolding y' settled_split [OF new] by simp
qed

lemma payloads_empty [simp]: "payloads xs = {#} \<longleftrightarrow> xs = []"
  by (cases xs) simp_all

lemma nothing_in_hand: "in_hand pc = {#} \<Longrightarrow> taken_from q pc = [] \<and> hand pc = fmempty"
  by (cases pc) auto

lemma step_commits:
  assumes "sys_ok y" and "apart (threads y)" and "lost_by e y = {#}"
  shows "commits apply_op enabled (=) (settled y) (effect_by e y) (settled (sys_step X K e y))"
proof (cases e)
  case (Arrive c)
  have "settled (sys_step X K (Arrive c) y) = settled y" by (simp add: settled_def fmadd_hands)
  then show ?thesis using Arrive by (simp add: commits_nil)
next
  case (Run i)
  then show ?thesis
    using run_commits [OF assms(1,2), of i X K] assms(3)
    by (cases "can_run i y") (simp_all add: sys_step_run commits_nil del: sys_step.simps)
next
  case (Abandon i)
  show ?thesis
  proof (cases "can_abandon i y")
    case True
    then obtain xs pc ys where y: "y = \<lparr>threads = xs @ pc # ys, shared = shared y\<rparr>" "threads y ! i = pc"
      and y': "sys_step X K (Abandon i) y = \<lparr>threads = xs @ Abandoned # ys, shared = shared y\<rparr>"
      by (rule abandon_at [where X = X and K = K])
    have "in_hand pc = {#}" using assms(3) True y(2) Abandon by simp
    then have "settled \<lparr>threads = xs @ pc # ys, shared = shared y\<rparr> =
        settled \<lparr>threads = xs @ Abandoned # ys, shared = shared y\<rparr>"
      using nothing_in_hand by (simp add: settled_def fmadd_hands)
    then have "settled (sys_step X K (Abandon i) y) = settled y" using y(1) y' by simp
    then show ?thesis using Abandon by (simp add: commits_nil)
  qed (use Abandon in \<open>simp add: sys_step_abandon commits_nil del: sys_step.simps\<close>)
qed

lemma run_all_commits:
  "sys_ok y \<Longrightarrow> apart (threads y) \<Longrightarrow> total (sys_step X K) lost_by events y = {#} \<Longrightarrow>
     commits apply_op enabled (=) (settled y) (flow (sys_step X K) effect_by events y)
       (settled (run (sys_step X K) events y))"
proof (induction events arbitrary: y)
  case Nil
  show ?case by (simp add: commits_nil)
next
  case (Cons e events)
  let ?y = "sys_step X K e y"
  have lost: "lost_by e y = {#}" "total (sys_step X K) lost_by events ?y = {#}"
    using Cons.prems(3) by simp_all
  have "commits apply_op enabled (=) (settled ?y) (flow (sys_step X K) effect_by events ?y)
      (settled (run (sys_step X K) events ?y))"
    using Cons.prems(1,2) lost(2) by (intro Cons.IH sys_step_ok(1) apart_step)
  from commits_trans [OF this step_commits [OF Cons.prems(1,2) lost(1)]] show ?case by simp
qed

lemma settled_idle: "settled (idle_system s) = view_of s"
  by (rule view_eqI) (simp_all add: settled_def idle_system_def view_of_def option.map_ident)

lemma ended_empty: "ended pc \<Longrightarrow> taken_from q pc = [] \<and> hand pc = fmempty"
  by (cases pc) auto

lemma settled_ended:
  assumes "list_all ended (threads y)"
  shows "settled y = view_of (shared y)"
proof -
  have "list_all ended ts \<Longrightarrow> concat (map (taken_from q) ts) = [] \<and> hands ts = fmempty" for ts q
    using ended_empty by (induction ts) auto
  then have none: "concat (map (taken_from q) (threads y)) = []" "hands (threads y) = fmempty" for q
    using assms by blast+
  show ?thesis
    unfolding settled_def none by (rule view_eqI) (simp_all add: view_of_def option.map_ident_strong)
qed

text \<open>
  C5: concurrent calls amount to whole operations one after the other. Let any calls arrive, race,
  fail to log and be abandoned, as long as nothing is lost in one of the two known ways. Then the
  queues and the tasks in flight are at every moment (with what calls have taken out and not yet
  delivered, restored or returned counted as still in its place) what a sequence of whole operations
  makes of those at the start, each of them possible where it happens: an enqueue at its push, a
  delivery at its insertion, an acknowledgement at its removal, a rejection at its return. When all
  calls have ended, that is the storage itself.
\<close>

theorem effects_serialize:
  assumes "well_formed s" and "total (sys_step X K) lost_by events (idle_system s) = {#}"
  shows "commits apply_op enabled (=) (view_of s) (flow (sys_step X K) effect_by events (idle_system s))
      (settled (run (sys_step X K) events (idle_system s))) \<and>
    (list_all ended (threads (run (sys_step X K) events (idle_system s))) \<longrightarrow>
      settled (run (sys_step X K) events (idle_system s)) = view_of (shared (run (sys_step X K) events (idle_system s))))"
proof -
  have "commits apply_op enabled (=) (settled (idle_system s)) (flow (sys_step X K) effect_by events (idle_system s))
      (settled (run (sys_step X K) events (idle_system s)))"
    using assms(2) by (intro run_all_commits sys_ok_idle [OF assms(1)]) (simp_all add: idle_system_def)
  then show ?thesis using settled_ended by (simp add: settled_idle)
qed

text \<open>A consumer takes the message while another is enqueued; the first is rejected afterwards.\<close>

definition three_calls :: "schedule_event list" where
  "three_calls = [Arrive (Dequeue_one ''q''), Arrive (Queue ''q'' [2]), Run 1, Run 0, Run 1, Run 0, Run 0, Run 1,
     Arrive (Nack_one (shd numbered)), Run 2, Run 2, Run 2]"

theorem effects_serialize_witness:
  "commits apply_op enabled (=) \<lparr>vqueues = fmupd ''q'' [fresh_item [1]] fmempty, vflights = fmempty\<rparr>
     [Dequeued ''q'' (shd numbered), Enqueue ''q'' [2], Nack (shd numbered)]
     \<lparr>vqueues = fmupd ''q'' [\<lparr>item_data = [1], item_attempts = 1\<rparr>, fresh_item [2]] fmempty, vflights = fmempty\<rparr>"
proof -
  let ?s = "(new_storage numbered (sconst 0))\<lparr>queues := fmupd ''q'' [fresh_item [1]] fmempty\<rparr>"
  let ?y = "run (sys_step unary_codec (\<lambda>_. [])) three_calls (idle_system ?s)"
  have once: "\<not> (5 :: 32 word) \<le> 1" by (simp add: word_le_nat_alt)
  have wf: "well_formed ?s" by (simp add: well_formed_def new_storage_def flights_ok_def ids_ok_def)
  have "total (sys_step unary_codec (\<lambda>_. [])) lost_by three_calls (idle_system ?s) = {#}"
    by (simp add: three_calls_def step_defs new_storage_def can_run_def log_op_step eval_nat_numeral Let_def)
  from effects_serialize [OF wf this]
  have "commits apply_op enabled (=) (view_of ?s)
      (flow (sys_step unary_codec (\<lambda>_. [])) effect_by three_calls (idle_system ?s)) (settled ?y)" by blast
  moreover have "view_of ?s = \<lparr>vqueues = fmupd ''q'' [fresh_item [1]] fmempty, vflights = fmempty\<rparr>"
    by (simp add: view_of_def new_storage_def)
  moreover have "flow (sys_step unary_codec (\<lambda>_. [])) effect_by three_calls (idle_system ?s) =
      [Dequeued ''q'' (shd numbered), Enqueue ''q'' [2], Nack (shd numbered)]"
    by (simp add: three_calls_def step_defs new_storage_def can_run_def log_op_step eval_nat_numeral Let_def fresh_item_def)
  moreover have "settled ?y =
      \<lparr>vqueues = fmupd ''q'' [\<lparr>item_data = [1], item_attempts = 1\<rparr>, fresh_item [2]] fmempty, vflights = fmempty\<rparr>"
    by (rule view_eqI)
      (simp_all add: three_calls_def step_defs new_storage_def log_op_step eval_nat_numeral Let_def fresh_item_def
        settled_def requeue_def after_nack_def once)
  ultimately show ?thesis by simp
qed

end
