(* ===== verification/Threads_Given.thy ===== *)
theory Threads_Given
  imports Threads_Fifo
begin

text \<open>
  What clients are handed under concurrency: however the calls interleave, no task is delivered to
  two of them. The argument follows the fresh identifiers from the generator to the replies.
\<close>

section \<open>Identifiers on their way to a client\<close>

text \<open>The identifiers of the tasks a call has delivered, or will deliver if it gets to its end.\<close>

fun ids_of :: "pc \<Rightarrow> string list" where
  "ids_of (Dequeue_log q item tid) = [tid]"
| "ids_of (Dequeue_deliver q item tid) = [tid]"
| "ids_of (Dequeue_batch_log q popped ids) = ids"
| "ids_of (Dequeue_batch_deliver q todo tasks) = map task_id tasks @ map fst todo"
| "ids_of (Finished (Delivered (Inr (Some t)))) = [task_id t]"
| "ids_of (Finished (Delivered_batch (Inr ts))) = map task_id ts"
| "ids_of _ = []"

text \<open>The identifiers of the tasks the reply of a call carries.\<close>

fun delivered_ids :: "pc \<Rightarrow> string list" where
  "delivered_ids (Finished (Delivered (Inr (Some t)))) = [task_id t]"
| "delivered_ids (Finished (Delivered_batch (Inr ts))) = map task_id ts"
| "delivered_ids _ = []"

lemma delivered_of: "delivered_ids pc = [] \<or> delivered_ids pc = ids_of pc"
  by (cases pc rule: delivered_ids.cases) auto

text \<open>
  A step keeps the first identifiers of those the call had and of some it draws from the generator.
\<close>

definition draws :: "pc \<Rightarrow> storage \<Rightarrow> pc \<times> storage \<Rightarrow> bool" where
  "draws pc s x \<longleftrightarrow>
     (\<exists>n k. uuids (snd x) = sdrop n (uuids s) \<and> ids_of (fst x) = take k (ids_of pc @ stake n (uuids s)))"

lemma draws_none: "uuids (snd x) = uuids s \<Longrightarrow> ids_of (fst x) = [] \<Longrightarrow> draws pc s x"
  unfolding draws_def by (rule exI [of _ 0], rule exI [of _ 0]) simp

lemma draws_same: "uuids (snd x) = uuids s \<Longrightarrow> ids_of (fst x) = ids_of pc \<Longrightarrow> draws pc s x"
  unfolding draws_def by (rule exI [of _ 0], rule exI [of _ "length (ids_of pc)"]) simp

lemma draws_fresh:
  "ids_of pc = [] \<Longrightarrow> uuids (snd x) = sdrop n (uuids s) \<Longrightarrow> ids_of (fst x) = stake n (uuids s) \<Longrightarrow> draws pc s x"
  unfolding draws_def by (rule exI [of _ n], rule exI [of _ n]) simp

lemma draws_logging:
  assumes "\<And>e w c. draws pc s (f e (s\<lparr>wal := w, clock := c\<rparr>))"
    and "\<And>w c. draws pc s (g (s\<lparr>wal := w, clock := c\<rparr>))"
  shows "draws pc s (logging X a f g s)"
  by (cases X a s rule: step_cases) (use assms in \<open>auto simp: logging_def log_op_step\<close>)

lemma ids_of_after_nack [simp]: "ids_of (after_nack k r) = []"
  by (auto simp: after_nack_def split: option.split)

lemma draws_begin_nack: "draws pc s (begin_nack k i s)"
  by (auto simp: begin_nack_def intro!: draws_none split: option.split)

lemma draws_begin: "draws (Begin c) s (begin_call K c s)"
proof (cases c)
  case (Dequeue_one q)
  then show ?thesis
    using draws_fresh [of "Begin c" _ 1 s]
    by (auto intro!: draws_none split: option.split list.split)
next
  case (Dequeue_batch q n)
  then show ?thesis
    by (auto simp: draws_none intro: draws_fresh split: option.split prod.split)
next
  case (Nack_one i)
  then show ?thesis by (simp add: draws_begin_nack)
next
  case (Cleanup_expired_tasks n)
  then show ?thesis
    using scan_state [of K n s] by (auto intro!: draws_none split: prod.split sum.split)
qed (auto simp: done_with_def intro!: draws_none split: option.split)

lemma map_fst_zip_take': "map fst (zip xs ys) = take (length ys) xs"
  by (induction xs ys rule: list_induct2') auto

lemma requeue_uuids: "uuids (snd (requeue t s)) = uuids s"
  by (auto simp: requeue_def Let_def split: option.split)

lemma draws_step: "draws pc s (step_call X K pc s)"
proof (cases pc)
  case (Begin c)
  then show ?thesis using draws_begin by simp
next
  case (Dequeue_log q item tid)
  show ?thesis
    unfolding Dequeue_log step_call.simps
    by (rule draws_logging) (auto intro: draws_none draws_same)
next
  case (Dequeue_batch_log q popped ids)
  have "draws (Dequeue_batch_log q popped ids) s (Dequeue_batch_deliver q (zip ids popped) [], s\<lparr>wal := w, clock := c\<rparr>)"
    for w c
    unfolding draws_def
    by (rule exI [of _ 0], rule exI [of _ "length popped"]) (simp add: map_fst_zip_take')
  then show ?thesis
    unfolding Dequeue_batch_log step_call.simps
    by (intro draws_logging) (auto intro: draws_none)
next
  case (Dequeue_batch_deliver q todo tasks)
  then show ?thesis by (cases todo) (auto simp: Let_def intro!: draws_same)
next
  case (Nack_return k t)
  then show ?thesis
    using requeue_uuids [of t s] by (auto intro!: draws_none split: prod.split)
next
  case (Ack_batch_check ids todo missing)
  then show ?thesis by (cases todo) (auto simp: done_with_def intro!: draws_none)
next
  case (Ack_batch_remove ids)
  then show ?thesis by (cases ids) (auto simp: done_with_def intro!: draws_none)
next
  case (Cleanup_next ids n)
  then show ?thesis by (cases ids) (auto intro!: draws_none draws_begin_nack)
qed (auto simp: done_with_def Let_def intro!: draws_none draws_same draws_logging split: option.split)

section \<open>The whole system\<close>

text \<open>The identifiers of all calls are different, and neither to be generated again nor in \<open>D\<close>.\<close>

definition all_apart :: "string set \<Rightarrow> string list \<Rightarrow> string stream \<Rightarrow> bool" where
  "all_apart D is u \<longleftrightarrow>
     unrepeated u \<and> distinct is \<and> set is \<inter> sset u = {} \<and> (set is \<union> sset u) \<inter> D = {}"

definition given_apart :: "string set \<Rightarrow> system \<Rightarrow> bool" where
  "given_apart D y \<longleftrightarrow> all_apart D (concat (map ids_of (threads y))) (uuids (shared y))"

lemma all_apart_draw:
  assumes "all_apart D (A @ own @ B) u"
  shows "all_apart D (A @ take k (own @ stake n u) @ B) (sdrop n u)"
proof -
  have fresh: "distinct (stake n u)" "set (stake n u) \<inter> sset (sdrop n u) = {}" "unrepeated (sdrop n u)"
    using assms unrepeated_stake [of u n] unrepeated_sdrop [of u n] by (simp_all add: all_apart_def)
  have sub: "set (stake n u) \<subseteq> sset u" "sset (sdrop n u) \<subseteq> sset u"
    by (auto dest: set_stake_subset sset_sdrop_subset)
  let ?own = "own @ stake n u"
  have "set ?own \<inter> sset (sdrop n u) = {}" "set ?own \<inter> (set A \<union> set B) = {}" "set ?own \<inter> D = {}"
    "(set A \<union> set B) \<inter> sset (sdrop n u) = {}" "(set A \<union> set B \<union> sset (sdrop n u)) \<inter> D = {}"
    and d: "distinct ?own" "distinct A" "distinct B" "set A \<inter> set B = {}"
    using assms fresh sub unfolding all_apart_def by auto
  moreover have "set (take k ?own) \<subseteq> set ?own" by (rule set_take_subset)
  ultimately have "set (take k ?own) \<inter> sset (sdrop n u) = {}" "set (take k ?own) \<inter> set A = {}"
    "set (take k ?own) \<inter> set B = {}" "set (take k ?own) \<inter> D = {}"
    "set A \<inter> sset (sdrop n u) = {}" "set B \<inter> sset (sdrop n u) = {}"
    "set A \<inter> D = {}" "set B \<inter> D = {}" "sset (sdrop n u) \<inter> D = {}"
    by blast+
  moreover have "distinct (take k ?own)" using d(1) by (rule distinct_take)
  ultimately show ?thesis
    using fresh(3) d(2-4) unfolding all_apart_def set_append distinct_append by (simp only: Int_Un_distrib2) auto
qed

lemma given_apart_step:
  assumes "given_apart D y" shows "given_apart D (sys_step X K e y)"
proof (cases e)
  case (Arrive c)
  then show ?thesis using assms by (simp add: given_apart_def)
next
  case (Run i)
  show ?thesis
  proof (cases "can_run i y")
    case True
    then obtain xs pc ys pc' s' where y: "y = \<lparr>threads = xs @ pc # ys, shared = shared y\<rparr>"
      and step: "step_call X K pc (shared y) = (pc', s')"
      and y': "sys_step X K (Run i) y = \<lparr>threads = xs @ pc' # ys, shared = s'\<rparr>"
      by (rule run_at [where X = X and K = K])
    have ts: "threads y = xs @ pc # ys" by (subst y) simp
    obtain n k where "uuids s' = sdrop n (uuids (shared y))"
      "ids_of pc' = take k (ids_of pc @ stake n (uuids (shared y)))"
      using draws_step [of pc "shared y" X K] step by (auto simp: draws_def)
    then show ?thesis
      using assms all_apart_draw [of D "concat (map ids_of xs)" "ids_of pc" "concat (map ids_of ys)"]
      unfolding Run y' given_apart_def ts by simp
  qed (use assms Run in \<open>simp add: sys_step_run del: sys_step.simps\<close>)
next
  case (Abandon i)
  show ?thesis
  proof (cases "can_abandon i y")
    case True
    then obtain xs pc ys where y: "y = \<lparr>threads = xs @ pc # ys, shared = shared y\<rparr>"
      and y': "sys_step X K (Abandon i) y = \<lparr>threads = xs @ Abandoned # ys, shared = shared y\<rparr>"
      by (rule abandon_at [where X = X and K = K])
    have ts: "threads y = xs @ pc # ys" by (subst y) simp
    show ?thesis
      using assms all_apart_draw [of D "concat (map ids_of xs)" "ids_of pc" "concat (map ids_of ys)" _ 0 0]
      unfolding Abandon y' given_apart_def ts by simp
  qed (use assms Abandon in \<open>simp add: sys_step_abandon del: sys_step.simps\<close>)
qed

interpretation given: machine "sys_step X K" "given_apart D"
  for X :: codec and K :: key_order and D :: "string set"
  by unfold_locales (rule given_apart_step)

lemma given_apart_idle: "well_formed s \<Longrightarrow> given_apart (fset (fmdom (in_flight s))) (idle_system s)"
  by (auto simp: given_apart_def all_apart_def idle_system_def well_formed_def ids_ok_def)

lemma delivered_distinct:
  "all_apart D (concat (map ids_of ts)) u \<Longrightarrow> all_apart D (concat (map delivered_ids ts)) u"
proof -
  have sub: "set (concat (map delivered_ids ts)) \<subseteq> set (concat (map ids_of ts))" for ts
  proof (induction ts)
    case (Cons pc ts)
    then show ?case using delivered_of [of pc] by auto
  qed simp
  have "distinct (concat (map ids_of ts)) \<Longrightarrow> distinct (concat (map delivered_ids ts))"
  proof (induction ts)
    case (Cons pc ts)
    have "set (ids_of pc) \<inter> set (concat (map ids_of ts)) = {}" using Cons.prems by simp
    moreover have "set (delivered_ids pc) \<subseteq> set (ids_of pc)" using delivered_of [of pc] by auto
    ultimately have "set (delivered_ids pc) \<inter> set (concat (map delivered_ids ts)) = {}"
      using sub [of ts] by blast
    then show ?case using Cons delivered_of [of pc] by auto
  qed simp
  then show "all_apart D (concat (map ids_of ts)) u \<Longrightarrow> all_apart D (concat (map delivered_ids ts)) u"
    using sub [of ts] unfolding all_apart_def by blast
qed

section \<open>Messages on their way to a client\<close>

text \<open>The messages of the tasks the reply of a call carries, and those a dequeue has taken out for its reply.\<close>

fun handed :: "pc \<Rightarrow> byte list multiset" where
  "handed (Finished (Delivered (Inr (Some t)))) = {#task_data t#}"
| "handed (Finished (Delivered_batch (Inr ts))) = mset (map task_data ts)"
| "handed _ = {#}"

fun taken_out :: "pc \<Rightarrow> byte list multiset" where
  "taken_out (Dequeue_log q item tid) = {#item_data item#}"
| "taken_out (Dequeue_deliver q item tid) = {#item_data item#}"
| "taken_out (Dequeue_batch_log q popped ids) = payloads popped"
| "taken_out (Dequeue_batch_deliver q todo tasks) = payloads (map snd todo) + mset (map task_data tasks)"
| "taken_out pc = handed pc"

text \<open>The messages a rejection, or the cleanup, puts back into a queue.\<close>

fun put_back_at :: "pc \<Rightarrow> byte list multiset" where
  "put_back_at (Nack_return k t) = {#task_data t#}"
| "put_back_at _ = {#}"

fun put_back_by :: "schedule_event \<Rightarrow> system \<Rightarrow> byte list multiset" where
  "put_back_by (Run i) y = (if can_run i y then put_back_at (threads y ! i) else {#})"
| "put_back_by _ y = {#}"

text \<open>A step takes from the queues what it takes out, and nothing else brings messages in.\<close>

definition takes :: "pc \<Rightarrow> storage \<Rightarrow> pc \<times> storage \<Rightarrow> bool" where
  "takes pc s x \<longleftrightarrow>
     queued (queues (snd x)) + taken_out (fst x) \<subseteq>#
       queued (queues s) + taken_out pc + (accepted_at pc s + put_back_at pc)"

lemma takes_logging:
  assumes "\<And>e w c. takes pc s (f e (s\<lparr>wal := w, clock := c\<rparr>))"
    and "\<And>w c. takes pc s (g (s\<lparr>wal := w, clock := c\<rparr>))"
  shows "takes pc s (logging X a f g s)"
  by (cases X a s rule: step_cases) (use assms in \<open>auto simp: logging_def log_op_step\<close>)

text \<open>Steps that leave the queues alone.\<close>

lemma takes_nothing: "queues (snd x) = queues s \<Longrightarrow> taken_out (fst x) = {#} \<Longrightarrow> takes pc s x"
  by (simp add: takes_def)

lemma takes_same: "queues (snd x) = queues s \<Longrightarrow> taken_out (fst x) = taken_out pc \<Longrightarrow> takes pc s x"
  by (simp add: takes_def)

lemma taken_after_nack [simp]: "taken_out (after_nack k r) = {#}"
  by (auto simp: after_nack_def split: option.split)

lemma takes_begin_nack: "takes pc s (begin_nack k i s)"
  by (auto simp: begin_nack_def intro!: takes_nothing split: option.split)

lemma takes_begin: "takes (Begin c) s (begin_call K c s)"
proof (cases c)
  case (Dequeue_one q)
  show ?thesis
  proof (cases "fmlookup (queues s) q")
    case (Some xs)
    then show ?thesis
      using Dequeue_one queued_pop [OF Some, of "{#item_data (hd xs)#}" "tl xs"]
      by (cases xs) (auto simp: takes_def)
  qed (simp add: Dequeue_one takes_nothing)
next
  case (Dequeue_batch q n)
  show ?thesis
  proof (cases "fmlookup (queues s) q")
    case (Some xs)
    have "payloads (take (unat n) xs) + queued (fmupd q (drop (unat n) xs) (queues s)) = queued (queues s)"
      by (rule queued_pop [OF Some]) (simp flip: payloads_simps(3))
    then show ?thesis using Dequeue_batch Some by (auto simp: takes_def pop_items_eq ac_simps)
  qed (simp add: Dequeue_batch takes_nothing)
next
  case (Nack_one i)
  then show ?thesis by (simp add: takes_begin_nack)
next
  case (Cleanup_expired_tasks n)
  then show ?thesis
    using scan_state [of K n s] by (auto intro!: takes_nothing split: prod.split sum.split)
qed (auto simp: done_with_def intro!: takes_nothing split: option.split)

lemma takes_step:
  assumes "pc_ok pc (queues s)" shows "takes pc s (step_call X K pc s)"
proof (cases pc)
  case (Begin c)
  then show ?thesis using takes_begin by simp
next
  case (Create_insert n)
  then show ?thesis
    using queued_put [of n "[]" s] by (auto simp: takes_def done_with_def) (metis mset_subset_eq_add_left)
next
  case (Enqueue_push q d)
  then show ?thesis
    using queued_push [of "queues s" q _ "_ @ [\<lparr>item_data = d, item_attempts = 0\<rparr>]" "{#d#}"]
    by (auto simp: takes_def done_with_def fmdom_lookup split: option.split)
next
  case (Enqueue_batch_push q ds)
  then show ?thesis
    using queued_push [of "queues s" q _ "_ @ map fresh_item ds" "mset ds"]
    by (auto simp: takes_def done_with_def fmdom_lookup push_all split: option.split)
next
  case (Dequeue_log q item tid)
  have "takes pc s (Finished (Delivered (Inl (Err e))),
      s\<lparr>wal := w, clock := c, queues := fmupd q (item # content q s) (queues s)\<rparr>)" for e w c
    using Dequeue_log queued_put [of q "item # content q s" s] by (simp add: takes_def)
  then show ?thesis
    unfolding Dequeue_log step_call.simps
    by (intro takes_logging) (auto simp: content_def takes_def)
next
  case (Dequeue_deliver q item tid)
  then show ?thesis by (simp add: takes_def Let_def)
next
  case (Dequeue_batch_log q popped ids)
  have "takes pc s (Finished (Delivered_batch (Inl (Err e))),
      s\<lparr>wal := w, clock := c, queues := fmupd q (popped @ content q s) (queues s)\<rparr>)" for e w c
    using Dequeue_batch_log queued_put [of q "popped @ content q s" s] by (simp add: takes_def)
  then show ?thesis
    unfolding Dequeue_batch_log step_call.simps
    by (intro takes_logging)
      (use assms Dequeue_batch_log in \<open>auto simp: content_def takes_def push_front_all\<close>)
next
  case (Dequeue_batch_deliver q todo tasks)
  then show ?thesis by (cases todo) (auto simp: takes_def Let_def)
next
  case (Nack_return k t)
  then show ?thesis
    using assms queued_returned [of t "queues s"] by (simp add: takes_def requeue_eq)
next
  case (Ack_batch_check ids todo missing)
  then show ?thesis by (cases todo) (auto simp: done_with_def intro!: takes_nothing)
next
  case (Ack_batch_remove ids)
  then show ?thesis by (cases ids) (auto simp: done_with_def intro!: takes_nothing)
next
  case (Cleanup_next ids n)
  then show ?thesis by (cases ids) (auto intro!: takes_nothing takes_begin_nack)
next
  case (Finished r)
  then show ?thesis by (auto intro: takes_same)
qed (auto simp: done_with_def intro!: takes_nothing takes_logging)

text \<open>What is in the queues, and what was taken out of them.\<close>

definition out_or_in :: "system \<Rightarrow> byte list multiset" where
  "out_or_in y = queued (queues (shared y)) + sum_list (map taken_out (threads y))"

lemma out_or_in_split:
  "out_or_in \<lparr>threads = xs @ pc # ys, shared = s\<rparr> =
     (queued (queues s) + taken_out pc) + sum_list (map taken_out (xs @ ys))"
  by (simp add: out_or_in_def ac_simps)

lemma out_or_in_step:
  assumes "sys_ok y"
  shows "out_or_in (sys_step X K e y) \<subseteq># out_or_in y + (accepted_by e y + put_back_by e y)"
proof (cases e)
  case (Arrive c)
  then show ?thesis by (simp add: out_or_in_def)
next
  case (Run i)
  show ?thesis
  proof (cases "can_run i y")
    case True
    then obtain xs pc ys pc' s' where y: "y = \<lparr>threads = xs @ pc # ys, shared = shared y\<rparr>"
      and pc: "threads y ! i = pc" and step: "step_call X K pc (shared y) = (pc', s')"
      and y': "sys_step X K (Run i) y = \<lparr>threads = xs @ pc' # ys, shared = s'\<rparr>"
      by (rule run_at [where X = X and K = K])
    have old: "out_or_in y = (queued (queues (shared y)) + taken_out pc) + sum_list (map taken_out (xs @ ys))"
      by (subst y) (rule out_or_in_split)
    have "pc_ok pc (queues (shared y))" using sys_ok_pc [OF assms True] pc by simp
    from takes_step [OF this, of X K] step
    have "queued (queues s') + taken_out pc' \<subseteq>#
        (queued (queues (shared y)) + taken_out pc) + (accepted_at pc (shared y) + put_back_at pc)"
      by (simp add: takes_def)
    from subset_mset.add_right_mono [OF this, of "sum_list (map taken_out (xs @ ys))"]
    show ?thesis
      unfolding Run y' out_or_in_split old accepted_by.simps put_back_by.simps pc using True
      by (simp only: if_True ac_simps)
  qed (use Run in \<open>simp add: sys_step_run del: sys_step.simps\<close>)
next
  case (Abandon i)
  show ?thesis
  proof (cases "can_abandon i y")
    case True
    then obtain xs pc ys where y: "y = \<lparr>threads = xs @ pc # ys, shared = shared y\<rparr>"
      and y': "sys_step X K (Abandon i) y = \<lparr>threads = xs @ Abandoned # ys, shared = shared y\<rparr>"
      by (rule abandon_at [where X = X and K = K])
    have old: "out_or_in y = (queued (queues (shared y)) + taken_out pc) + sum_list (map taken_out (xs @ ys))"
      by (subst y) (rule out_or_in_split)
    show ?thesis unfolding Abandon y' out_or_in_split old by (simp add: subset_mset.add_right_mono)
  qed (use Abandon in \<open>simp add: sys_step_abandon del: sys_step.simps\<close>)
qed

lemma out_or_in_run:
  "sys_ok y \<Longrightarrow> out_or_in (run (sys_step X K) events y) \<subseteq>#
     out_or_in y + (total (sys_step X K) accepted_by events y + total (sys_step X K) put_back_by events y)"
proof (induction events arbitrary: y)
  case (Cons e events)
  let ?y = "sys_step X K e y"
  let ?later = "total (sys_step X K) accepted_by events ?y + total (sys_step X K) put_back_by events ?y"
  have "out_or_in (run (sys_step X K) events ?y) \<subseteq># out_or_in ?y + ?later"
    by (rule Cons.IH [OF sys_step_ok(1) [OF Cons.prems]])
  also have "\<dots> \<subseteq># (out_or_in y + (accepted_by e y + put_back_by e y)) + ?later"
    by (rule subset_mset.add_right_mono [OF out_or_in_step [OF Cons.prems]])
  finally show ?case by (simp add: ac_simps del: sys_step.simps)
qed simp

lemma handed_out: "sum_list (map handed (threads y)) \<subseteq># out_or_in y"
proof -
  have one: "handed pc \<subseteq># taken_out pc" for pc by (cases pc rule: taken_out.cases) auto
  have "sum_list (map handed ts) \<subseteq># sum_list (map taken_out ts)" for ts
    by (induction ts) (simp_all add: subset_mset.add_mono one)
  then show ?thesis unfolding out_or_in_def by (rule subset_mset.trans) simp
qed

text \<open>
  C9: no message is delivered twice. Let any calls arrive, run their steps in any order, fail to log
  and be abandoned. The identifiers of all tasks that the replies of all finished dequeues carry,
  single or in batches, are different from each other, from those of the tasks in flight at the
  start, and from those still to be generated (identifiers do not repeat: they are random). And the
  messages of these tasks, each counted as often as it was delivered, are among those in the queues
  at the start, those accepted since, and those that rejections and the cleanup put back: a message
  goes to a second client only after it was put back.
\<close>

theorem each_task_delivered_once:
  assumes "well_formed s" and "y = run (sys_step X K) events (idle_system s)"
  shows "distinct (concat (map delivered_ids (threads y))) \<and>
    set (concat (map delivered_ids (threads y))) \<inter>
      (fset (fmdom (in_flight s)) \<union> sset (uuids (shared y))) = {} \<and>
    sum_list (map handed (threads y)) \<subseteq># queued (queues s) +
      (total (sys_step X K) accepted_by events (idle_system s) +
       total (sys_step X K) put_back_by events (idle_system s))"
proof -
  have "out_or_in (idle_system s) = queued (queues s)" by (simp add: out_or_in_def idle_system_def)
  then have "sum_list (map handed (threads y)) \<subseteq># queued (queues s) +
      (total (sys_step X K) accepted_by events (idle_system s) +
       total (sys_step X K) put_back_by events (idle_system s))"
    using subset_mset.trans [OF handed_out out_or_in_run [OF sys_ok_idle [OF assms(1)], of X K events]] assms(2)
    by simp
  moreover have "all_apart (fset (fmdom (in_flight s))) (concat (map delivered_ids (threads y))) (uuids (shared y))"
    using delivered_distinct given.inv_run [OF given_apart_idle [OF assms(1)], of X K events]
    unfolding assms(2) given_apart_def by blast
  ultimately show ?thesis by (auto simp: all_apart_def)
qed

definition two_waiting :: storage where
  "two_waiting = (new_storage numbered (sconst 0))\<lparr>queues := fmupd ''q'' [fresh_item [1], fresh_item [2]] fmempty\<rparr>"

lemma two_waiting_well_formed: "well_formed two_waiting"
  by (simp add: two_waiting_def well_formed_def new_storage_def flights_ok_def ids_ok_def)

lemma two_consumers_served:
  "threads (run (sys_step unary_codec (\<lambda>_. [])) two_consumers (idle_system two_waiting)) =
     [Finished (Delivered (Inr (Some (task_of (shd numbered) ''q'' 0 (fresh_item [1]))))),
      Finished (Delivered (Inr (Some (task_of (shd (stl numbered)) ''q'' 0 (fresh_item [2])))))]"
  by (simp add: two_consumers_def two_waiting_def step_defs new_storage_def log_op_step eval_nat_numeral
      Let_def task_of_def fresh_item_def)

theorem each_task_delivered_once_witness:
  "distinct (concat (map delivered_ids
      (threads (run (sys_step unary_codec (\<lambda>_. [])) two_consumers (idle_system two_waiting))))) \<and>
   concat (map delivered_ids
      (threads (run (sys_step unary_codec (\<lambda>_. [])) two_consumers (idle_system two_waiting)))) =
     [shd numbered, shd (stl numbered)] \<and>
   sum_list (map handed
      (threads (run (sys_step unary_codec (\<lambda>_. [])) two_consumers (idle_system two_waiting)))) = {#[1], [2]#}"
proof -
  have "distinct (concat (map delivered_ids
      (threads (run (sys_step unary_codec (\<lambda>_. [])) two_consumers (idle_system two_waiting)))))"
    using each_task_delivered_once [OF two_waiting_well_formed refl, of unary_codec "\<lambda>_. []" two_consumers] by blast
  then show ?thesis by (simp add: two_consumers_served fresh_item_def)
qed

end
