(* ===== verification/Threads_Crash.thy ===== *)
theory Threads_Crash
  imports Threads_Given Durability
begin

text \<open>
  The server killed in the middle of concurrent calls. Concurrent enqueues can cross the log, so a
  restart may take one message for another; but it loses none for it: counted, what is missing
  after the restart is at most what was acknowledged.
\<close>

section \<open>The account of a log\<close>

definition dead_letters :: "string \<Rightarrow> bool" where
  "dead_letters q \<longleftrightarrow> drop (length q - 4) q = ''_dlq''"

lemma dead_letters_dlq [simp]: "dead_letters (dlq_name q)"
  by (simp add: dead_letters_def dlq_name_def)

text \<open>What an entry puts into queues, how many tasks it acknowledges, and the identifiers it makes.\<close>

fun puts_of :: "wal_op \<Rightarrow> byte list multiset" where
  "puts_of (Enqueue q d) = {#d#}"
| "puts_of (EnqueueBatch q ds) = mset ds"
| "puts_of _ = {#}"

fun acks_of :: "wal_op \<Rightarrow> nat" where
  "acks_of (Ack i) = 1"
| "acks_of (AckBatch ids) = length ids"
| "acks_of _ = 0"

fun new_ids :: "wal_op \<Rightarrow> string list" where
  "new_ids (Dequeued q i) = [i]"
| "new_ids (DequeuedBatch q ids) = ids"
| "new_ids _ = []"

definition log_puts :: "wal_op list \<Rightarrow> byte list multiset" where
  "log_puts ops = sum_list (map puts_of ops)"

definition log_acks :: "wal_op list \<Rightarrow> nat" where
  "log_acks ops = sum_list (map acks_of ops)"

lemma log_simps [simp]:
  "log_puts [] = {#}" "log_puts (ops @ ops') = log_puts ops + log_puts ops'" "log_puts [a] = puts_of a"
  "log_acks [] = 0" "log_acks (ops @ ops') = log_acks ops + log_acks ops'" "log_acks [a] = acks_of a"
  by (simp_all add: log_puts_def log_acks_def)

definition view_messages :: "view \<Rightarrow> byte list multiset" where
  "view_messages v = queued (vqueues v) + flying (vflights v)"

lemma view_messages_of [simp]: "view_messages (view_of s) = messages s"
  by (simp add: view_messages_def messages_def flying_def fm_sum_fmmap)

abbreviation view_ok :: "view \<Rightarrow> bool" where
  "view_ok v \<equiv> flights_ok (vqueues v) (vflights v)"

text \<open>An entry that can be replayed without loss.\<close>

fun replayable :: "wal_op \<Rightarrow> view \<Rightarrow> bool" where
  "replayable (Enqueue q d) v \<longleftrightarrow> q |\<in>| fmdom (vqueues v)"
| "replayable (EnqueueBatch q ds) v \<longleftrightarrow> q |\<in>| fmdom (vqueues v)"
| "replayable a v \<longleftrightarrow> distinct (new_ids a) \<and> set (new_ids a) \<inter> fset (fmdom (vflights v)) = {}"

definition accounts :: "wal_op list \<Rightarrow> view \<Rightarrow> view \<Rightarrow> bool" where
  "accounts ops v v' \<longleftrightarrow>
     (\<exists>R. view_messages v' + R = view_messages v + log_puts ops \<and> size R \<le> log_acks ops)"

lemma accounts_trans: "accounts ops u v \<Longrightarrow> accounts ops' v w \<Longrightarrow> accounts (ops @ ops') u w"
proof -
  assume "accounts ops u v" and "accounts ops' v w"
  then obtain R R' where R: "view_messages v + R = view_messages u + log_puts ops" "size R \<le> log_acks ops"
    "view_messages w + R' = view_messages v + log_puts ops'" "size R' \<le> log_acks ops'"
    by (auto simp: accounts_def)
  have "view_messages w + (R + R') = (view_messages w + R') + R" by (simp add: ac_simps)
  also have "\<dots> = (view_messages v + log_puts ops') + R" by (simp only: R(3))
  also have "\<dots> = (view_messages v + R) + log_puts ops'" by (simp add: ac_simps)
  also have "\<dots> = view_messages u + log_puts (ops @ ops')" by (simp only: R(1) log_simps add.assoc)
  finally show "accounts (ops @ ops') u w"
    using R(2,4) unfolding accounts_def by (intro exI [of _ "R + R'"]) simp
qed

lemma accounts_same: "view_messages v' = view_messages v + log_puts ops \<Longrightarrow> accounts ops v v'"
  unfolding accounts_def by (rule exI [of _ "{#}"]) simp

lemma size_named: "size (named ids fl) \<le> length ids"
proof (induction ids arbitrary: fl)
  case (Cons i ids)
  then show ?case by (auto split: option.split intro: le_SucI)
qed simp

text \<open>What an entry does to the tasks and queues of a view.\<close>

definition grows :: "string list \<Rightarrow> view \<Rightarrow> view \<Rightarrow> bool" where
  "grows ids v v' \<longleftrightarrow>
     view_ok v' \<and> fmdom (vqueues v) |\<subseteq>| fmdom (vqueues v') \<and>
     fset (fmdom (vflights v')) \<subseteq> fset (fmdom (vflights v)) \<union> set ids"

lemma grows_refl: "view_ok v \<Longrightarrow> grows ids v v"
  by (auto simp: grows_def)

lemma grows_any: "grows [] v v' \<Longrightarrow> grows ids v v'"
  by (auto simp: grows_def)

lemma deliver_grows:
  assumes "view_ok v" and "i |\<notin>| fmdom (vflights v)"
  shows "grows [i] v (deliver q v i)" and "view_messages (deliver q v i) = view_messages v"
proof -
  have "grows [i] v (deliver q v i) \<and> view_messages (deliver q v i) = view_messages v"
  proof (cases "\<exists>item rest. fmlookup (vqueues v) q = Some (item # rest)")
    case True
    then obtain item rest where q: "fmlookup (vqueues v) q = Some (item # rest)" by blast
    have "flights_ok (fmupd q rest (vqueues v)) (fmupd i (task_of i q 0 item) (vflights v))"
      using assms(1) by (auto simp: flights_ok_def)
    moreover have "flying (fmupd i (task_of i q 0 item) (vflights v)) = add_mset (item_data item) (flying (vflights v))"
      using flying_insert [of "vflights v" i] assms(2) by (simp add: fmdom_lookup)
    moreover have "add_mset (item_data item) (queued (fmupd q rest (vqueues v))) = queued (vqueues v)"
      using queued_pop [OF q, of "{#item_data item#}" rest] by simp
    ultimately show ?thesis
      using q by (auto simp: deliver_def grows_def view_messages_def)
  next
    case False
    then have "deliver q v i = v" by (auto simp: deliver_def split: option.split list.split)
    then show ?thesis using assms(1) by (auto simp: grows_def)
  qed
  then show "grows [i] v (deliver q v i)" and "view_messages (deliver q v i) = view_messages v" by auto
qed

lemma deliver_all_grows:
  assumes "view_ok v" and "distinct ids" and "set ids \<inter> fset (fmdom (vflights v)) = {}"
  shows "grows ids v (foldl (deliver q) v ids) \<and> view_messages (foldl (deliver q) v ids) = view_messages v"
  using assms
proof (induction ids arbitrary: v)
  case Nil
  then show ?case by (simp add: grows_def)
next
  case (Cons i ids)
  have d: "grows [i] v (deliver q v i)" "view_messages (deliver q v i) = view_messages v"
    using deliver_grows [OF Cons.prems(1), of i q] Cons.prems(3) by auto
  have "set ids \<inter> fset (fmdom (vflights (deliver q v i))) = {}"
    using d(1) Cons.prems(2,3) by (auto simp: grows_def)
  then show ?case
    using Cons.IH [of "deliver q v i"] Cons.prems(2) d by (auto simp: grows_def)
qed

lemma apply_op_accounts:
  assumes "view_ok v" and "replayable a v"
  shows "grows (new_ids a) v (apply_op a v) \<and> accounts [a] v (apply_op a v)"
proof (cases a)
  case (CreateQueue n)
  then show ?thesis
    using assms(1) queued_new [of "vqueues v" n "[]"]
    by (auto simp: grows_def fmdom_lookup view_messages_def flights_ok_upd intro!: accounts_same)
next
  case (Enqueue q d)
  then obtain xs where xs: "fmlookup (vqueues v) q = Some xs" using assms(2) by (auto simp: fmdom_lookup)
  then show ?thesis
    using assms(1) Enqueue queued_push [OF xs, of "xs @ [fresh_item d]" "{#d#}"] payloads_fresh [of "[d]"]
    by (auto simp: grows_def push_def view_messages_def flights_ok_upd fresh_item_def intro!: accounts_same)
next
  case (EnqueueBatch q ds)
  then obtain xs where xs: "fmlookup (vqueues v) q = Some xs" using assms(2) by (auto simp: fmdom_lookup)
  then show ?thesis
    using assms(1) EnqueueBatch queued_push [OF xs, of "xs @ map fresh_item ds" "mset ds"]
    by (auto simp: grows_def push_def view_messages_def flights_ok_upd intro!: accounts_same)
next
  case (Dequeued q i)
  then show ?thesis
    using assms deliver_grows [OF assms(1), of i q] by (auto intro!: accounts_same)
next
  case (DequeuedBatch q ids)
  then show ?thesis
    using assms deliver_all_grows [OF assms(1), of ids q] by (auto intro!: accounts_same)
next
  case (Ack i)
  have "view_messages (apply_op a v) + named [i] (vflights v) = view_messages v"
    using flying_drop_all [of "[i]" "vflights v"] Ack by (simp add: view_messages_def ac_simps)
  then have "accounts [a] v (apply_op a v)"
    using size_named [of "[i]" "vflights v"] Ack unfolding accounts_def
    by (intro exI [of _ "named [i] (vflights v)"]) simp
  then show ?thesis using assms(1) Ack by (auto simp: grows_def flights_ok_drop)
next
  case (AckBatch ids)
  have "view_messages (v\<lparr>vflights := drop_all ids (vflights v)\<rparr>) + named ids (vflights v) = view_messages v"
    using flying_drop_all [of ids "vflights v"] by (simp add: view_messages_def ac_simps)
  then have "accounts [a] v (v\<lparr>vflights := drop_all ids (vflights v)\<rparr>)"
    using size_named [of ids "vflights v"] AckBatch unfolding accounts_def
    by (intro exI [of _ "named ids (vflights v)"]) simp
  moreover have "accounts [a] v v"
    using AckBatch by (intro accounts_same) simp
  moreover have "grows [] v (v\<lparr>vflights := drop_all ids (vflights v)\<rparr>)"
    using assms(1) by (auto simp: grows_def flights_ok_def fmdom_lookup split: if_splits)
  ultimately show ?thesis using assms(1) AckBatch by (simp add: grows_def)
next
  case (Nack i)
  show ?thesis
  proof (cases "fmlookup (vflights v) i")
    case None
    then show ?thesis using assms(1) Nack by (auto simp: grows_def intro!: accounts_same)
  next
    case (Some t)
    then have q: "task_queue t |\<in>| fmdom (vqueues v)" using assms(1) by (auto simp: flights_ok_def)
    have "flights_ok (returned t (vqueues v)) (fmdrop i (vflights v))"
      using assms(1) fmdom_returned [of "vqueues v" t] by (intro flights_ok_mono [OF assms(1)]) (auto split: if_splits)
    then show ?thesis
      using Some Nack queued_returned [OF q] flying_drop [OF Some] fmdom_returned [of "vqueues v" t]
      by (auto simp: grows_def view_messages_def intro!: accounts_same)
  qed
next
  case (ExtendVisibility i n)
  then show ?thesis using assms(1) by (auto simp: grows_def intro!: accounts_same)
qed

section \<open>One step and the log\<close>

text \<open>The entry a call is about to write.\<close>

fun log_entry :: "pc \<Rightarrow> wal_op option" where
  "log_entry (Create_log n) = Some (CreateQueue n)"
| "log_entry (Enqueue_log q d) = Some (Enqueue q d)"
| "log_entry (Enqueue_batch_log q ds) = Some (EnqueueBatch q ds)"
| "log_entry (Dequeue_log q item tid) = Some (Dequeued q tid)"
| "log_entry (Dequeue_batch_log q popped ids) = Some (DequeuedBatch q ids)"
| "log_entry (Ack_log i) = Some (Ack i)"
| "log_entry (Nack_log k i t) = Some (Nack i)"
| "log_entry (Extend_log i dur) = Some (ExtendVisibility i dur)"
| "log_entry (Ack_batch_log ids) = Some (AckBatch ids)"
| "log_entry _ = None"

text \<open>
  The identifiers a call will log, the messages it has logged and not yet put, and what it relies on
  the log to have (\<open>v\<close> is what the log replays to): the queue it logs a message for, unless that is a
  queue of dead letters, and the queue it is about to insert.
\<close>

fun to_log :: "pc \<Rightarrow> string list" where
  "to_log (Dequeue_log q item tid) = [tid]"
| "to_log (Dequeue_batch_log q popped ids) = ids"
| "to_log _ = []"

fun awaiting :: "pc \<Rightarrow> byte list multiset" where
  "awaiting (Enqueue_push q d) = {#d#}"
| "awaiting (Enqueue_batch_push q ds) = mset ds"
| "awaiting _ = {#}"

fun ready :: "pc \<Rightarrow> view \<Rightarrow> bool" where
  "ready (Begin (Queue q d)) v \<longleftrightarrow> \<not> dead_letters q"
| "ready (Begin (Queue_batch q ds)) v \<longleftrightarrow> \<not> dead_letters q"
| "ready (Enqueue_log q d) v \<longleftrightarrow> q |\<in>| fmdom (vqueues v)"
| "ready (Enqueue_batch_log q ds) v \<longleftrightarrow> q |\<in>| fmdom (vqueues v)"
| "ready (Create_insert n) v \<longleftrightarrow> n |\<in>| fmdom (vqueues v)"
| "ready _ v \<longleftrightarrow> True"

lemma ready_mono: "ready pc v \<Longrightarrow> fmdom (vqueues v) |\<subseteq>| fmdom (vqueues v') \<Longrightarrow> ready pc v'"
  by (cases "(pc, v)" rule: ready.cases) auto

text \<open>The queues of the storage, dead letters apart, are queues of the log.\<close>

definition covered :: "storage \<Rightarrow> view \<Rightarrow> bool" where
  "covered s v \<longleftrightarrow> (\<forall>q. q |\<in>| fmdom (queues s) \<longrightarrow> dead_letters q \<or> q |\<in>| fmdom (vqueues v))"

text \<open>What a step from \<open>pc\<close> in \<open>s\<close> to \<open>x\<close> does when it logs \<open>ops\<close>, which makes the view \<open>v'\<close>.\<close>

definition moves :: "wal_op list \<Rightarrow> view \<Rightarrow> pc \<Rightarrow> storage \<Rightarrow> pc \<times> storage \<Rightarrow> bool" where
  "moves ops v' pc s x \<longleftrightarrow>
     (\<exists>n k. uuids (snd x) = sdrop n (uuids s) \<and> to_log (fst x) = take k (to_log pc @ stake n (uuids s))) \<and>
     (ops \<noteq> [] \<longrightarrow> to_log (fst x) = []) \<and> covered (snd x) v' \<and> ready (fst x) v' \<and>
     awaiting (fst x) + accepted_at pc s \<subseteq># awaiting pc + log_puts ops"

lemma moves_none:
  assumes "uuids (snd x) = uuids s" and "to_log (fst x) = []" and "covered (snd x) v'" and "ready (fst x) v'"
    and "awaiting (fst x) + accepted_at pc s \<subseteq># awaiting pc + log_puts ops"
  shows "moves ops v' pc s x"
  using assms unfolding moves_def by (metis append_Nil sdrop.simps(1) take_0)

lemma moves_fresh:
  assumes "to_log pc = []" and "uuids (snd x) = sdrop n (uuids s)" and "to_log (fst x) = stake n (uuids s)"
    and "covered (snd x) v'" and "ready (fst x) v'" and "awaiting (fst x) = {#}" and "accepted_at pc s = {#}"
  shows "moves [] v' pc s x"
  unfolding moves_def
  by (intro conjI exI [of _ n]) (use assms in auto)

lemma covered_same: "covered s v \<Longrightarrow> fmdom (queues s') = fmdom (queues s) \<Longrightarrow> covered s' v"
  by (simp add: covered_def)

lemma covered_grow: "covered s v \<Longrightarrow> fmdom (vqueues v) |\<subseteq>| fmdom (vqueues v') \<Longrightarrow> covered s v'"
  by (auto simp: covered_def)

definition moved :: "codec \<Rightarrow> wal_entry list \<Rightarrow> view \<Rightarrow> pc \<Rightarrow> storage \<Rightarrow> pc \<times> storage \<Rightarrow> bool" where
  "moved X es v pc s x \<longleftrightarrow>
     (\<exists>fs. tracks False X (es @ fs) (snd x) \<and> map entry_op fs \<in> {[]} \<union> (\<lambda>a. [a]) ` set_option (log_entry pc) \<and>
        moves (map entry_op fs) (fold apply_op (map entry_op fs) v) pc s x)"

lemma moved_quiet:
  assumes "tracks False X es s" and "wal (snd x) = wal s" and "moves [] v pc s x"
  shows "moved X es v pc s x"
  unfolding moved_def by (rule exI [of _ "[]"]) (use assms in \<open>simp add: tracks_def\<close>)

lemma moved_logging:
  assumes "codec_law X" and "tracks False X es s" and "log_entry pc = Some a"
    and "\<And>e w c. wal (snd (f e (s\<lparr>wal := w, clock := c\<rparr>))) = w \<and> moves [] v pc s (f e (s\<lparr>wal := w, clock := c\<rparr>))"
    and "\<And>w c. wal (snd (g (s\<lparr>wal := w, clock := c\<rparr>))) = w \<and>
      moves [a] (apply_op a v) pc s (g (s\<lparr>wal := w, clock := c\<rparr>))"
  shows "moved X es v pc s (logging X a f g s)"
proof (cases X a s rule: step_cases)
  case (logged w c)
  have g: "logging X a f g s = g (s\<lparr>wal := w, clock := c\<rparr>)" by (simp add: logging_def log_op_step logged)
  have w: "wal (snd (g (s\<lparr>wal := w, clock := c\<rparr>))) = w" using assms(5) by blast
  obtain fs where fs: "tracks False X (es @ fs) (snd (g (s\<lparr>wal := w, clock := c\<rparr>)))" "map entry_op fs = [a]"
    using wal_step_tracks [OF assms(1,2) logged w] by auto
  show ?thesis
    unfolding moved_def g by (rule exI [of _ fs]) (use fs assms(3,5) in simp)
next
  case (failed e w c)
  have f: "logging X a f g s = f e (s\<lparr>wal := w, clock := c\<rparr>)" by (simp add: logging_def log_op_step failed)
  have w: "wal (snd (f e (s\<lparr>wal := w, clock := c\<rparr>))) = w" using assms(4) by blast
  obtain fs where fs: "tracks False X (es @ fs) (snd (f e (s\<lparr>wal := w, clock := c\<rparr>)))" "map entry_op fs = []"
    using wal_step_tracks [OF assms(1,2) failed w] by auto
  show ?thesis
    unfolding moved_def f by (rule exI [of _ fs]) (use fs assms(4) in simp)
qed

lemma after_nack_quiet [simp]: "to_log (after_nack k r) = []" "awaiting (after_nack k r) = {#}" "ready (after_nack k r) v"
  by (auto simp: after_nack_def split: option.split)

lemma moves_begin_nack:
  assumes "covered s v" and "accepted_at pc s = {#}"
  shows "moves [] v pc s (begin_nack k i s) \<and> wal (snd (begin_nack k i s)) = wal s"
  using assms by (auto simp: begin_nack_def covered_def intro!: moves_none split: option.split)

lemma moves_begin:
  assumes "covered s v" and "ready (Begin c) v"
  shows "moves [] v (Begin c) s (begin_call K c s) \<and> wal (snd (begin_call K c s)) = wal s"
proof (cases c)
  case (Dequeue_one q)
  then show ?thesis
    using assms moves_fresh [of "Begin c" _ 1 s]
    by (auto intro!: moves_none simp: covered_def fmdom_lookup split: option.split list.split)
next
  case (Dequeue_batch q n)
  have "moves [] v (Begin c) s (Dequeue_batch_log q popped (stake (length popped) (uuids s)),
      s\<lparr>queues := fmupd q rest (queues s), uuids := sdrop (length popped) (uuids s)\<rparr>)"
    if "fmlookup (queues s) q = Some xs" for popped rest xs
    using assms(1) that by (intro moves_fresh) (auto simp: covered_def fmdom_lookup)
  then show ?thesis
    using assms(1) Dequeue_batch
    by (auto intro!: moves_none simp: covered_def fmdom_lookup split: option.split prod.split)
next
  case (Nack_one i)
  then show ?thesis using assms moves_begin_nack [of s v "Begin c"] by simp
next
  case (Cleanup_expired_tasks n)
  then show ?thesis
    using assms scan_state [of K n s] by (auto intro!: moves_none simp: covered_def split: prod.split sum.split)
next
  case (Queue q d)
  then show ?thesis
    using assms by (auto simp: done_with_def covered_def intro!: moves_none)
next
  case (Queue_batch q ds)
  then show ?thesis
    using assms by (auto simp: done_with_def covered_def intro!: moves_none)
qed (use assms(1) in \<open>auto simp: done_with_def covered_def intro!: moves_none split: option.split\<close>)

lemma deliver_queues: "fmdom (vqueues v) |\<subseteq>| fmdom (vqueues (deliver q v i))"
  by (auto simp: deliver_def split: option.split list.split)

lemma deliver_all_queues: "fmdom (vqueues v) |\<subseteq>| fmdom (vqueues (foldl (deliver q) v ids))"
proof (induction ids arbitrary: v)
  case (Cons i ids)
  show ?case using deliver_queues [of v q i] Cons.IH [of "deliver q v i"] by auto
qed simp

lemma moved_step:
  assumes X: "codec_law X" and log: "tracks False X es s" and cov: "covered s v" and ready: "ready pc v"
    and ok: "pc_ok pc (queues s)"
  shows "moved X es v pc s (step_call X K pc s)"
proof (cases pc)
  case (Begin c)
  then show ?thesis using moves_begin [of s v c K] cov ready log by (auto intro: moved_quiet)
next
  case (Create_log n)
  show ?thesis
    unfolding Create_log step_call.simps
    by (rule moved_logging [OF X log])
      (use cov in \<open>auto simp: done_with_def covered_def intro!: moves_none\<close>)
next
  case (Create_insert n)
  show ?thesis
    by (rule moved_quiet [OF log])
      (use Create_insert cov ready in \<open>auto simp: done_with_def covered_def intro!: moves_none\<close>)
next
  case (Enqueue_log q d)
  show ?thesis
    unfolding Enqueue_log step_call.simps
    by (rule moved_logging [OF X log])
      (use cov in \<open>auto simp: done_with_def push_def covered_def intro!: moves_none split: option.split\<close>)
next
  case (Enqueue_push q d)
  show ?thesis
    by (rule moved_quiet [OF log])
      (use Enqueue_push cov in \<open>auto simp: done_with_def covered_def fmdom_lookup intro!: moves_none split: option.split\<close>)
next
  case (Enqueue_batch_log q ds)
  show ?thesis
    unfolding Enqueue_batch_log step_call.simps
    by (rule moved_logging [OF X log])
      (use cov in \<open>auto simp: done_with_def push_def covered_def intro!: moves_none split: option.split\<close>)
next
  case (Enqueue_batch_push q ds)
  show ?thesis
    by (rule moved_quiet [OF log])
      (use Enqueue_batch_push cov in \<open>auto simp: done_with_def covered_def fmdom_lookup intro!: moves_none split: option.split\<close>)
next
  case (Dequeue_log q item tid)
  have "covered s (deliver q v tid)"
    using cov by (rule covered_grow) (auto simp: deliver_def split: option.split list.split)
  then show ?thesis
    unfolding Dequeue_log step_call.simps
    by (intro moved_logging [OF X log])
      (use Dequeue_log cov ok in \<open>auto simp: covered_def intro!: moves_none\<close>)
next
  case (Dequeue_deliver q item tid)
  show ?thesis
    by (rule moved_quiet [OF log])
      (use Dequeue_deliver cov in \<open>auto simp: Let_def covered_def intro!: moves_none\<close>)
next
  case (Dequeue_batch_log q popped ids)
  have "covered s (foldl (deliver q) v ids)"
    using cov deliver_all_queues by (rule covered_grow)
  then show ?thesis
    unfolding Dequeue_batch_log step_call.simps
    by (intro moved_logging [OF X log])
      (use Dequeue_batch_log cov ok in \<open>auto simp: covered_def intro!: moves_none\<close>)
next
  case (Dequeue_batch_deliver q todo tasks)
  show ?thesis
    by (rule moved_quiet [OF log])
      (use Dequeue_batch_deliver cov in \<open>cases todo; auto simp: Let_def covered_def intro!: moves_none\<close>)+
next
  case (Ack_log i)
  show ?thesis
    unfolding Ack_log step_call.simps
    by (rule moved_logging [OF X log])
      (use cov in \<open>auto simp: done_with_def covered_def intro!: moves_none\<close>)
next
  case (Nack_log k i t)
  have "covered s (apply_op (Nack i) v)"
    using cov by (rule covered_grow) (auto simp: returned_def Let_def split: option.split)
  then show ?thesis
    unfolding Nack_log step_call.simps
    by (intro moved_logging [OF X log]) (use cov in \<open>auto simp: covered_def intro!: moves_none\<close>)
next
  case (Nack_restore k i t e)
  show ?thesis
    by (rule moved_quiet [OF log])
      (use Nack_restore cov in \<open>auto simp: covered_def intro!: moves_none\<close>)
next
  case (Nack_return k t)
  have "covered (s\<lparr>queues := returned t (queues s)\<rparr>) v"
    using cov ok Nack_return by (auto simp: covered_def returned_def Let_def fmdom_lookup split: option.splits if_splits)
  then show ?thesis
    using ok Nack_return
    by (intro moved_quiet [OF log]) (auto simp: requeue_eq intro!: moves_none)
next
  case (Extend_log i dur)
  show ?thesis
    unfolding Extend_log step_call.simps
    by (rule moved_logging [OF X log])
      (use cov in \<open>auto simp: done_with_def covered_def intro!: moves_none\<close>)
next
  case (Ack_batch_check ids todo missing)
  show ?thesis
    by (rule moved_quiet [OF log])
      (use Ack_batch_check cov in \<open>cases todo; auto simp: done_with_def covered_def intro!: moves_none\<close>)+
next
  case (Ack_batch_log ids)
  show ?thesis
    unfolding Ack_batch_log step_call.simps
    by (rule moved_logging [OF X log])
      (use cov in \<open>auto simp: done_with_def covered_def intro!: moves_none\<close>)
next
  case (Ack_batch_remove ids)
  show ?thesis
    by (rule moved_quiet [OF log])
      (use Ack_batch_remove cov in \<open>cases ids; auto simp: done_with_def covered_def intro!: moves_none\<close>)+
next
  case (Cleanup_next ids n)
  show ?thesis
  proof (cases ids)
    case Nil
    then show ?thesis
      using Cleanup_next cov by (intro moved_quiet [OF log]) (auto simp: covered_def intro!: moves_none)
  next
    case (Cons i todo)
    then show ?thesis
      using moves_begin_nack [OF cov, of pc "Some (todo, n)" i] Cleanup_next
      by (intro moved_quiet [OF log]) simp_all
  qed
qed (rule moved_quiet [OF log]; use cov in \<open>auto simp: done_with_def covered_def intro!: moves_none\<close>)+

section \<open>The whole system and its log\<close>

text \<open>
  \<open>v0\<close> is what the log held at the start, \<open>es\<close> its entries then, and \<open>A\<close> what was accepted since.
\<close>

definition ahead_of :: "codec \<Rightarrow> wal_entry list \<Rightarrow> view \<Rightarrow> byte list multiset \<Rightarrow> wal_entry list \<Rightarrow> system \<Rightarrow> bool" where
  "ahead_of X es v0 A fs y \<longleftrightarrow>
     tracks False X (es @ fs) (shared y) \<and>
     (let ops = map entry_op fs; v = fold apply_op ops v0 in
       view_ok v \<and> accounts ops v0 v \<and> covered (shared y) v \<and> (\<forall>pc\<in>set (threads y). ready pc v) \<and>
       all_apart (fset (fmdom (vflights v))) (concat (map to_log (threads y))) (uuids (shared y)) \<and>
       A + sum_list (map awaiting (threads y)) \<subseteq># log_puts ops)"

definition plain_event :: "schedule_event \<Rightarrow> bool" where
  "plain_event e = (case e of Arrive c \<Rightarrow> ready (Begin c) empty_view | _ \<Rightarrow> True)"

lemma all_apart_log:
  assumes "all_apart D (A @ own @ B) u" and "D' \<subseteq> D \<union> set own"
  shows "all_apart D' (A @ B) u"
  using assms unfolding all_apart_def by auto

lemma entry_replayable:
  assumes "log_entry pc = Some a" and "ready pc v" and "all_apart (fset (fmdom (vflights v))) (A @ to_log pc @ B) u"
  shows "replayable a v" and "new_ids a = to_log pc \<or> new_ids a = []"
  using assms by (cases pc; auto simp: all_apart_def)+

lemma awaiting_split:
  "sum_list (map awaiting (xs @ pc # ys)) = awaiting pc + sum_list (map awaiting (xs @ ys))"
  by (simp add: ac_simps)

lemma ahead_of_split:
  "ahead_of X es v0 A fs \<lparr>threads = xs @ pc # ys, shared = s\<rparr> \<longleftrightarrow>
     (let v = fold apply_op (map entry_op fs) v0 in
       tracks False X (es @ fs) s \<and> view_ok v \<and> accounts (map entry_op fs) v0 v \<and> covered s v \<and>
       ready pc v \<and> (\<forall>pc\<in>set xs \<union> set ys. ready pc v) \<and>
       all_apart (fset (fmdom (vflights v))) (concat (map to_log xs) @ to_log pc @ concat (map to_log ys)) (uuids s) \<and>
       A + (awaiting pc + sum_list (map awaiting (xs @ ys))) \<subseteq># log_puts (map entry_op fs))"
  unfolding ahead_of_def Let_def system.simps awaiting_split by auto

text \<open>One call steps between the others, with an entry or without.\<close>

lemma ahead_of_call:
  assumes "codec_law X" and "ahead_of X es v0 A fs \<lparr>threads = xs @ pc # ys, shared = s\<rparr>"
    and "pc_ok pc (queues s)" and "step_call X K pc s = (pc', s')"
  shows "\<exists>gs. ahead_of X es v0 (A + accepted_at pc s) (fs @ gs) \<lparr>threads = xs @ pc' # ys, shared = s'\<rparr>"
proof -
  let ?v = "fold apply_op (map entry_op fs) v0" and ?rest = "sum_list (map awaiting (xs @ ys))"
  have old: "tracks False X (es @ fs) s" "view_ok ?v" "accounts (map entry_op fs) v0 ?v" "covered s ?v"
    "ready pc ?v" "\<forall>pc\<in>set xs \<union> set ys. ready pc ?v"
    "all_apart (fset (fmdom (vflights ?v))) (concat (map to_log xs) @ to_log pc @ concat (map to_log ys)) (uuids s)"
    "A + (awaiting pc + ?rest) \<subseteq># log_puts (map entry_op fs)"
    using assms(2) unfolding ahead_of_split Let_def by blast+
  obtain gs where gs: "tracks False X ((es @ fs) @ gs) s'"
    "map entry_op gs = [] \<or> (\<exists>a. log_entry pc = Some a \<and> map entry_op gs = [a])"
    and mv: "moves (map entry_op gs) (fold apply_op (map entry_op gs) ?v) pc s (pc', s')"
    using moved_step [OF assms(1) old(1,4,5) assms(3), of K] assms(4) by (fastforce simp: moved_def)
  let ?ops = "map entry_op gs" and ?v' = "fold apply_op (map entry_op gs) ?v"
  have ids: "grows (to_log pc) ?v ?v' \<and> accounts ?ops ?v ?v' \<and> (?ops = [] \<longrightarrow> ?v' = ?v)"
  proof (cases "?ops = []")
    case True
    have "accounts [] ?v ?v" by (rule accounts_same) simp
    with grows_refl [OF old(2)] show ?thesis unfolding True by simp
  next
    case False
    then obtain a where a: "log_entry pc = Some a" "?ops = [a]" using gs(2) by (elim disjE exE conjE) simp_all
    have "grows (new_ids a) ?v (apply_op a ?v) \<and> accounts [a] ?v (apply_op a ?v)"
      by (rule apply_op_accounts [OF old(2) entry_replayable(1) [OF a(1) old(5,7)]])
    then show ?thesis
      unfolding a(2) using entry_replayable(2) [OF a(1) old(5,7)] grows_any [of ?v _ "to_log pc"] by auto
  qed
  obtain n k where nk: "uuids s' = sdrop n (uuids s)" "to_log pc' = take k (to_log pc @ stake n (uuids s))"
    using mv by (auto simp: moves_def)
  have drawn: "all_apart (fset (fmdom (vflights ?v)))
      (concat (map to_log xs) @ to_log pc' @ concat (map to_log ys)) (uuids s')"
    unfolding nk by (rule all_apart_draw [OF old(7)])
  have apart: "all_apart (fset (fmdom (vflights ?v')))
      (concat (map to_log xs) @ to_log pc' @ concat (map to_log ys)) (uuids s')"
  proof (cases "?ops = []")
    case True
    then show ?thesis using drawn ids by simp
  next
    case False
    then have none: "to_log pc' = []" using mv by (simp add: moves_def)
    have "all_apart (fset (fmdom (vflights ?v))) (concat (map to_log xs) @ to_log pc @ concat (map to_log ys)) (uuids s')"
      using all_apart_draw [OF old(7), of "length (to_log pc)" n] nk(1)
      by (auto simp: all_apart_def)
    from all_apart_log [OF this, of "fset (fmdom (vflights ?v'))"] show ?thesis
      using ids none by (simp add: grows_def)
  qed
  have "awaiting pc' + accepted_at pc s \<subseteq># awaiting pc + log_puts ?ops" using mv by (simp add: moves_def)
  then have "(A + (awaiting pc + ?rest)) + (awaiting pc' + accepted_at pc s) \<subseteq>#
      log_puts (map entry_op fs) + (awaiting pc + log_puts ?ops)"
    by (rule subset_mset.add_mono [OF old(8)])
  then have "(A + accepted_at pc s + (awaiting pc' + ?rest)) + awaiting pc \<subseteq>#
      (log_puts (map entry_op fs) + log_puts ?ops) + awaiting pc"
    by (simp only: ac_simps)
  then have put: "A + accepted_at pc s + (awaiting pc' + ?rest) \<subseteq># log_puts (map entry_op fs) + log_puts ?ops"
    by (simp only: subset_mset.add_le_cancel_right)
  show ?thesis
  proof (rule exI [of _ gs])
    have "\<forall>pc\<in>set xs \<union> set ys. ready pc ?v'" using old(6) ids ready_mono by (auto simp: grows_def)
    moreover have "view_ok ?v'" "accounts (map entry_op (fs @ gs)) v0 ?v'"
      using ids accounts_trans [OF old(3)] by (auto simp: grows_def)
    moreover have "covered s' ?v'" "ready pc' ?v'" using mv by (simp_all add: moves_def)
    moreover have "fold apply_op (map entry_op (fs @ gs)) v0 = ?v'" by simp
    moreover have "log_puts (map entry_op (fs @ gs)) = log_puts (map entry_op fs) + log_puts ?ops" by simp
    ultimately show "ahead_of X es v0 (A + accepted_at pc s) (fs @ gs) \<lparr>threads = xs @ pc' # ys, shared = s'\<rparr>"
      using gs(1) apart put unfolding ahead_of_split Let_def append_assoc by presburger
  qed
qed

lemma all_apart_less: "all_apart D (A @ own @ B) u \<Longrightarrow> all_apart D (A @ B) u"
  by (rule all_apart_log) auto

lemma awaiting_less: "A + (M + N) \<subseteq># P \<Longrightarrow> A + N \<subseteq># (P :: 'a multiset)"
  by (rule subset_mset.trans [of _ "A + (M + N)"]) (simp_all add: subset_mset.add_left_mono)

lemma ahead_of_step:
  assumes "codec_law X" and "plain_event e" and "sys_ok y" and "ahead_of X es v0 A fs y"
  shows "\<exists>gs. ahead_of X es v0 (A + accepted_by e y) (fs @ gs) (sys_step X K e y)"
proof (cases e)
  case (Arrive c)
  then have "ready (Begin c) v" for v
    using assms(2) by (cases c) (simp_all add: plain_event_def)
  then have "ahead_of X es v0 A (fs @ []) (sys_step X K (Arrive c) y)"
    using assms(4) by (simp add: ahead_of_def Let_def)
  then show ?thesis using Arrive by (intro exI [of _ "[]"]) simp
next
  case (Run i)
  show ?thesis
  proof (cases "can_run i y")
    case True
    then obtain xs pc ys pc' s' where y: "y = \<lparr>threads = xs @ pc # ys, shared = shared y\<rparr>"
      and pc: "threads y ! i = pc" and step: "step_call X K pc (shared y) = (pc', s')"
      and y': "sys_step X K (Run i) y = \<lparr>threads = xs @ pc' # ys, shared = s'\<rparr>"
      by (rule run_at [where X = X and K = K])
    have "pc_ok pc (queues (shared y))" using sys_ok_pc [OF assms(3) True] pc by simp
    moreover have "ahead_of X es v0 A fs \<lparr>threads = xs @ pc # ys, shared = shared y\<rparr>" using assms(4) y by simp
    ultimately show ?thesis
      using ahead_of_call [OF assms(1) _ _ step] True pc unfolding Run y' accepted_by.simps by simp
  next
    case False
    then show ?thesis
      using assms(4) Run by (intro exI [of _ "[]"]) (simp add: sys_step_run del: sys_step.simps)
  qed
next
  case (Abandon i)
  show ?thesis
  proof (cases "can_abandon i y")
    case True
    then obtain xs pc ys where y: "y = \<lparr>threads = xs @ pc # ys, shared = shared y\<rparr>"
      and y': "sys_step X K (Abandon i) y = \<lparr>threads = xs @ Abandoned # ys, shared = shared y\<rparr>"
      by (rule abandon_at [where X = X and K = K])
    have "ahead_of X es v0 A fs \<lparr>threads = xs @ pc # ys, shared = shared y\<rparr>" using assms(4) y by simp
    then have "ahead_of X es v0 A (fs @ []) \<lparr>threads = xs @ Abandoned # ys, shared = shared y\<rparr>"
      unfolding ahead_of_split Let_def
      using all_apart_less awaiting_less [of A "awaiting pc" "sum_list (map awaiting (xs @ ys))"] by auto
    then show ?thesis unfolding Abandon y' by (intro exI [of _ "[]"]) simp
  next
    case False
    then show ?thesis
      using assms(4) Abandon by (intro exI [of _ "[]"]) (simp add: sys_step_abandon del: sys_step.simps)
  qed
qed

lemma ahead_of_run:
  assumes "codec_law X"
  shows "\<forall>e\<in>set events. plain_event e \<Longrightarrow> sys_ok y \<Longrightarrow> ahead_of X es v0 A fs y \<Longrightarrow>
    \<exists>gs. ahead_of X es v0 (A + total (sys_step X K) accepted_by events y) (fs @ gs) (run (sys_step X K) events y)"
proof (induction events arbitrary: y A fs)
  case Nil
  then show ?case by (intro exI [of _ "[]"]) simp
next
  case (Cons e events)
  obtain gs where gs: "ahead_of X es v0 (A + accepted_by e y) (fs @ gs) (sys_step X K e y)"
    using ahead_of_step [OF assms _ Cons.prems(2,3), of e K] Cons.prems(1) by auto
  have "\<forall>e\<in>set events. plain_event e" using Cons.prems(1) by simp
  from Cons.IH [OF this sys_step_ok(1) [OF Cons.prems(2)] gs]
  obtain hs where "ahead_of X es v0 (A + accepted_by e y + total (sys_step X K) accepted_by events (sys_step X K e y))
      ((fs @ gs) @ hs) (run (sys_step X K) events (sys_step X K e y))" by blast
  then show ?case by (intro exI [of _ "gs @ hs"]) (simp add: add.assoc del: sys_step.simps)
qed

lemma ahead_of_idle:
  assumes "tracks False X es s" and "well_formed s"
  shows "ahead_of X es (view_of s) {#} [] (idle_system s)"
proof -
  have "view_ok (view_of s)"
    using assms(2) by (auto simp: well_formed_def flights_ok_def)
  moreover have "accounts [] (view_of s) (view_of s)" by (rule accounts_same) simp
  moreover have "all_apart (fset (fmdom (in_flight s))) [] (uuids s)"
    using assms(2) by (auto simp: all_apart_def well_formed_def ids_ok_def)
  ultimately show ?thesis
    using assms(1) by (simp add: ahead_of_def idle_system_def covered_def Let_def)
qed

text \<open>
  Killed at any moment of any schedule, the storage leaves a log that has what was accepted, and that
  replays to as many messages: what the restart misses is no more than the log acknowledges.
\<close>

lemma crash_account:
  assumes "codec_law X" and "log_file X es f"
    and "\<forall>r \<in> sset (disk_writes f) \<union> sset (disk_flushes f). clean_outcome r"
    and "new_persistent X f u c = Inr s" and "well_formed s" and "\<forall>e\<in>set events. plain_event e"
  shows "\<exists>m fs r R. wal (shared (run (sys_step X K) events (idle_system s))) = Some m \<and>
    replay X (file_after m) = Inr (es @ fs) \<and>
    total (sys_step X K) accepted_by events (idle_system s) \<subseteq># log_puts (map entry_op fs) \<and>
    new_persistent X (file_after m) u' c' = Inr r \<and>
    messages r + R = messages s + log_puts (map entry_op fs) \<and> size R \<le> log_acks (map entry_op fs)"
proof -
  have io: "io_ok False \<lparr>durable = [], pending = [], write_results = disk_writes f, flush_results = disk_flushes f\<rparr>"
    using assms(3) by (simp add: io_ok_def clean_io_def)
  obtain r0 where "new_persistent X f u c = Inr r0"
    "view_of r0 = fold apply_op (map entry_op es) empty_view" "tracks False X es r0"
    using restart_log_file [OF assms(1,2)] io by metis
  then have s: "view_of s = fold apply_op (map entry_op es) empty_view" "tracks False X es s"
    using assms(4) by auto
  obtain fs where fs: "ahead_of X es (view_of s) ({#} + total (sys_step X K) accepted_by events (idle_system s))
      ([] @ fs) (run (sys_step X K) events (idle_system s))"
    using ahead_of_run [OF assms(1,6) sys_ok_idle [OF assms(5)] ahead_of_idle [OF s(2) assms(5)]] by blast
  let ?A = "total (sys_step X K) accepted_by events (idle_system s)"
  have log: "tracks False X (es @ fs) (shared (run (sys_step X K) events (idle_system s)))"
    and acc: "accounts (map entry_op fs) (view_of s) (fold apply_op (map entry_op fs) (view_of s))"
    and sub: "?A + sum_list (map awaiting (threads (run (sys_step X K) events (idle_system s))))
      \<subseteq># log_puts (map entry_op fs)"
    using fs by (simp_all add: ahead_of_def Let_def)
  obtain m where m: "wal (shared (run (sys_step X K) events (idle_system s))) = Some m" "wal_ready X (es @ fs) m"
    using log by (auto simp: tracks_def)
  obtain r where r: "new_persistent X (file_after m) u' c' = Inr r"
    "view_of r = fold apply_op (map entry_op (es @ fs)) empty_view"
    using restart_log_file [OF assms(1) log_file_after [OF m(2)]] by metis
  then have "view_of r = fold apply_op (map entry_op fs) (view_of s)" by (simp add: s(1))
  then obtain R where "messages r + R = messages s + log_puts (map entry_op fs)" "size R \<le> log_acks (map entry_op fs)"
    using acc unfolding accounts_def by (metis view_messages_of)
  moreover have "?A \<subseteq># log_puts (map entry_op fs)"
    using sub mset_subset_eq_add_left subset_mset.trans by blast
  ultimately show ?thesis using m(1) replay_ready [OF assms(1) m(2)] r(1) by blast
qed

end
