(* ===== verification/Service.thy ===== *)
theory Service
  imports Server Threads_Runs Threads_Crash
begin

text \<open>
  The standalone server with its requests in parallel: the router of \<^verbatim>\<open>src/lib.rs\<close> runs one
  handler per connection, the handlers meet in the storage, whose calls run as threads of
  \<open>Threads\<close>, and a response goes out when its call has ended. The background cleanup is one more
  caller.
\<close>

section \<open>A handler is its call and what it makes of the reply\<close>

text \<open>The calls of a route, the statistics among them.\<close>

definition route_calls :: "('r, 'j) libraries \<Rightarrow> u64 \<Rightarrow> endpoint \<Rightarrow> request \<Rightarrow> call list" where
  "route_calls L hb ep r =
     (case (ep, req_method r) of
        (Health_check, GET) \<Rightarrow> [Get_stats]
      | (Stats, GET) \<Rightarrow> [Get_stats]
      | _ \<Rightarrow> endpoint_calls L hb ep r)"

text \<open>The call of the storage a request is about, if any.\<close>

definition request_call :: "('r, 'j) libraries \<Rightarrow> string \<Rightarrow> u64 \<Rightarrow> request \<Rightarrow> call option" where
  "request_call L pw hb req =
     (case find_route (path req) of
        None \<Rightarrow> None
      | Some ep \<Rightarrow>
          if public ep \<or> auth_ok (ct_eq L) pw (password_header req)
          then (case route_calls L hb ep (if req_method req = HEAD then req\<lparr>req_method := GET\<rparr> else req) of
                  [] \<Rightarrow> None
                | c # _ \<Rightarrow> Some c)
          else None)"

text \<open>What the handler of a route makes of the reply. No route asks for a cleanup.\<close>

definition answer :: "('r, 'j) libraries \<Rightarrow> endpoint \<Rightarrow> string option \<Rightarrow> reply \<Rightarrow> 'j response res" where
  "answer L ep accept r =
     (case r of
        Done x \<Rightarrow> (case ep of Queues \<Rightarrow> unit_result 201 400 x | _ \<Rightarrow> unit_result 200 404 x)
      | Delivered x \<Rightarrow>
          (case x of
             Inr (Some task) \<Rightarrow> Inr (task_response (header_ok L) task)
           | Inr None \<Rightarrow> Inr (only_status 204)
           | Inl (Err e) \<Rightarrow> Inr (text_response 404 e)
           | Inl (Panic p) \<Rightarrow> Inl (Panic p))
      | Delivered_batch x \<Rightarrow>
          (case x of
             Inr tasks \<Rightarrow> batch_response (value_lib L) accept tasks
           | Inl (Err e) \<Rightarrow> Inr (text_response 404 e)
           | Inl (Panic p) \<Rightarrow> Inl (Panic p))
      | Reported x \<Rightarrow>
          (case x of
             Inr v \<Rightarrow>
               Inr \<lparr>status = 200, headers = [],
                    body = (case ep of Health_check \<Rightarrow> Health None | _ \<Rightarrow> Stats_report v)\<rparr>
           | Inl (Err e) \<Rightarrow>
               (case ep of
                  Health_check \<Rightarrow> Inr \<lparr>status = 500, headers = [], body = Health (Some e)\<rparr>
                | _ \<Rightarrow> Inr (text_response 500 e))
           | Inl (Panic p) \<Rightarrow> Inl (Panic p))
      | Cleaned x \<Rightarrow> Inr (only_status 500))"

definition headers_only :: "'j response res \<Rightarrow> 'j response res" where
  "headers_only x = (case x of Inl p \<Rightarrow> Inl p | Inr r \<Rightarrow> Inr (r\<lparr>body := No_body\<rparr>))"

definition respond :: "('r, 'j) libraries \<Rightarrow> request \<Rightarrow> reply \<Rightarrow> 'j response res" where
  "respond L req r =
     (case find_route (path req) of
        None \<Rightarrow> Inr (only_status 404)
      | Some ep \<Rightarrow>
          (if req_method req = HEAD then headers_only else id) (answer L ep (accept_header req) r))"

text \<open>\<open>h\<close> makes the call \<open>c\<close> and answers with \<open>f\<close> of the reply.\<close>

definition serves_call ::
    "codec \<Rightarrow> key_order \<Rightarrow> (reply \<Rightarrow> 'j response res) \<Rightarrow> call \<Rightarrow> 'r app_state
      \<Rightarrow> 'j response res \<times> 'r app_state \<Rightarrow> bool" where
  "serves_call X K f c st x \<longleftrightarrow>
     x = (f (fst (perform X K c (app_storage st))), st\<lparr>app_storage := after X K c (app_storage st)\<rparr>)"

definition serves_first ::
    "codec \<Rightarrow> key_order \<Rightarrow> (reply \<Rightarrow> 'j response res) \<Rightarrow> call list \<Rightarrow> 'r app_state
      \<Rightarrow> ('r app_state \<Rightarrow> 'j response res \<times> 'r app_state) \<Rightarrow> bool" where
  "serves_first X K f cs st h \<longleftrightarrow>
     (case cs of [] \<Rightarrow> (\<exists>r. \<forall>s. h (st\<lparr>app_storage := s\<rparr>) = (r, st\<lparr>app_storage := s\<rparr>))
      | c # _ \<Rightarrow> serves_call X K f c st (h st))"

lemma serves_firstI:
  "(cs = [] \<Longrightarrow> \<exists>r. \<forall>s. h (st\<lparr>app_storage := s\<rparr>) = (r, st\<lparr>app_storage := s\<rparr>)) \<Longrightarrow>
   (\<And>c ds. cs = c # ds \<Longrightarrow> serves_call X K f c st (h st)) \<Longrightarrow> serves_first X K f cs st h"
  by (cases cs) (auto simp: serves_first_def)

lemma serves_none [simp]: "serves_first X K f [] st (\<lambda>st. (r, st))"
  by (simp add: serves_first_def)

lemma serves_one [simp]: "serves_first X K f [c] st h \<longleftrightarrow> serves_call X K f c st (h st)"
  by (simp add: serves_first_def)

lemma unit_write_serves:
  assumes "raft st = None" and "\<And>s. perform X K c s = map_prod Done id (g s)"
    and "\<And>x. f (Done x) = unit_result good bad x"
  shows "serves_call X K f c st (unit_write R good bad req g st)"
  using assms by (simp add: serves_call_def unit_write_def standalone_def split: prod.split)

lemma dequeue_serves:
  assumes "raft st = None" and "validate_queue_name q = Inr ()"
  shows "serves_call X K (answer L (Tasks p) acc) (Dequeue_one q) st (dequeue_handler X R (header_ok L) q st)"
  using assms
  by (cases "dequeue X q (app_storage st)")
    (auto simp: serves_call_def dequeue_handler_def answer_def standalone_def split: sum.split option.split fault.split)

lemma dequeue_batch_serves:
  assumes "raft st = None" and "validate_queue_name q = Inr ()"
  shows "serves_call X K (answer L (Tasks_batch p) acc) (Dequeue_batch q (case n of None \<Rightarrow> 10 | Some k \<Rightarrow> k)) st
    (dequeue_batch_handler X R (value_lib L) q n acc st)"
  using assms
  by (cases "dequeue_batch X q (case n of None \<Rightarrow> 10 | Some k \<Rightarrow> k) (app_storage st)")
    (auto simp: serves_call_def dequeue_batch_handler_def answer_def standalone_def Let_def
      split: sum.split fault.split)

lemma stats_serves:
  assumes "raft st = None"
  shows "serves_call X K (answer L Stats acc) Get_stats st (get_stats_handler R st)"
    and "serves_call X K (answer L Health_check acc) Get_stats st (health_check st)"
  using assms
  by (auto simp: serves_call_def get_stats_handler_def health_check_def answer_def Let_def split: sum.split fault.split)

lemma serves_if_valid:
  assumes "validate_queue_name q = Inr () \<Longrightarrow> serves_call X K f c st (h st)"
    and "\<And>e s. validate_queue_name q = Inl e \<Longrightarrow>
      h (st\<lparr>app_storage := s\<rparr>) = (Inr (text_response 400 e), st\<lparr>app_storage := s\<rparr>)"
  shows "serves_first X K f (if_valid q c) st h"
  using assms by (cases "validate_queue_name q") (auto simp: serves_first_def if_valid_def)

lemma serves_within:
  "serves_first X K f cs st h \<Longrightarrow> serves_first X K f (if_within n req cs) st (within_limit n req h)"
  by (auto simp: serves_first_def if_within_def within_limit_def split: list.splits)

lemma serves_json:
  "serves_first X K f cs st h \<Longrightarrow> serves_first X K f (if_json L req cs) st (json_request L req h)"
  using serves_within [of X K f cs st h default_body_limit req]
  by (auto simp: if_json_def json_request_def [abs_def])

lemma if_json_none [simp]: "if_json L req [] = []"
  by (simp add: if_json_def if_within_def)

lemma serves_extracted:
  "(\<And>a. x = Inr a \<Longrightarrow> serves_first X K f (g a) st (h a)) \<Longrightarrow>
     serves_first X K f (case x of Inl _ \<Rightarrow> [] | Inr a \<Rightarrow> g a) st (extracted x h)"
  by (cases x) (auto simp: extracted_def [abs_def])

lemma handlers_serve:
  assumes "raft st = None"
  shows "serves_first X K (answer L Queues acc) (if_valid q (Create_queue q)) st (create_queue_handler X R q)"
    and "serves_first X K (answer L (Tasks p) acc) (if_valid q (Queue q d)) st (enqueue X R q d)"
    and "serves_first X K (answer L (Tasks p) acc) (if_valid q (Dequeue_one q)) st
      (dequeue_handler X R (header_ok L) q)"
    and "serves_first X K (answer L (Tasks_batch p) acc)
      (batch_calls (batch_items (value_lib L) ct b) q) st (queue_batch_handler X R (value_lib L) q ct b)"
    and "serves_first X K (answer L (Tasks_batch p) acc)
      (if_valid q (Dequeue_batch q (case n of None \<Rightarrow> 10 | Some k \<Rightarrow> k))) st
      (dequeue_batch_handler X R (value_lib L) q n acc)"
    and "serves_first X K (answer L (Ack_batch_of p) acc) [Ack_batch ids] st (ack_batch_handler X R ids)"
    and "serves_first X K (answer L (Ack_of p u) acc) [Ack_one t] st (ack_task X R q t)"
    and "serves_first X K (answer L (Nack_of p u) acc) [Nack_one t] st (nack_task X R q t)"
    and "serves_first X K (answer L (Heartbeat_of p u) acc)
      [Extend_visibility t (heartbeat_duration st)] st (heartbeat_task X R q t)"
proof -
  note writes = unit_write_serves [OF assms]
  show "serves_first X K (answer L Queues acc) (if_valid q (Create_queue q)) st (create_queue_handler X R q)"
    by (rule serves_if_valid) (auto simp: create_queue_handler_def answer_def intro: writes)
  show "serves_first X K (answer L (Tasks p) acc) (if_valid q (Queue q d)) st (enqueue X R q d)"
    by (rule serves_if_valid) (auto simp: enqueue_def answer_def intro: writes)
  show "serves_first X K (answer L (Tasks p) acc) (if_valid q (Dequeue_one q)) st
      (dequeue_handler X R (header_ok L) q)"
    by (rule serves_if_valid) (simp_all add: dequeue_serves [OF assms], simp add: dequeue_handler_def)
  show "serves_first X K (answer L (Tasks_batch p) acc)
      (batch_calls (batch_items (value_lib L) ct b) q) st (queue_batch_handler X R (value_lib L) q ct b)"
  proof (cases "\<exists>ds. batch_items (value_lib L) ct b = Inr (Inr ds)")
    case True
    then obtain ds where ds: "batch_items (value_lib L) ct b = Inr (Inr ds)" by blast
    show ?thesis
      unfolding batch_calls_def ds sum.case
      by (rule serves_if_valid) (auto simp: queue_batch_handler_def ds answer_def intro: writes)
  next
    case False
    then show ?thesis
      by (cases "validate_queue_name q"; cases "batch_items (value_lib L) ct b")
        (auto simp: serves_first_def batch_calls_def queue_batch_handler_def split: sum.split)
  qed
  show "serves_first X K (answer L (Tasks_batch p) acc)
      (if_valid q (Dequeue_batch q (case n of None \<Rightarrow> 10 | Some k \<Rightarrow> k))) st
      (dequeue_batch_handler X R (value_lib L) q n acc)"
    by (rule serves_if_valid) (simp_all add: dequeue_batch_serves [OF assms], simp add: dequeue_batch_handler_def)
  show "serves_first X K (answer L (Ack_batch_of p) acc) [Ack_batch ids] st (ack_batch_handler X R ids)"
    "serves_first X K (answer L (Ack_of p u) acc) [Ack_one t] st (ack_task X R q t)"
    "serves_first X K (answer L (Nack_of p u) acc) [Nack_one t] st (nack_task X R q t)"
    "serves_first X K (answer L (Heartbeat_of p u) acc)
      [Extend_visibility t (heartbeat_duration st)] st (heartbeat_task X R q t)"
    by (auto simp: ack_batch_handler_def ack_task_def nack_task_def heartbeat_task_def answer_def intro: writes)
qed

lemma handlers_serve_task:
  assumes "raft st = None"
  shows "serves_first X K (answer L (Ack_of p u) acc) [Ack_one (snd x)] st (case x of (n, i) \<Rightarrow> ack_task X R n i)"
    and "serves_first X K (answer L (Nack_of p u) acc) [Nack_one (snd x)] st (case x of (n, i) \<Rightarrow> nack_task X R n i)"
    and "serves_first X K (answer L (Heartbeat_of p u) acc)
      [Extend_visibility (snd x) (heartbeat_duration st)] st (case x of (n, i) \<Rightarrow> heartbeat_task X R n i)"
  by (simp_all only: split_beta handlers_serve(7-9) [OF assms])

lemma dispatch_serves:
  assumes "raft st = None"
  shows "serves_first X K (answer L ep (accept_header r)) (route_calls L (heartbeat_duration st) ep r) st
    (dispatch X L ep r)"
proof (cases ep)
  case Queues
  show ?thesis
    using serves_json [OF serves_extracted [OF handlers_serve(1) [OF assms]], of X K L "accept_header r" L r]
    by (cases "req_method r") (auto simp: Queues route_calls_def dispatch_def [abs_def])
next
  case (Tasks q)
  show ?thesis
    by (cases "req_method r")
      (simp_all add: Tasks route_calls_def dispatch_def [abs_def] serves_extracted serves_within
        handlers_serve(2,3) [OF assms])
next
  case (Tasks_batch q)
  show ?thesis
    by (cases "req_method r")
      (simp_all add: Tasks_batch route_calls_def dispatch_def [abs_def] serves_extracted serves_within
        handlers_serve(4,5) [OF assms])
next
  case (Ack_batch_of q)
  show ?thesis
    using serves_json [OF serves_extracted [OF handlers_serve(6) [OF assms]]]
    by (cases "req_method r") (auto simp: Ack_batch_of route_calls_def dispatch_def [abs_def])
next
  case (Raft_rpc f)
  have rpc: "serves_first X K (answer L ep (accept_header r)) [] st (raft_endpoint (raft_lib L) (f (req_body r)))"
    using assms by (simp add: serves_first_def raft_endpoint_def)
  show ?thesis
    using serves_json [OF serves_extracted [OF rpc], of L r "check_rpc L (f (req_body r))"]
    by (cases "req_method r") (auto simp: Raft_rpc route_calls_def dispatch_def [abs_def])
next
  case (Ack_of q t)
  show ?thesis
    by (cases "req_method r")
      (simp_all add: Ack_of route_calls_def dispatch_def [abs_def] serves_extracted handlers_serve_task [OF assms]
        del: serves_one)
next
  case (Nack_of q t)
  show ?thesis
    by (cases "req_method r")
      (simp_all add: Nack_of route_calls_def dispatch_def [abs_def] serves_extracted handlers_serve_task [OF assms]
        del: serves_one)
next
  case (Heartbeat_of q t)
  show ?thesis
    by (cases "req_method r")
      (simp_all add: Heartbeat_of route_calls_def dispatch_def [abs_def] serves_extracted handlers_serve_task [OF assms]
        del: serves_one)
next
  case Stats
  show ?thesis
    using stats_serves(1) [OF assms]
    by (cases "req_method r") (auto simp: Stats route_calls_def dispatch_def [abs_def])
next
  case Health_check
  show ?thesis
    using stats_serves(2) [OF assms]
    by (cases "req_method r") (auto simp: Health_check route_calls_def dispatch_def [abs_def])
next
  case Hello
  show ?thesis by (cases "req_method r") (auto simp: Hello route_calls_def dispatch_def [abs_def])
next
  case Raft_metrics
  show ?thesis
    using assms
    by (cases "req_method r") (auto simp: Raft_metrics route_calls_def dispatch_def [abs_def] raft_metrics_def serves_first_def)
qed

lemma without_body_headers: "without_body (x, st) = (headers_only x, st)"
  by (simp add: without_body_def headers_only_def split: sum.split)

lemma serves_without_body:
  "serves_first X K f cs st h \<Longrightarrow> serves_first X K (\<lambda>r. headers_only (f r)) cs st (\<lambda>st. without_body (h st))"
  by (auto simp: serves_first_def serves_call_def without_body_headers split: list.splits)

lemma handle_request_serves:
  assumes "raft st = None"
  shows "serves_first X K (respond L req)
    (case request_call L (password st) (heartbeat_duration st) req of None \<Rightarrow> [] | Some c \<Rightarrow> [c]) st
    (handle_request X L req)"
proof (cases "find_route (path req)")
  case None
  then show ?thesis by (simp add: serves_first_def handle_request_def request_call_def)
next
  case (Some ep)
  show ?thesis
  proof (cases "public ep \<or> auth_ok (ct_eq L) (password st) (password_header req)")
    case True
    let ?r = "if req_method req = HEAD then req\<lparr>req_method := GET\<rparr> else req"
    let ?h = "\<lambda>st. (if req_method req = HEAD then without_body else id) (dispatch X L ep ?r st)"
    have "serves_first X K (respond L req) (route_calls L (heartbeat_duration st) ep ?r) st ?h"
      using dispatch_serves [OF assms, of X K L ep ?r]
        serves_without_body [OF dispatch_serves [OF assms, of X K L ep ?r]]
      by (auto simp: respond_def [abs_def] Some)
    then show ?thesis
      using True Some
      by (auto simp: serves_first_def handle_request_def request_call_def split: list.splits)
  next
    case False
    then show ?thesis using Some by (simp add: serves_first_def handle_request_def request_call_def)
  qed
qed

text \<open>
  C22: a handler is its call and what it makes of the reply. On a standalone server a request that
  reaches the storage (with a known route and method, the password, a body within the limit that the
  extractors accept, and a valid queue name) is answered with the route's answer to the reply of one
  call of the storage, the one its route and inputs select, and leaves the storage that call leaves;
  any other request is answered without looking at the storage, and changes nothing.
\<close>

theorem request_is_call_and_answer:
  assumes "raft st = None"
  shows "case request_call L (password st) (heartbeat_duration st) req of
      Some c \<Rightarrow>
        handle_request X L req st =
          (respond L req (fst (perform X K c (app_storage st))),
           st\<lparr>app_storage := snd (perform X K c (app_storage st))\<rparr>)
    | None \<Rightarrow> \<exists>r. \<forall>s. handle_request X L req (st\<lparr>app_storage := s\<rparr>) = (r, st\<lparr>app_storage := s\<rparr>)"
  using handle_request_serves [OF assms, of X K L req]
  by (auto simp: serves_first_def serves_call_def split: option.split)

section \<open>Requests in parallel\<close>

text \<open>
  The callers of the storage, one per thread: a client with its request, or the background loop with
  one of its ticks. \<open>at_once\<close> are the requests answered without the storage.
\<close>

record 'j service =
  callers :: "request option list"
  at_once :: "(request \<times> 'j response res) list"
  calls_of :: system

datatype service_event = Receive request | Clean_up | Progress nat | Disconnect nat

definition open_service :: "'r app_state \<Rightarrow> 'j service" where
  "open_service st = \<lparr>callers = [], at_once = [], calls_of = idle_system (app_storage st)\<rparr>"

text \<open>The loop starts a cleanup when the one before has ended, unless that panicked.\<close>

fun cleaned_up :: "pc \<Rightarrow> bool" where
  "cleaned_up (Finished (Cleaned (Inl (Panic p)))) = False"
| "cleaned_up (Finished r) = True"
| "cleaned_up pc = False"

definition may_clean :: "'j service \<Rightarrow> bool" where
  "may_clean v \<longleftrightarrow> list_all (\<lambda>(c, pc). c = None \<longrightarrow> cleaned_up pc) (zip (callers v) (threads (calls_of v)))"

definition is_client :: "'j service \<Rightarrow> nat \<Rightarrow> bool" where
  "is_client v n \<longleftrightarrow> n < length (callers v) \<and> callers v ! n \<noteq> None"

text \<open>What an event is for the threads: only a client can go away.\<close>

fun thread_events ::
    "('r, 'j) libraries \<Rightarrow> u64 \<Rightarrow> 'r app_state \<Rightarrow> service_event \<Rightarrow> 'j service \<Rightarrow> schedule_event list" where
  "thread_events L timeout st (Receive req) v =
     (case request_call L (password st) (heartbeat_duration st) req of None \<Rightarrow> [] | Some c \<Rightarrow> [Arrive c])"
| "thread_events L timeout st Clean_up v =
     (if may_clean v then [Arrive (Cleanup_expired_tasks timeout)] else [])"
| "thread_events L timeout st (Progress n) v = [Run n]"
| "thread_events L timeout st (Disconnect n) v = (if is_client v n then [Abandon n] else [])"

fun new_callers ::
    "('r, 'j) libraries \<Rightarrow> 'r app_state \<Rightarrow> service_event \<Rightarrow> 'j service \<Rightarrow> request option list" where
  "new_callers L st (Receive req) v =
     (case request_call L (password st) (heartbeat_duration st) req of None \<Rightarrow> [] | Some c \<Rightarrow> [Some req])"
| "new_callers L st Clean_up v = (if may_clean v then [None] else [])"
| "new_callers L st _ v = []"

fun answers_at_once ::
    "codec \<Rightarrow> ('r, 'j) libraries \<Rightarrow> 'r app_state \<Rightarrow> service_event \<Rightarrow> (request \<times> 'j response res) list" where
  "answers_at_once X L st (Receive req) =
     (case request_call L (password st) (heartbeat_duration st) req of
        None \<Rightarrow> [(req, fst (handle_request X L req st))]
      | Some c \<Rightarrow> [])"
| "answers_at_once X L st _ = []"

definition service_step ::
    "codec \<Rightarrow> ('r, 'j) libraries \<Rightarrow> key_order \<Rightarrow> u64 \<Rightarrow> 'r app_state \<Rightarrow> service_event \<Rightarrow> 'j service
      \<Rightarrow> 'j service" where
  "service_step X L K timeout st e v =
     \<lparr>callers = callers v @ new_callers L st e v,
      at_once = at_once v @ answers_at_once X L st e,
      calls_of = run (sys_step X K) (thread_events L timeout st e v) (calls_of v)\<rparr>"

text \<open>The response a caller has been sent, if its call has ended.\<close>

fun response_to :: "('r, 'j) libraries \<Rightarrow> request option \<Rightarrow> pc \<Rightarrow> 'j response res option" where
  "response_to L (Some req) (Finished r) = Some (respond L req r)"
| "response_to L _ _ = None"

text \<open>The payloads of a request to put messages into a queue, and those confirmed with status 200.\<close>

fun call_payloads :: "call option \<Rightarrow> byte list multiset" where
  "call_payloads (Some (Queue q d)) = {#d#}"
| "call_payloads (Some (Queue_batch q ds)) = mset ds"
| "call_payloads _ = {#}"

definition confirmed_to ::
    "('r, 'j) libraries \<Rightarrow> 'r app_state \<Rightarrow> request option \<Rightarrow> pc \<Rightarrow> byte list multiset" where
  "confirmed_to L st caller pc =
     (case (caller, response_to L caller pc) of
        (Some req, Some (Inr resp)) \<Rightarrow>
          if status resp = 200
          then call_payloads (request_call L (password st) (heartbeat_duration st) req) else {#}
      | _ \<Rightarrow> {#})"

definition confirmed :: "('r, 'j) libraries \<Rightarrow> 'r app_state \<Rightarrow> 'j service \<Rightarrow> byte list multiset" where
  "confirmed L st v =
     sum_list (map (\<lambda>(c, pc). confirmed_to L st c pc) (zip (callers v) (threads (calls_of v))))"

section \<open>A thread serves its caller\<close>

fun putting :: "pc \<Rightarrow> bool" where
  "putting (Begin (Queue q d)) = True"
| "putting (Begin (Queue_batch q ds)) = True"
| "putting (Enqueue_log q d) = True"
| "putting (Enqueue_push q d) = True"
| "putting (Enqueue_batch_log q ds) = True"
| "putting (Enqueue_batch_push q ds) = True"
| "putting _ = False"

text \<open>The places of a call on its way, as far as the messages it puts are concerned.\<close>

fun serving :: "call \<Rightarrow> pc \<Rightarrow> bool" where
  "serving (Queue q d) pc \<longleftrightarrow>
     pc \<in> {Begin (Queue q d), Enqueue_log q d, Enqueue_push q d, Abandoned} \<or> (\<exists>r. pc = Finished (Done r))"
| "serving (Queue_batch q ds) pc \<longleftrightarrow>
     pc \<in> {Begin (Queue_batch q ds), Enqueue_batch_log q ds, Enqueue_batch_push q ds, Abandoned} \<or>
     (\<exists>r. pc = Finished (Done r))"
| "serving _ pc \<longleftrightarrow> \<not> putting pc"

lemma putting_after_nack [simp]: "\<not> putting (after_nack k r)"
  by (auto simp: after_nack_def split: option.split)

lemma not_putting_begin:
  assumes "\<not> putting (Begin c)" shows "\<not> putting (fst (begin_call K c s))"
proof (cases c)
  case (Cleanup_expired_tasks n)
  then show ?thesis by (simp split: prod.split sum.split)
qed (use assms in \<open>auto simp: done_with_def begin_nack_def Let_def split: option.split list.split prod.split\<close>)

lemma not_putting_step:
  assumes "\<not> putting pc" shows "\<not> putting (fst (step_call X K pc s))"
proof (cases "(X, K, pc, s)" rule: step_call.cases)
  case (1 X K c s)
  then show ?thesis using not_putting_begin assms by simp
qed (use assms in \<open>auto simp: done_with_def begin_nack_def logging_def Let_def
    split: option.split prod.split sum.split\<close>)

text \<open>What a call has put when it is at \<open>pc\<close>.\<close>

definition put :: "call \<Rightarrow> pc \<Rightarrow> byte list multiset" where
  "put c pc = (if pc = Finished (Done (Inr ())) then call_payloads (Some c) else {#})"

lemma serving_step:
  assumes "serving c pc" and "step_call X K pc s = (pc', s')"
  shows "serving c pc' \<and> put c pc' = put c pc + accepted_at pc s"
proof -
  have other: "serving c pc' \<and> put c pc' = put c pc + accepted_at pc s"
    if "call_payloads (Some c) = {#}" and "\<And>pc. serving c pc \<longleftrightarrow> \<not> putting pc"
  proof -
    have "\<not> putting pc" using that(2) assms(1) by blast
    then have "accepted_at pc s = {#}" by (cases pc rule: putting.cases) auto
    then show ?thesis
      using that not_putting_step [OF \<open>\<not> putting pc\<close>, of X K s] assms(2) by (simp add: put_def)
  qed
  show ?thesis
  proof (cases c)
    case (Queue q d)
    then show ?thesis
      using assms
      by (auto simp: put_def done_with_def logging_def fmdom_lookup split: if_splits option.splits sum.splits prod.splits)
  next
    case (Queue_batch q ds)
    then show ?thesis
      using assms
      by (auto simp: put_def done_with_def logging_def fmdom_lookup split: if_splits option.splits sum.splits prod.splits)
  qed (use other in simp_all)
qed

lemma serving_begin: "serving c (Begin c)" "put c (Begin c) = {#}"
  by (cases c; simp add: put_def)+

lemma serving_abandon:
  assumes "serving c pc" and "at_log pc"
  shows "serving c Abandoned" and "put c Abandoned = {#}" and "put c pc = {#}"
  using assms by (cases c; auto simp: put_def)+

section \<open>The whole service\<close>

fun caller_call :: "('r, 'j) libraries \<Rightarrow> u64 \<Rightarrow> 'r app_state \<Rightarrow> request option \<Rightarrow> call option" where
  "caller_call L timeout st None = Some (Cleanup_expired_tasks timeout)"
| "caller_call L timeout st (Some req) = request_call L (password st) (heartbeat_duration st) req"

definition works_for :: "('r, 'j) libraries \<Rightarrow> u64 \<Rightarrow> 'r app_state \<Rightarrow> request option \<Rightarrow> pc \<Rightarrow> bool" where
  "works_for L timeout st caller pc \<longleftrightarrow>
     (\<exists>c. caller_call L timeout st caller = Some c \<and> serving c pc \<and> confirmed_to L st caller pc = put c pc)"

lemma request_call_puts:
  assumes "request_call L pw hb req = Some c" and "call_payloads (Some c) \<noteq> {#} \<or> c = Queue q d \<or> c = Queue_batch q ds"
  shows "respond L req (Done x) = unit_result 200 404 x"
proof -
  have puts: "\<exists>n. (ep = Tasks n \<or> ep = Tasks_batch n) \<and> req_method r = POST"
    if "route_calls L hb ep r = c # cs" for ep r cs
    using that assms(2)
    by (cases ep; cases "req_method r")
      (auto simp: route_calls_def if_valid_def if_json_def if_within_def batch_calls_def split: if_splits sum.splits)
  obtain ep cs where ep: "find_route (path req) = Some ep"
    "route_calls L hb ep (if req_method req = HEAD then req\<lparr>req_method := GET\<rparr> else req) = c # cs"
    using assms(1) by (auto simp: request_call_def split: option.splits if_splits list.splits)
  from puts [OF this(2)] show ?thesis
    using ep(1) by (auto simp: respond_def answer_def split: if_splits)
qed

lemma confirmed_put:
  assumes "caller_call L timeout st caller = Some c" and "serving c pc"
  shows "confirmed_to L st caller pc = put c pc"
proof (cases caller)
  case None
  then show ?thesis using assms by (auto simp: confirmed_to_def put_def)
next
  case (Some req)
  then have rc: "request_call L (password st) (heartbeat_duration st) req = Some c" using assms(1) by simp
  show ?thesis
  proof (cases "call_payloads (Some c) = {#}")
    case True
    then show ?thesis
      using Some rc by (auto simp: confirmed_to_def put_def split: option.split sum.split)
  next
    case False
    have resp: "respond L req (Done x) = unit_result 200 404 x" for x
      using request_call_puts [OF rc] False by blast
    have "(\<exists>r. pc = Finished (Done r)) \<or> (\<forall>r. pc \<noteq> Finished r)"
      using False assms(2) by (cases c) auto
    then show ?thesis
    proof
      assume "\<exists>r. pc = Finished (Done r)"
      then obtain r where r: "pc = Finished (Done r)" by blast
      show ?thesis
      proof (cases r)
        case (Inl p)
        then show ?thesis
          using Some r resp by (cases p) (simp_all add: confirmed_to_def put_def unit_result_def text_response_def)
      next
        case (Inr u)
        then show ?thesis
          using Some r resp rc by (simp add: confirmed_to_def put_def unit_result_def only_status_def)
      qed
    next
      assume "\<forall>r. pc \<noteq> Finished r"
      then show ?thesis using Some by (cases pc) (auto simp: confirmed_to_def put_def)
    qed
  qed
qed

lemma works_for_begin: "caller_call L timeout st caller = Some c \<Longrightarrow> works_for L timeout st caller (Begin c)"
  using serving_begin confirmed_put by (fastforce simp: works_for_def)

lemma works_for_step:
  assumes "works_for L timeout st caller pc" and "step_call X K pc s = (pc', s')"
  shows "works_for L timeout st caller pc'"
    and "confirmed_to L st caller pc' = confirmed_to L st caller pc + accepted_at pc s"
  using assms(1) serving_step [OF _ assms(2)] confirmed_put [of L timeout st caller]
  unfolding works_for_def by (metis, metis)

lemma works_for_abandon:
  assumes "works_for L timeout st caller pc" and "at_log pc"
  shows "works_for L timeout st caller Abandoned"
    and "confirmed_to L st caller Abandoned = confirmed_to L st caller pc"
  using assms serving_abandon confirmed_put [of L timeout st caller]
  unfolding works_for_def by (metis, metis)

text \<open>What the callers of a list of threads have had confirmed.\<close>

abbreviation confirmed_all ::
    "('r, 'j) libraries \<Rightarrow> 'r app_state \<Rightarrow> request option list \<Rightarrow> pc list \<Rightarrow> byte list multiset" where
  "confirmed_all L st cs ts \<equiv> sum_list (map (\<lambda>(c, pc). confirmed_to L st c pc) (zip cs ts))"

lemma confirmed_all_split:
  "length as = length xs \<Longrightarrow> confirmed_all L st (as @ c # bs) (xs @ pc # ys) =
     confirmed_to L st c pc + (confirmed_all L st as xs + confirmed_all L st bs ys)"
  by (simp add: ac_simps)

definition all_work :: "('r, 'j) libraries \<Rightarrow> u64 \<Rightarrow> 'r app_state \<Rightarrow> request option list \<Rightarrow> system \<Rightarrow> bool" where
  "all_work L timeout st cs y \<longleftrightarrow> list_all2 (works_for L timeout st) cs (threads y)"

lemma all_work_at:
  assumes "all_work L timeout st cs y" and "threads y = xs @ pc # ys"
  shows "\<exists>as c bs. cs = as @ c # bs \<and> length as = length xs \<and> works_for L timeout st c pc \<and>
    (\<forall>pc'. works_for L timeout st c pc' \<longrightarrow> list_all2 (works_for L timeout st) cs (xs @ pc' # ys))"
proof -
  obtain as cbs where 1: "cs = as @ cbs" "list_all2 (works_for L timeout st) as xs"
    "list_all2 (works_for L timeout st) cbs (pc # ys)"
    using assms unfolding all_work_def assms(2) list_all2_append2 by blast
  obtain c bs where 2: "cbs = c # bs" "works_for L timeout st c pc" "list_all2 (works_for L timeout st) bs ys"
    using 1(3) unfolding list_all2_Cons2 by blast
  show ?thesis
    by (rule exI [of _ as], rule exI [of _ c], rule exI [of _ bs])
      (use 1(1,2) 2 in \<open>simp add: list_all2_appendI list_all2_lengthD [OF 1(2)]\<close>)
qed

lemma all_work_run:
  assumes "all_work L timeout st cs y"
  shows "all_work L timeout st cs (sys_step X K (Run i) y) \<and>
    confirmed_all L st cs (threads (sys_step X K (Run i) y)) =
      confirmed_all L st cs (threads y) + accepted_by (Run i) y"
proof (cases "can_run i y")
  case True
  then obtain xs pc ys pc' s' where y: "y = \<lparr>threads = xs @ pc # ys, shared = shared y\<rparr>"
    and pc: "threads y ! i = pc" and step: "step_call X K pc (shared y) = (pc', s')"
    and y': "sys_step X K (Run i) y = \<lparr>threads = xs @ pc' # ys, shared = s'\<rparr>"
    by (rule run_at [where X = X and K = K])
  have ts: "threads y = xs @ pc # ys" by (subst y) simp
  obtain as c bs where cs: "cs = as @ c # bs" "length as = length xs" "works_for L timeout st c pc"
    and rest: "\<forall>pc'. works_for L timeout st c pc' \<longrightarrow> list_all2 (works_for L timeout st) cs (xs @ pc' # ys)"
    using all_work_at [OF assms ts] by blast
  have "all_work L timeout st cs \<lparr>threads = xs @ pc' # ys, shared = s'\<rparr>"
    using rest works_for_step(1) [OF cs(3) step] by (simp add: all_work_def)
  moreover have "confirmed_all L st cs (xs @ pc' # ys) = confirmed_all L st cs (xs @ pc # ys) + accepted_at pc (shared y)"
    unfolding cs(1) confirmed_all_split [OF cs(2)] works_for_step(2) [OF cs(3) step] by (simp only: ac_simps)
  ultimately show ?thesis
    using True unfolding y' accepted_by.simps pc by (simp add: ts)
qed (use assms in \<open>simp add: sys_step_run del: sys_step.simps\<close>)

lemma all_work_abandon:
  assumes "all_work L timeout st cs y"
  shows "all_work L timeout st cs (sys_step X K (Abandon i) y) \<and>
    confirmed_all L st cs (threads (sys_step X K (Abandon i) y)) = confirmed_all L st cs (threads y)"
proof (cases "can_abandon i y")
  case True
  then have "at_log (threads y ! i)" by (simp add: can_abandon_def)
  with True obtain xs pc ys where y: "y = \<lparr>threads = xs @ pc # ys, shared = shared y\<rparr>"
    and at: "at_log pc"
    and y': "sys_step X K (Abandon i) y = \<lparr>threads = xs @ Abandoned # ys, shared = shared y\<rparr>"
    using abandon_at [where X = X and K = K] by metis
  have ts: "threads y = xs @ pc # ys" by (subst y) simp
  obtain as c bs where cs: "cs = as @ c # bs" "length as = length xs" "works_for L timeout st c pc"
    and rest: "\<forall>pc'. works_for L timeout st c pc' \<longrightarrow> list_all2 (works_for L timeout st) cs (xs @ pc' # ys)"
    using all_work_at [OF assms ts] by blast
  have "all_work L timeout st cs \<lparr>threads = xs @ Abandoned # ys, shared = shared y\<rparr>"
    using rest works_for_abandon(1) [OF cs(3) at] by (simp add: all_work_def)
  moreover have "confirmed_all L st cs (xs @ Abandoned # ys) = confirmed_all L st cs (xs @ pc # ys)"
    unfolding cs(1) confirmed_all_split [OF cs(2)] works_for_abandon(2) [OF cs(3) at] by (rule refl)
  ultimately show ?thesis unfolding y' by (simp only: ts system.simps)
qed (use assms in \<open>simp add: sys_step_abandon del: sys_step.simps\<close>)

lemma all_work_arrive:
  assumes "all_work L timeout st cs y" and "caller_call L timeout st caller = Some c"
  shows "all_work L timeout st (cs @ [caller]) (sys_step X K (Arrive c) y) \<and>
    confirmed_all L st (cs @ [caller]) (threads (sys_step X K (Arrive c) y)) = confirmed_all L st cs (threads y)"
proof -
  have "confirmed_to L st caller (Begin c) = {#}"
    using confirmed_put [OF assms(2) serving_begin(1)] serving_begin(2) by simp
  moreover have "length cs = length (threads y)" using assms(1) by (auto simp: all_work_def dest: list_all2_lengthD)
  ultimately show ?thesis
    using assms works_for_begin [OF assms(2)] by (simp add: all_work_def list_all2_appendI)
qed

lemma run_events: "calls_of (run (service_step X L K timeout st) es v) =
    run (sys_step X K) (flow (service_step X L K timeout st) (thread_events L timeout st) es v) (calls_of v)"
  by (induction es arbitrary: v) (simp_all add: run_append service_step_def)

lemma total_append: "total step f (cs @ ds) s = total step f cs s + total step f ds (run step cs s)"
  by (induction cs arbitrary: s) (simp_all add: ac_simps)

lemma total_events:
  "total (sys_step X K) f (flow (service_step X L K timeout st) (thread_events L timeout st) es v) (calls_of v) =
     total (service_step X L K timeout st) (\<lambda>e v. total (sys_step X K) f (thread_events L timeout st e v) (calls_of v)) es v"
proof (induction es arbitrary: v)
  case (Cons e es)
  have "calls_of (service_step X L K timeout st e v) =
      run (sys_step X K) (thread_events L timeout st e v) (calls_of v)"
    by (simp add: service_step_def)
  then show ?case using Cons [of "service_step X L K timeout st e v"] by (simp add: total_append)
qed simp

definition service_ok :: "('r, 'j) libraries \<Rightarrow> u64 \<Rightarrow> 'r app_state \<Rightarrow> 'j service \<Rightarrow> bool" where
  "service_ok L timeout st v \<longleftrightarrow> all_work L timeout st (callers v) (calls_of v)"

lemma service_step_ok:
  assumes "service_ok L timeout st v"
  shows "service_ok L timeout st (service_step X L K timeout st e v) \<and>
    confirmed L st (service_step X L K timeout st e v) =
      confirmed L st v + total (sys_step X K) accepted_by (thread_events L timeout st e v) (calls_of v)"
proof (cases e)
  case (Receive req)
  then show ?thesis
    using assms all_work_arrive [of L timeout st "callers v" "calls_of v" "Some req" _ X K]
    by (simp add: service_ok_def service_step_def confirmed_def split: option.split)
next
  case Clean_up
  then show ?thesis
    using assms all_work_arrive [of L timeout st "callers v" "calls_of v" None _ X K]
    by (simp add: service_ok_def service_step_def confirmed_def)
next
  case (Progress n)
  then show ?thesis
    using assms all_work_run [of L timeout st "callers v" "calls_of v" X K n]
    by (simp add: service_ok_def service_step_def confirmed_def del: sys_step.simps)
next
  case (Disconnect n)
  then show ?thesis
    using assms all_work_abandon [of L timeout st "callers v" "calls_of v" X K n]
    by (simp add: service_ok_def service_step_def confirmed_def del: sys_step.simps)
qed

text \<open>The confirmations of the service are the account of its own, with what the threads accept.\<close>

interpretation clients: accounted "service_step X L K timeout st" "service_ok L timeout st" "confirmed L st"
  "\<lambda>e v. total (sys_step X K) accepted_by (thread_events L timeout st e v) (calls_of v)" "\<lambda>_ _. {#}"
  for X :: codec and L :: "('r, 'j) libraries" and K :: key_order and timeout :: u64 and st :: "'r app_state"
  by unfold_locales (simp_all add: service_step_ok)

lemma total_none [simp]: "total step (\<lambda>_ _. {#}) cs s = {#}"
  by (induction cs arbitrary: s) simp_all

lemma open_service_simps [simp]:
  "calls_of (open_service st) = idle_system (app_storage st)" "callers (open_service st) = []"
  "service_ok L timeout st (open_service st)" "confirmed L st (open_service st) = {#}"
  by (simp_all add: open_service_def service_ok_def all_work_def idle_system_def confirmed_def)

lemma confirmed_run:
  "confirmed L st (run (service_step X L K timeout st) es (open_service st)) =
     total (sys_step X K) accepted_by
       (flow (service_step X L K timeout st) (thread_events L timeout st) es (open_service st))
       (idle_system (app_storage st))"
  using clients.run_balance [of L timeout st "open_service st" X K es]
    total_events [of X K accepted_by L timeout st es "open_service st"] by simp

text \<open>
  C7: what clients were told is what the server keeps. Let any requests come to a standalone server,
  in parallel with each other and with the cleanup, let the handlers take their steps in any order,
  fail to log and be dropped when clients disconnect. Then the messages the server holds, in its maps
  and in the hands of calls under way, with those released to acknowledgements and those lost (to a
  creation finishing over a queue, or with a handler dropped while it waits for the log), are
  exactly those it held at the start and those of the enqueues and batches whose clients were
  answered 200: the server makes no message up, and one it confirmed is missing for those two reasons
  alone.
\<close>

theorem confirmed_messages_account:
  assumes "well_formed (app_storage st)"
    and "v = run (service_step X L K timeout st) es (open_service st)"
    and "events = flow (service_step X L K timeout st) (thread_events L timeout st) es (open_service st)"
  shows "calls_of v = run (sys_step X K) events (idle_system (app_storage st)) \<and>
    held (calls_of v) +
      (total (sys_step X K) released_by events (idle_system (app_storage st)) +
       total (sys_step X K) lost_by events (idle_system (app_storage st))) =
    messages (app_storage st) + confirmed L st v"
  using calls.run_balance [OF sys_ok_idle [OF assms(1)], of X K events]
    run_events [of X L K timeout st es "open_service st"] confirmed_run [of L st X K timeout es]
  by (simp add: assms(2,3) total_plus held_idle)

text \<open>
  Nothing confirmed is lost while no client disconnects and no queue is created: what the server holds
  and what it released is what it held and what it confirmed.
\<close>

fun quiet :: "('r, 'j) libraries \<Rightarrow> 'r app_state \<Rightarrow> service_event \<Rightarrow> bool" where
  "quiet L st (Receive req) =
     (case request_call L (password st) (heartbeat_duration st) req of
        Some (Create_queue n) \<Rightarrow> False | _ \<Rightarrow> True)"
| "quiet L st (Disconnect n) = False"
| "quiet L st _ = True"

lemma quiet_events: "quiet L st e \<Longrightarrow> \<forall>a\<in>set (thread_events L timeout st e v). harmless a"
  by (cases e) (auto split: option.splits call.splits)

lemma quiet_flow:
  "\<forall>e\<in>set es. quiet L st e \<Longrightarrow>
     \<forall>a\<in>set (flow (service_step X L K timeout st) (thread_events L timeout st) es v). harmless a"
  by (induction es arbitrary: v) (auto dest: quiet_events)

lemma confirmed_messages_kept:
  assumes "well_formed (app_storage st)" and "\<forall>e\<in>set es. quiet L st e"
  shows "held (calls_of (run (service_step X L K timeout st) es (open_service st))) +
      total (sys_step X K) released_by
        (flow (service_step X L K timeout st) (thread_events L timeout st) es (open_service st))
        (idle_system (app_storage st)) =
    messages (app_storage st) + confirmed L st (run (service_step X L K timeout st) es (open_service st))"
  using concurrent_calls_keep_messages [OF assms(1) quiet_flow [OF assms(2)]]
  by (simp add: run_events confirmed_run)

section \<open>A crash under load\<close>

text \<open>Requests that put messages put none into a queue of dead letters.\<close>

fun puts_plainly :: "('r, 'j) libraries \<Rightarrow> 'r app_state \<Rightarrow> service_event \<Rightarrow> bool" where
  "puts_plainly L st (Receive req) =
     (case request_call L (password st) (heartbeat_duration st) req of
        Some (Queue q d) \<Rightarrow> \<not> dead_letters q | Some (Queue_batch q ds) \<Rightarrow> \<not> dead_letters q | _ \<Rightarrow> True)"
| "puts_plainly L st _ = True"

lemma plain_flow:
  assumes "\<forall>e\<in>set es. puts_plainly L st e"
  shows "\<forall>a\<in>set (flow (service_step X L K timeout st) (thread_events L timeout st) es v). plain_event a"
proof -
  have one: "puts_plainly L st e \<Longrightarrow> \<forall>a\<in>set (thread_events L timeout st e v). plain_event a" for e v
    by (cases e) (auto simp: plain_event_def split: option.splits call.splits)
  show ?thesis using assms by (induction es arbitrary: v) (auto dest: one)
qed

text \<open>
  C8: a crash under load loses no confirmed message but those acknowledged, in number. Start a server
  on a storage recovered from its log, on a disk whose failures leave no bytes behind, and let it
  serve any requests in parallel, with the cleanup and with clients that disconnect, as long as none
  puts messages into a queue of dead letters. Kill it between any two writes to the log (an append is
  one step; a kill that tears a line in two is \<open>Durability\<close>'s torn line) and start it
  again. The log is read back with the entries it had and some new ones; these hold every message that was confirmed;
  and the restarted server holds the messages of the start and those in the log, except for at most
  as many as acknowledgements in the log. (Which ones it holds can differ from what was acknowledged,
  where concurrent enqueues cross the log.)
\<close>

theorem crash_keeps_confirmed_messages:
  assumes "codec_law X" and "log_file X es f"
    and "\<forall>r \<in> sset (disk_writes f) \<union> sset (disk_flushes f). clean_outcome r"
    and "new_persistent X f u c = Inr (app_storage st)" and "well_formed (app_storage st)"
    and "\<forall>e\<in>set events. puts_plainly L st e"
    and "v = run (service_step X L K timeout st) events (open_service st)"
  shows "\<exists>m fs r R. wal (shared (calls_of v)) = Some m \<and> replay X (file_after m) = Inr (es @ fs) \<and>
    confirmed L st v \<subseteq># log_puts (map entry_op fs) \<and>
    new_persistent X (file_after m) u' c' = Inr r \<and>
    messages r + R = messages (app_storage st) + log_puts (map entry_op fs) \<and>
    size R \<le> log_acks (map entry_op fs)"
  using crash_account [OF assms(1-5) plain_flow [OF assms(6), of X K timeout "open_service st"], of K u' c']
  unfolding assms(7) confirmed_run run_events by simp

section \<open>One request at a time\<close>

lemma run_progresses:
  "calls_of (run (service_step X L K timeout st) (replicate n (Progress i)) v) =
     run (sys_step X K) (replicate n (Run i)) (calls_of v) \<and>
   callers (run (service_step X L K timeout st) (replicate n (Progress i)) v) = callers v \<and>
   at_once (run (service_step X L K timeout st) (replicate n (Progress i)) v) = at_once v"
  by (induction n arbitrary: v) (simp_all add: service_step_def)

text \<open>
  Run alone, a request is what the router of the sequential model makes of it: after finitely many
  steps it has been answered as there, and the storage is the one that is left there.
\<close>

lemma lone_request_is_routed:
  assumes "raft st = None"
  shows "\<exists>n. let v = run (service_step X L K timeout st) (Receive req # replicate n (Progress 0)) (open_service st) in
    shared (calls_of v) = app_storage (snd (handle_request X L req st)) \<and>
    at_once v @ map2 (\<lambda>c pc. (req, the (response_to L c pc))) (callers v) (threads (calls_of v)) =
      [(req, fst (handle_request X L req st))]"
proof (cases "request_call L (password st) (heartbeat_duration st) req")
  case None
  then obtain r where r: "handle_request X L req (st\<lparr>app_storage := s\<rparr>) = (r, st\<lparr>app_storage := s\<rparr>)" for s
    using handle_request_serves [OF assms, of X undefined L req] by (auto simp: serves_first_def)
  have "snd (handle_request X L req st) = st" using r [of "app_storage st"] by simp
  then show ?thesis
    using None
    by (intro exI [of _ 0]) (simp add: service_step_def open_service_def idle_system_def Let_def)
next
  case (Some c)
  have req: "handle_request X L req st = (respond L req (fst (perform X K c (app_storage st))),
      st\<lparr>app_storage := after X K c (app_storage st)\<rparr>)"
    using handle_request_serves [OF assms, of X K L req] Some by (simp add: serves_call_def)
  obtain n where n: "(alone X K ^^ n) (Begin c, app_storage st) =
      (Finished (fst (perform X K c (app_storage st))), after X K c (app_storage st))"
    using begin_alone [of X K c "app_storage st"] unfolding leads_def by blast
  have "sys_step X K (Arrive c) (idle_system (app_storage st)) = \<lparr>threads = [Begin c], shared = app_storage st\<rparr>"
    by (simp add: idle_system_def)
  then show ?thesis
    using Some req n run_progresses [of X L K timeout st n 0]
      run_alone [of X K n "Begin c" "app_storage st"]
    by (intro exI [of _ n]) (simp add: service_step_def open_service_def Let_def del: sys_step.simps)
qed

section \<open>HEAD\<close>

text \<open>
  The GET route of a queue's tasks takes a message, and the framework answers HEAD with it and drops
  the body: a HEAD request takes a message out of its queue, and its payload reaches nobody until
  the task expires.
\<close>

lemma head_takes_message:
  assumes "raft st = None" and "find_route (path req) = Some (Tasks p)" and "req_method req = HEAD"
    and "extract_queue L p = Inr q"
    and "auth_ok (ct_eq L) (password st) (password_header req)" and "validate_queue_name q = Inr ()"
    and "dequeue X q (app_storage st) = (Inr (Some task), s)"
  shows "handle_request X L req st =
    (Inr ((task_response (header_ok L) task)\<lparr>body := No_body\<rparr>), st\<lparr>app_storage := s\<rparr>)"
  using assms
  by (simp add: handle_request_def dispatch_def dequeue_handler_def standalone_def without_body_headers
      headers_only_def extracted_def)

section \<open>Instances\<close>

definition busy_app :: "unit app_state" where
  "busy_app = (logged_app None)\<lparr>app_storage :=
     (new_storage numbered (sconst 0))\<lparr>queues := fmupd ''q'' [] fmempty\<rparr>\<rparr>"

definition post_task :: "byte list \<Rightarrow> request" where
  "post_task d = \<lparr>req_method = POST, path = [''queues'', ''q'', ''tasks''], password_header = Some ''secret'',
     content_type_header = None, accept_header = None, query = [], req_body = d\<rparr>"

lemma post_task_call:
  "length d \<le> single_message_limit \<Longrightarrow>
     request_call plain_libraries ''secret'' 60 (post_task d) = Some (Queue ''q'' d)"
  using name_q
  by (simp add: request_call_def route_calls_def post_task_def find_route_def auth_ok_def plain_libraries_def
      if_within_def if_valid_def)

theorem request_is_call_and_answer_witness:
  "handle_request unary_codec plain_libraries (post_task [7]) busy_app =
    (Inr (only_status 200),
     busy_app\<lparr>app_storage := (app_storage busy_app)\<lparr>queues := fmupd ''q'' [fresh_item [7]] fmempty\<rparr>\<rparr>)"
proof -
  have app: "raft busy_app = None" "password busy_app = ''secret''" "heartbeat_duration busy_app = 60"
    by (simp_all add: busy_app_def logged_app_def)
  have "respond plain_libraries (post_task [7]) (Done (Inr ())) = Inr (only_status 200)"
    by (simp add: respond_def post_task_def find_route_def answer_def unit_result_def)
  moreover have "queue unary_codec ''q'' [7] (app_storage busy_app) =
      (Inr (), (app_storage busy_app)\<lparr>queues := fmupd ''q'' [fresh_item [7]] fmempty\<rparr>)"
    by (simp add: busy_app_def new_storage_def queue_def log_op_step fresh_item_def)
  ultimately show ?thesis
    using request_is_call_and_answer [OF app(1), where X = unary_codec and K = listed and L = plain_libraries and req = "post_task [7]"]
      post_task_call [of "[7]"]
    unfolding app by (simp add: single_message_limit_def)
qed

definition two_posts :: "service_event list" where
  "two_posts = [Receive (post_task [1]), Receive (post_task [2]), Progress 0, Progress 1, Progress 1, Progress 0,
     Clean_up, Progress 1]"

lemma two_posts_confirmed:
  "confirmed plain_libraries busy_app
     (run (service_step unary_codec plain_libraries listed 30 busy_app) two_posts (open_service busy_app)) = {#[2]#}"
proof -
  have app: "password busy_app = ''secret''" "heartbeat_duration busy_app = 60"
    by (simp_all add: busy_app_def logged_app_def)
  have calls: "request_call plain_libraries ''secret'' 60 (post_task [1]) = Some (Queue ''q'' [1])"
    "request_call plain_libraries ''secret'' 60 (post_task [2]) = Some (Queue ''q'' [2])"
    by (rule post_task_call, simp add: single_message_limit_def)+
  have answer: "respond plain_libraries (post_task d) (Done (Inr ())) = Inr (only_status 200)" for d
    by (simp add: respond_def post_task_def find_route_def answer_def unit_result_def)
  have storage: "app_storage busy_app = \<lparr>queues = fmupd ''q'' [] fmempty, in_flight = fmempty, wal = None,
      uuids = numbered, clock = sconst 0\<rparr>"
    by (simp add: busy_app_def new_storage_def)
  show ?thesis
    by (simp add: two_posts_def service_step_def open_service_def app calls answer storage step_defs
        log_op_step eval_nat_numeral confirmed_def confirmed_to_def may_clean_def only_status_def Let_def)
qed

theorem confirmed_messages_account_witness:
  "held (calls_of (run (service_step unary_codec plain_libraries listed 30 busy_app) two_posts
      (open_service busy_app))) +
    (total (sys_step unary_codec listed) released_by
       (flow (service_step unary_codec plain_libraries listed 30 busy_app) (thread_events plain_libraries 30 busy_app)
         two_posts (open_service busy_app)) (idle_system (app_storage busy_app)) +
     total (sys_step unary_codec listed) lost_by
       (flow (service_step unary_codec plain_libraries listed 30 busy_app) (thread_events plain_libraries 30 busy_app)
         two_posts (open_service busy_app)) (idle_system (app_storage busy_app))) = {#[2]#}"
proof -
  have wf: "well_formed (app_storage busy_app)"
    using one_queued_well_formed by (simp add: busy_app_def)
  have "messages (app_storage busy_app) = {#}"
    by (simp add: busy_app_def new_storage_def messages_def queued_def flying_def fm_sum_upd)
  with conjunct2 [OF confirmed_messages_account [OF wf refl refl, of unary_codec plain_libraries listed 30 two_posts]]
  show ?thesis by (simp only: two_posts_confirmed add_0)
qed

text \<open>A queue is made and a message confirmed on a fresh disk; then the server is killed.\<close>

definition made_and_posted :: "service_event list" where
  "made_and_posted = [Receive post_queue, Progress 0, Progress 0, Progress 0,
     Receive (post_task [7]), Progress 1, Progress 1, Progress 1]"

abbreviation fresh_app :: "unit app_state" where
  "fresh_app \<equiv> logged_app (Some fresh_manager)"

lemma fresh_app_calls:
  "request_call plain_libraries (password fresh_app) (heartbeat_duration fresh_app) post_queue = Some (Create_queue ''q'')"
  "request_call plain_libraries (password fresh_app) (heartbeat_duration fresh_app) (post_task [7]) = Some (Queue ''q'' [7])"
proof -
  have app: "password fresh_app = ''secret''" "heartbeat_duration fresh_app = 60"
    by (simp_all add: logged_app_def)
  have "char_of (of_char CHR ''q'' :: nat) = CHR ''q''" by (rule char_of_char)
  then have "char_of (unat (113 :: byte)) = CHR ''q''" by (simp add: unat_numeral)
  then show "request_call plain_libraries (password fresh_app) (heartbeat_duration fresh_app) post_queue = Some (Create_queue ''q'')"
    unfolding app using name_q
    by (simp add: request_call_def route_calls_def post_queue_def find_route_def auth_ok_def plain_libraries_def
        if_json_def if_within_def default_body_limit_def if_valid_def)
  show "request_call plain_libraries (password fresh_app) (heartbeat_duration fresh_app) (post_task [7]) = Some (Queue ''q'' [7])"
    unfolding app by (rule post_task_call) (simp add: single_message_limit_def)
qed

lemma made_and_posted_confirmed:
  "confirmed plain_libraries fresh_app
     (run (service_step unary_codec plain_libraries listed 30 fresh_app) made_and_posted (open_service fresh_app)) = {#[7]#}"
proof -
  obtain w1 c1 where 1: "wal_step unary_codec (CreateQueue ''q'') (Some fresh_manager) (sconst 0) = (Inr (), w1, c1)"
      "log_holds unary_codec [CreateQueue ''q''] w1"
    using log_holds_step [OF unary_codec_law log_holds_fresh] by (metis append_Nil)
  obtain w2 c2 where 2: "wal_step unary_codec (Enqueue ''q'' [7]) w1 c1 = (Inr (), w2, c2)"
    using log_holds_step [OF unary_codec_law 1(2)] by metis
  have answers: "respond plain_libraries (post_task [7]) (Done (Inr ())) = Inr (only_status 200)"
    "respond plain_libraries post_queue (Done (Inr ())) = Inr (only_status 201)"
    by (simp_all add: respond_def post_task_def post_queue_def find_route_def answer_def unit_result_def)
  have storage: "app_storage fresh_app = \<lparr>queues = fmempty, in_flight = fmempty, wal = Some fresh_manager,
      uuids = numbered, clock = sconst 0\<rparr>"
    by (simp add: logged_app_def new_storage_def)
  show ?thesis
    by (simp add: made_and_posted_def service_step_def open_service_def fresh_app_calls answers storage step_defs
        log_op_step 1(1) 2 eval_nat_numeral confirmed_def confirmed_to_def only_status_def Let_def)
qed

theorem crash_keeps_confirmed_messages_witness:
  "\<exists>m fs r R. wal (shared (calls_of (run (service_step unary_codec plain_libraries listed 30 fresh_app) made_and_posted
      (open_service fresh_app)))) = Some m \<and> replay unary_codec (file_after m) = Inr ([] @ fs) \<and>
    {#[7]#} \<subseteq># log_puts (map entry_op fs) \<and>
    new_persistent unary_codec (file_after m) numbered (sconst 9) = Inr r \<and>
    messages r + R = messages (app_storage fresh_app) + log_puts (map entry_op fs) \<and>
    size R \<le> log_acks (map entry_op fs)"
proof -
  have io: "\<forall>r \<in> sset (disk_writes fresh_disk) \<union> sset (disk_flushes fresh_disk). clean_outcome r"
    using fresh_disk_io by (auto simp: clean_outcome_def)
  have new: "new_persistent unary_codec fresh_disk numbered (sconst 0) = Inr (app_storage fresh_app)"
    using new_on_fresh_disk by (simp add: logged_app_def)
  have wf: "well_formed (app_storage fresh_app)"
    by (simp add: logged_app_def well_formed_def new_storage_def flights_ok_def ids_ok_def)
  have plain: "\<forall>e\<in>set made_and_posted. puts_plainly plain_libraries fresh_app e"
    by (simp add: made_and_posted_def fresh_app_calls dead_letters_def)
  show ?thesis
    by (rule crash_keeps_confirmed_messages [OF unary_codec_law fresh_disk_log io new wf plain refl,
          of listed 30, unfolded made_and_posted_confirmed])
qed

end
