(* ===== verification/Executor.thy ===== *)
theory Executor
  imports Threads_Laws
begin

text \<open>
  Calls on the worker threads of the runtime. \<^verbatim>\<open>main\<close> runs on the multi-threaded scheduler
  of \<^verbatim>\<open>tokio\<close>: a fixed number of worker threads, each of which runs one call at a time until
  the call ends or yields at an \<^verbatim>\<open>await\<close>. The maps are those of \<^verbatim>\<open>dashmap\<close>: every key
  belongs to a shard, a guard locks its shard, and a call that wants a locked shard blocks the
  thread it is on. Both are documented behaviour of the libraries; the number of workers and the
  assignment of keys to shards are parameters.
\<close>

section \<open>Shards and workers\<close>

record sharding =
  queue_shard :: "string \<Rightarrow> nat"
  task_shard :: "string \<Rightarrow> nat"

datatype shard = Shard_of_queues nat | Shard_of_tasks nat

fun shard_of :: "sharding \<Rightarrow> lock \<Rightarrow> shard" where
  "shard_of H (Queue_lock q) = Shard_of_queues (queue_shard H q)"
| "shard_of H (Task_lock i) = Shard_of_tasks (task_shard H i)"

text \<open>The next step of the call at \<open>i\<close> wants a shard that another call has a guard on.\<close>

definition blocked :: "sharding \<Rightarrow> nat \<Rightarrow> system \<Rightarrow> bool" where
  "blocked H i y \<longleftrightarrow>
     shard_of H ` touches (threads y ! i) \<inter> shard_of H ` held_by_others i (threads y) \<noteq> {}"

text \<open>\<open>busy\<close> are the calls that are on a worker.\<close>

record executor =
  calls :: system
  busy :: "nat list"

datatype exec_event = Come call | Poll nat | Advance nat | Yield nat | Disconnect nat

text \<open>
  A free worker takes up a call that is ready; a call on a worker takes its next step, unless it is
  blocked, and leaves the worker when it ends; where it waits for the log it may yield. A client
  that goes away drops its call, which takes a worker too: that of its connection.
\<close>

fun exec_step :: "nat \<Rightarrow> sharding \<Rightarrow> codec \<Rightarrow> key_order \<Rightarrow> exec_event \<Rightarrow> executor \<Rightarrow> executor" where
  "exec_step W H X K (Come c) x = x\<lparr>calls := sys_step X K (Arrive c) (calls x)\<rparr>"
| "exec_step W H X K (Poll i) x =
     (if i < length (threads (calls x)) \<and> i \<notin> set (busy x) \<and> \<not> ended (threads (calls x) ! i) \<and>
        length (busy x) < W
      then x\<lparr>busy := i # busy x\<rparr> else x)"
| "exec_step W H X K (Advance i) x =
     (if i \<in> set (busy x) \<and> \<not> blocked H i (calls x)
      then let y = sys_step X K (Run i) (calls x) in
           x\<lparr>calls := y, busy := (if ended (threads y ! i) then removeAll i (busy x) else busy x)\<rparr>
      else x)"
| "exec_step W H X K (Yield i) x =
     (if i \<in> set (busy x) \<and> at_log (threads (calls x) ! i) \<and> wal (shared (calls x)) \<noteq> None
      then x\<lparr>busy := removeAll i (busy x)\<rparr> else x)"
| "exec_step W H X K (Disconnect i) x =
     (if i \<notin> set (busy x) \<and> length (busy x) < W
      then x\<lparr>calls := sys_step X K (Abandon i) (calls x)\<rparr> else x)"

definition idle_executor :: "storage \<Rightarrow> executor" where
  "idle_executor s = \<lparr>calls = idle_system s, busy = []\<rparr>"

lemma not_blocked_can_run: "i < length (threads y) \<Longrightarrow> \<not> blocked H i y \<Longrightarrow> can_run i y"
  by (auto simp: blocked_def can_run_def)

section \<open>Every call comes to its end\<close>

text \<open>How many steps a call has left, once it has begun.\<close>

definition rest_effort :: "rest_of_cleanup \<Rightarrow> nat" where
  "rest_effort k = (case k of None \<Rightarrow> 0 | Some (ids, n) \<Rightarrow> 1 + 4 * length ids)"

fun effort :: "pc \<Rightarrow> nat" where
  "effort (Create_log n) = 2"
| "effort (Create_insert n) = 1"
| "effort (Enqueue_log q d) = 2"
| "effort (Enqueue_push q d) = 1"
| "effort (Enqueue_batch_log q ds) = 2"
| "effort (Enqueue_batch_push q ds) = 1"
| "effort (Dequeue_log q item tid) = 2"
| "effort (Dequeue_deliver q item tid) = 1"
| "effort (Dequeue_batch_log q popped ids) = 2 + length ids"
| "effort (Dequeue_batch_deliver q todo tasks) = 1 + length todo"
| "effort (Ack_log i) = 1"
| "effort (Nack_log k i t) = 2 + rest_effort k"
| "effort (Nack_restore k i t e) = 1 + rest_effort k"
| "effort (Nack_return k t) = 1 + rest_effort k"
| "effort (Extend_log i dur) = 2"
| "effort (Extend_update i) = 1"
| "effort (Ack_batch_check ids todo missing) = 3 + length ids + length todo"
| "effort (Ack_batch_log ids) = 2 + length ids"
| "effort (Ack_batch_remove ids) = 1 + length ids"
| "effort (Cleanup_next ids n) = 1 + 4 * length ids"
| "effort _ = 0"

fun begun :: "pc \<Rightarrow> bool" where
  "begun (Begin c) = False"
| "begun _ = True"

lemma after_nack_progress [simp]:
  "begun (after_nack k r)" "effort (after_nack k r) = rest_effort k"
  by (auto simp: after_nack_def rest_effort_def split: option.split)

lemma begin_nack_progress:
  "begun (fst (begin_nack k i s))" "effort (fst (begin_nack k i s)) \<le> 2 + rest_effort k"
  by (auto simp: begin_nack_def split: option.split)

lemma begin_progress: "begun (fst (begin_call K c s))"
proof (cases c)
  case (Cleanup_expired_tasks n)
  then show ?thesis by (simp split: prod.split sum.split)
qed (auto simp: done_with_def begin_nack_progress split: option.split list.split prod.split)

lemma step_progress:
  assumes "begun pc" and "\<not> ended pc"
  shows "begun (fst (step_call X K pc s)) \<and> effort (fst (step_call X K pc s)) < effort pc"
proof (cases "(X, K, pc, s)" rule: step_call.cases)
  case (25 X K i ids n s)
  then show ?thesis
    using begin_nack_progress [of "Some (ids, n)" i s] by (simp add: rest_effort_def)
qed (use assms in \<open>auto simp: done_with_def Let_def logging_def rest_effort_def
    split: option.split prod.split sum.split\<close>)

section \<open>No deadlock over the guards\<close>

text \<open>
  A call that holds a guard either wants nothing more, or holds a queue and wants a task; the only
  guards on tasks belong to heartbeats, which want nothing more.
\<close>

lemma holder_wants:
  "holds pc \<noteq> {} \<Longrightarrow> touches pc \<noteq> {} \<Longrightarrow> holds pc \<subseteq> range Queue_lock \<and> touches pc \<subseteq> range Task_lock"
  by (cases "pc" rule: touches.cases) auto

lemma ended_holds: "ended pc \<Longrightarrow> holds pc = {}"
  by (cases pc) auto

lemma held_by_others_holder:
  assumes "l \<in> held_by_others i ts"
  obtains j where "j < length ts" and "l \<in> holds (ts ! j)"
proof -
  obtain pc where "pc \<in> set (take i ts @ drop (Suc i) ts)" "l \<in> holds pc"
    using assms by (auto simp: held_by_others_def)
  moreover from this(1) have "pc \<in> set ts" by (auto dest: in_set_takeD in_set_dropD)
  ultimately show thesis using that by (metis in_set_conv_nth)
qed

lemma someone_can_run:
  assumes "\<not> list_all ended (threads y)"
  obtains i where "i < length (threads y)" and "\<not> ended (threads y ! i)" and "\<not> blocked H i y"
proof -
  consider
    (leaf) j where "j < length (threads y)" "holds (threads y ! j) \<noteq> {}" "touches (threads y ! j) = {}"
  | (inner) j where "j < length (threads y)" "holds (threads y ! j) \<noteq> {}" "touches (threads y ! j) \<noteq> {}"
      "\<And>k. k < length (threads y) \<Longrightarrow> holds (threads y ! k) \<noteq> {} \<Longrightarrow> touches (threads y ! k) \<noteq> {}"
  | (none) "\<And>k. k < length (threads y) \<Longrightarrow> holds (threads y ! k) = {}"
    by blast
  then show thesis
  proof cases
    case leaf
    then show thesis using that [of j] by (auto simp: blocked_def dest: ended_holds)
  next
    case inner
    have "held_by_others j (threads y) \<subseteq> range Queue_lock"
    proof
      fix l assume "l \<in> held_by_others j (threads y)"
      then obtain k where "k < length (threads y)" "l \<in> holds (threads y ! k)"
        by (rule held_by_others_holder)
      then show "l \<in> range Queue_lock" using holder_wants inner(4) by blast
    qed
    moreover have "touches (threads y ! j) \<subseteq> range Task_lock" using holder_wants inner(2,3) by blast
    ultimately have "\<not> blocked H j y" by (fastforce simp: blocked_def)
    then show thesis using that [of j] inner(1,2) ended_holds by blast
  next
    case none
    obtain i where "i < length (threads y)" "\<not> ended (threads y ! i)"
      using assms by (auto simp: list_all_length)
    moreover have "held_by_others i (threads y) = {}"
      using none by (auto elim: held_by_others_holder)
    ultimately show thesis using that [of i] by (simp add: blocked_def)
  qed
qed

section \<open>Enough workers\<close>

definition unfinished :: "system \<Rightarrow> nat set" where
  "unfinished y = {i. i < length (threads y) \<and> \<not> ended (threads y ! i)}"

definition exec_ok :: "nat \<Rightarrow> executor \<Rightarrow> bool" where
  "exec_ok W x \<longleftrightarrow> distinct (busy x) \<and> length (busy x) \<le> W \<and> set (busy x) \<subseteq> unfinished (calls x)"

definition not_begun :: "system \<Rightarrow> nat" where
  "not_begun y = length (filter (\<lambda>pc. \<not> begun pc) (threads y))"

definition work_left :: "system \<Rightarrow> nat" where
  "work_left y = sum_list (map effort (threads y))"

definition closer_to_end :: "nat \<Rightarrow> (executor \<times> executor) set" where
  "closer_to_end W = measures
     [\<lambda>x. not_begun (calls x), \<lambda>x. work_left (calls x), \<lambda>x. W - length (busy x)]"

lemma run_threads:
  "threads (sys_step X K (Run i) y) =
     (if can_run i y then (threads y)[i := fst (step_call X K (threads y ! i) (shared y))] else threads y)"
  by (simp add: sys_step_run split: prod.split del: sys_step.simps)

lemma run_progress:
  assumes "can_run i y" and "\<not> ended (threads y ! i)"
  shows "not_begun (sys_step X K (Run i) y) < not_begun y \<or>
    not_begun (sys_step X K (Run i) y) = not_begun y \<and> work_left (sys_step X K (Run i) y) < work_left y"
proof -
  obtain xs pc ys pc' s' where y: "y = \<lparr>threads = xs @ pc # ys, shared = shared y\<rparr>" "threads y ! i = pc"
    and step: "step_call X K pc (shared y) = (pc', s')"
    and y': "sys_step X K (Run i) y = \<lparr>threads = xs @ pc' # ys, shared = s'\<rparr>"
    by (rule run_at [OF assms(1), where X = X and K = K])
  have old: "threads y = xs @ pc # ys" using y(1) by (metis system.select_convs(1))
  have "\<not> begun pc \<Longrightarrow> begun pc'" using begin_progress step by (cases pc) (auto simp: prod_eq_iff)
  moreover have "begun pc \<Longrightarrow> begun pc' \<and> effort pc' < effort pc"
    using step_progress [of pc X K "shared y"] assms(2) y(2) step by simp
  ultimately show ?thesis
    unfolding not_begun_def work_left_def y' old by (cases "begun pc") simp_all
qed

lemma unfinished_mono:
  "unfinished y \<subseteq> unfinished (sys_step X K (Arrive c) y)"
  "unfinished y - {i} \<subseteq> unfinished (sys_step X K (Abandon i) y)"
  "unfinished y - {i} \<subseteq> unfinished (sys_step X K (Run i) y)"
  by (auto simp: unfinished_def run_threads sys_step_abandon nth_append nth_list_update
      simp del: sys_step.simps(2,3))

lemma unfinished_run: "unfinished (sys_step X K (Run i) y) \<subseteq> unfinished y \<union> {i}"
  by (auto simp: unfinished_def run_threads nth_list_update simp del: sys_step.simps split: if_splits)

lemma unfinished_stays:
  "\<not> ended (threads (sys_step X K (Run i) y) ! i) \<Longrightarrow> i \<in> unfinished y \<Longrightarrow>
     i \<in> unfinished (sys_step X K (Run i) y)"
  by (auto simp: unfinished_def run_threads simp del: sys_step.simps split: if_splits)

lemma shorter_busy:
  assumes "exec_ok W x" shows "length (removeAll i (busy x)) \<le> W"
proof (rule le_trans)
  show "length (removeAll i (busy x)) \<le> length (busy x)" by (rule length_removeAll_less_eq)
qed (use assms in \<open>simp add: exec_ok_def\<close>)

lemma exec_ok_step:
  assumes "exec_ok W x" shows "exec_ok W (exec_step W H X K e x)"
proof (cases e)
  case (Come c)
  then show ?thesis
    using assms unfinished_mono(1) by (fastforce simp: exec_ok_def simp del: sys_step.simps)
next
  case (Poll i)
  then show ?thesis using assms by (auto simp: exec_ok_def unfinished_def)
next
  case (Advance i)
  let ?y = "sys_step X K (Run i) (calls x)"
  have "i \<in> set (busy x) \<Longrightarrow> set (busy x) - {i} \<subseteq> unfinished ?y"
    using assms unfinished_mono(3) unfolding exec_ok_def by blast
  moreover have "i \<in> set (busy x) \<Longrightarrow> \<not> ended (threads ?y ! i) \<Longrightarrow> i \<in> unfinished ?y"
    using assms unfinished_stays unfolding exec_ok_def by blast
  moreover have "length (removeAll i (busy x)) \<le> W" by (rule shorter_busy [OF assms])
  ultimately show ?thesis
    using assms Advance
    by (auto simp: exec_ok_def Let_def distinct_removeAll simp del: sys_step.simps)
next
  case (Yield i)
  moreover have "length (removeAll i (busy x)) \<le> W" by (rule shorter_busy [OF assms])
  ultimately show ?thesis using assms by (auto simp: exec_ok_def distinct_removeAll)
next
  case (Disconnect i)
  then show ?thesis
    using assms unfinished_mono(2) [of "calls x" i X K] by (auto simp: exec_ok_def simp del: sys_step.simps)
qed

interpretation workers: machine "exec_step W H X K" "exec_ok W"
  for W :: nat and H :: sharding and X :: codec and K :: key_order
  by unfold_locales (rule exec_ok_step)

lemma idle_exec_ok: "exec_ok W (idle_executor s)"
  by (simp add: exec_ok_def idle_executor_def)

text \<open>The steps of workers, with no call coming or going.\<close>

fun working :: "exec_event \<Rightarrow> bool" where
  "working (Poll i) = True"
| "working (Advance i) = True"
| "working _ = False"

lemma finite_unfinished: "finite (unfinished y)"
  by (simp add: unfinished_def)

lemma worker_free:
  assumes "exec_ok W x" and "card (unfinished (calls x)) \<le> W" and "i \<in> unfinished (calls x) - set (busy x)"
  shows "length (busy x) < W"
proof -
  have "set (busy x) \<subset> unfinished (calls x)" using assms(1,3) by (auto simp: exec_ok_def)
  then have "card (set (busy x)) < card (unfinished (calls x))"
    by (rule psubset_card_mono [OF finite_unfinished])
  then show ?thesis using assms(1,2) by (simp add: exec_ok_def distinct_card)
qed

lemma exec_progress:
  assumes "exec_ok W x" and "card (unfinished (calls x)) \<le> W" and "\<not> list_all ended (threads (calls x))"
  shows "\<exists>e. working e \<and> card (unfinished (calls (exec_step W H X K e x))) \<le> W \<and>
    (exec_step W H X K e x, x) \<in> closer_to_end W"
proof -
  obtain i where i: "i < length (threads (calls x))" "\<not> ended (threads (calls x) ! i)" "\<not> blocked H i (calls x)"
    by (rule someone_can_run [OF assms(3)])
  show ?thesis
  proof (cases "i \<in> set (busy x)")
    case False
    then have "length (busy x) < W" using worker_free [OF assms(1,2)] i by (simp add: unfinished_def)
    then show ?thesis
      using False i assms(2) by (intro exI [of _ "Poll i"]) (simp add: closer_to_end_def)
  next
    case True
    have "unfinished (sys_step X K (Run i) (calls x)) \<subseteq> unfinished (calls x)"
      using unfinished_run i(1,2) by (fastforce simp: unfinished_def)
    then have "card (unfinished (sys_step X K (Run i) (calls x))) \<le> W"
      using card_mono [OF finite_unfinished] assms(2) le_trans by blast
    then show ?thesis
      using True i(3) run_progress [OF not_blocked_can_run [OF i(1,3)] i(2), of X K]
      by (intro exI [of _ "Advance i"]) (auto simp: closer_to_end_def Let_def simp del: sys_step.simps)
  qed
qed

lemma working_step:
  assumes "exec_ok W x" and "card (unfinished (calls x)) \<le> W" and "working e"
  shows "exec_step W H X K e x = x \<or>
    card (unfinished (calls (exec_step W H X K e x))) \<le> W \<and> (exec_step W H X K e x, x) \<in> closer_to_end W"
proof (cases e)
  case (Poll i)
  then show ?thesis using assms(2) by (auto simp: closer_to_end_def)
next
  case (Advance i)
  show ?thesis
  proof (cases "i \<in> set (busy x) \<and> \<not> blocked H i (calls x)")
    case True
    then have i: "i < length (threads (calls x))" "\<not> ended (threads (calls x) ! i)"
      using assms(1) by (auto simp: exec_ok_def unfinished_def)
    have "unfinished (sys_step X K (Run i) (calls x)) \<subseteq> unfinished (calls x)"
      using unfinished_run i by (fastforce simp: unfinished_def)
    then have "card (unfinished (sys_step X K (Run i) (calls x))) \<le> W"
      using card_mono [OF finite_unfinished] assms(2) le_trans by blast
    then show ?thesis
      using Advance True run_progress [OF not_blocked_can_run [OF i(1)] i(2), of H X K]
      by (auto simp: closer_to_end_def Let_def simp del: sys_step.simps)
  qed (use Advance in auto)
qed (use assms(3) in simp_all)

interpretation enough_workers: fairly_progressing "exec_step W H X K"
    "\<lambda>x. exec_ok W x \<and> card (unfinished (calls x)) \<le> W" "\<lambda>x. list_all ended (threads (calls x))"
    working "closer_to_end W"
  for W :: nat and H :: sharding and X :: codec and K :: key_order
proof
  show "wf (closer_to_end W)" by (simp add: closer_to_end_def)
next
  fix x assume "exec_ok W x \<and> card (unfinished (calls x)) \<le> W" "\<not> list_all ended (threads (calls x))"
  then show "\<exists>e. working e \<and> (exec_ok W (exec_step W H X K e x) \<and>
      card (unfinished (calls (exec_step W H X K e x))) \<le> W) \<and> (exec_step W H X K e x, x) \<in> closer_to_end W"
    using exec_progress [of W x H X K] exec_ok_step by blast
next
  fix x e assume "exec_ok W x \<and> card (unfinished (calls x)) \<le> W" "working e"
  then show "exec_step W H X K e x = x \<or> (exec_ok W (exec_step W H X K e x) \<and>
      card (unfinished (calls (exec_step W H X K e x))) \<le> W) \<and> (exec_step W H X K e x, x) \<in> closer_to_end W"
    using working_step [of W x e H X K] exec_ok_step by blast
qed

text \<open>
  C11: with a worker for each call, every call comes to its end. Let calls come, take steps, yield
  while they wait for the log and be dropped in any order, on any number of workers and however keys
  share shards, up to a state in which no more calls are under way than there are workers. From then
  on let the workers take up calls and take steps in any order that is fair, that is, in which every
  worker gets its turn at every call again and again, while no further call comes and none yields.
  Then all calls end after finitely many events: the guards that \<^verbatim>\<open>dequeue\<close>,
  \<^verbatim>\<open>dequeue_batch\<close> and \<^verbatim>\<open>extend_visibility\<close> hold across an \<^verbatim>\<open>await\<close>
  do not deadlock with each other, and no call takes steps for ever.
\<close>

theorem enough_workers_finish:
  assumes "card (unfinished (calls (run (exec_step W H X K) events (idle_executor s)))) \<le> W"
    and "fair working f"
  shows "\<exists>n. list_all ended
    (threads (calls (run (exec_step W H X K) (events @ map f [0..<n]) (idle_executor s))))"
proof -
  have "exec_ok W (run (exec_step W H X K) events (idle_executor s))"
    by (rule workers.inv_run [OF idle_exec_ok])
  then show ?thesis
    using enough_workers.fair_finishes [OF _ assms(2), of W "run (exec_step W H X K) events (idle_executor s)" H X K]
      assms(1)
    by (simp add: run_append)
qed

section \<open>Too few workers\<close>

text \<open>
  One consumer of a queue waits for the log, with the guard of the queue; then as many others as
  there are workers ask for a message of the same queue.
\<close>

definition starving :: "nat \<Rightarrow> string \<Rightarrow> exec_event list" where
  "starving W q = replicate (Suc W) (Come (Dequeue_one q)) @ [Poll 0, Advance 0, Yield 0] @
     map Poll [1..<Suc W]"

fun coming :: "exec_event list \<Rightarrow> call list" where
  "coming [] = []"
| "coming (Come c # es) = c # coming es"
| "coming (e # es) = coming es"

definition starved :: "nat \<Rightarrow> string \<Rightarrow> queue_item \<Rightarrow> string \<Rightarrow> call list \<Rightarrow> storage \<Rightarrow> executor" where
  "starved W q item tid cs s =
     \<lparr>calls = \<lparr>threads = Dequeue_log q item tid # replicate W (Begin (Dequeue_one q)) @ map Begin cs, shared = s\<rparr>,
      busy = rev [1..<Suc W]\<rparr>"

lemma starved_blocked:
  assumes "i \<in> {1..<Suc W}"
  shows "blocked H i (calls (starved W q item tid cs s))"
proof -
  obtain j where "i = Suc j" "j < W" using assms by (cases i) auto
  then show ?thesis
    by (simp add: blocked_def starved_def held_by_others_def nth_append)
qed

lemma starved_step:
  "exec_step W H X K e (starved W q item tid cs s) = starved W q item tid (cs @ coming [e]) s"
proof (cases e)
  case (Advance i)
  have "\<not> (i \<in> set (busy (starved W q item tid cs s)) \<and> \<not> blocked H i (calls (starved W q item tid cs s)))"
    using starved_blocked [of i W H q item tid cs s] by (auto simp: starved_def)
  then show ?thesis using Advance by (auto simp del: sys_step.simps)
next
  case (Yield i)
  have "\<not> at_log (threads (calls (starved W q item tid cs s)) ! i)" if "i \<in> {1..<Suc W}"
    using that by (cases i) (auto simp: starved_def nth_append)
  then show ?thesis using Yield by (auto simp: starved_def)
qed (simp_all add: starved_def)

lemma starved_run:
  "run (exec_step W H X K) es (starved W q item tid cs s) = starved W q item tid (cs @ coming es) s"
proof (induction es arbitrary: cs)
  case (Cons e es)
  have "coming [e] @ coming es = coming (e # es)" by (cases e) simp_all
  then show ?case by (simp add: starved_step Cons.IH)
qed simp

lemma many_come:
  "run (exec_step W H X K) (replicate n (Come c)) \<lparr>calls = \<lparr>threads = ts, shared = s\<rparr>, busy = b\<rparr> =
     \<lparr>calls = \<lparr>threads = ts @ replicate n (Begin c), shared = s\<rparr>, busy = b\<rparr>"
  by (induction n arbitrary: ts) (simp_all add: replicate_append_same)

lemma many_polled:
  assumes "n \<le> W" and "n < length ts" and "\<forall>i\<in>{1..n}. \<not> ended (ts ! i)"
  shows "run (exec_step W H X K) (map Poll [1..<Suc n]) \<lparr>calls = \<lparr>threads = ts, shared = s\<rparr>, busy = []\<rparr> =
     \<lparr>calls = \<lparr>threads = ts, shared = s\<rparr>, busy = rev [1..<Suc n]\<rparr>"
  using assms
proof (induction n)
  case (Suc n)
  then show ?case by (simp add: run_append)
qed simp

lemma starving_run:
  assumes "0 < W" and "fmlookup (queues s) q = Some (item # rest)" and "wal s \<noteq> None"
  shows "run (exec_step W H X K) (starving W q) (idle_executor s) =
    starved W q item (shd (uuids s)) [] (s\<lparr>queues := fmupd q rest (queues s), uuids := stl (uuids s)\<rparr>)"
proof -
  let ?ts = "Dequeue_log q item (shd (uuids s)) # replicate W (Begin (Dequeue_one q))"
  let ?s = "s\<lparr>queues := fmupd q rest (queues s), uuids := stl (uuids s)\<rparr>"
  have 1: "run (exec_step W H X K) (replicate (Suc W) (Come (Dequeue_one q))) (idle_executor s) =
      \<lparr>calls = \<lparr>threads = Begin (Dequeue_one q) # replicate W (Begin (Dequeue_one q)), shared = s\<rparr>, busy = []\<rparr>"
    unfolding idle_executor_def idle_system_def many_come by simp
  have "held_by_others 0 (Begin (Dequeue_one q) # replicate W (Begin (Dequeue_one q))) = {}"
    by (auto simp: held_by_others_def)
  then have 2: "run (exec_step W H X K) [Poll 0, Advance 0, Yield 0]
      \<lparr>calls = \<lparr>threads = Begin (Dequeue_one q) # replicate W (Begin (Dequeue_one q)), shared = s\<rparr>, busy = []\<rparr> =
      \<lparr>calls = \<lparr>threads = ?ts, shared = ?s\<rparr>, busy = []\<rparr>"
    using assms by (auto simp: blocked_def)
  have 3: "run (exec_step W H X K) (map Poll [1..<Suc W]) \<lparr>calls = \<lparr>threads = ?ts, shared = ?s\<rparr>, busy = []\<rparr> =
      \<lparr>calls = \<lparr>threads = ?ts, shared = ?s\<rparr>, busy = rev [1..<Suc W]\<rparr>"
    by (rule many_polled) auto
  show ?thesis
    unfolding starving_def run_append 1 2 3 by (simp add: starved_def)
qed

text \<open>
  C12: one call more than there are workers can stop the server for good. A server that logs is
  asked for messages of one queue by one consumer more than it has workers. The first takes a
  message and yields to wait for the log, holding the guard of the queue; each other blocks the
  worker it runs on, waiting for that guard. Then no worker is left to run the first on when the log
  answers: whatever happens from here on, however many calls come and go, no call, of this queue or
  another, ever takes another step, and the message that was taken out stays nowhere.
\<close>

theorem starved_server_stops:
  assumes "0 < W" and "fmlookup (queues s) q = Some (item # rest)" and "wal s \<noteq> None"
  shows "calls (run (exec_step W H X K) (starving W q @ later) (idle_executor s)) =
    \<lparr>threads = Dequeue_log q item (shd (uuids s)) # replicate W (Begin (Dequeue_one q)) @ map Begin (coming later),
     shared = s\<lparr>queues := fmupd q rest (queues s), uuids := stl (uuids s)\<rparr>\<rparr>"
  unfolding run_append starving_run [OF assms] starved_run by (simp add: starved_def)

section \<open>Instances\<close>

text \<open>A queue with one message, a log, and all keys in one shard.\<close>

definition one_waiting :: storage where
  "one_waiting = (new_storage numbered (sconst 0))
     \<lparr>queues := fmupd ''q'' [fresh_item [7]] fmempty, wal := Some fresh_manager\<rparr>"

definition one_shard :: sharding where
  "one_shard = \<lparr>queue_shard = (\<lambda>_. 0), task_shard = (\<lambda>_. 0)\<rparr>"

text \<open>A fair schedule: events in the order of the pairs that number them.\<close>

definition in_turn :: "nat \<Rightarrow> exec_event" where
  "in_turn n = (case prod_decode n of (i, k) \<Rightarrow> if even k then Poll i else Advance i)"

lemma in_turn_fair: "fair working in_turn"
  unfolding fair_def
proof (intro conjI allI impI)
  show "working (in_turn n)" for n by (simp add: in_turn_def split: prod.split)
next
  fix e n assume "working e"
  then consider i where "e = Poll i" | i where "e = Advance i" by (cases e) simp_all
  then obtain i and k :: nat where e: "e = (if even k then Poll i else Advance i)"
  proof cases
    case (1 i)
    then show thesis using that [of 0 i] by simp
  next
    case (2 i)
    then show thesis using that [of 1 i] by simp
  qed
  have "n \<le> prod_encode (i, k + 2 * n)"
    using le_prod_encode_2 [of "k + 2 * n" i] by linarith
  moreover have "in_turn (prod_encode (i, k + 2 * n)) = e" by (simp add: in_turn_def e)
  ultimately show "\<exists>m\<ge>n. in_turn m = e" by blast
qed

theorem enough_workers_finish_witness:
  "\<exists>n. list_all ended (threads (calls (run (exec_step 1 one_shard unary_codec (\<lambda>_. []))
      ([Come (Dequeue_one ''q''), Poll 0, Advance 0] @ map in_turn [0..<n]) (idle_executor one_waiting))))"
proof (rule enough_workers_finish [OF _ in_turn_fair])
  have "card (unfinished y) \<le> length (threads y)" for y
    using card_mono [of "{..<length (threads y)}" "unfinished y"] by (auto simp: unfinished_def)
  moreover have "length (threads (calls (run (exec_step 1 one_shard unary_codec (\<lambda>_. []))
      [Come (Dequeue_one ''q''), Poll 0, Advance 0] (idle_executor one_waiting)))) = 1"
    by (simp add: idle_executor_def idle_system_def Let_def split: prod.split)
  ultimately show "card (unfinished (calls (run (exec_step 1 one_shard unary_codec (\<lambda>_. []))
      [Come (Dequeue_one ''q''), Poll 0, Advance 0] (idle_executor one_waiting)))) \<le> 1"
    by metis
qed

theorem starved_server_stops_witness:
  "threads (calls (run (exec_step 1 one_shard unary_codec (\<lambda>_. []))
      (starving 1 ''q'' @ [Come Get_stats, Poll 2, Poll 0, Advance 1, Advance 0]) (idle_executor one_waiting))) =
    [Dequeue_log ''q'' (fresh_item [7]) (shd numbered), Begin (Dequeue_one ''q''), Begin Get_stats]"
  using starved_server_stops [of 1 one_waiting "''q''" "fresh_item [7]" "[]" one_shard unary_codec "\<lambda>_. []"
      "[Come Get_stats, Poll 2, Poll 0, Advance 1, Advance 0]"]
  by (simp add: one_waiting_def new_storage_def)

end
