(* ===== verification/Spec2Isabelle.thy ===== *)
theory Spec2Isabelle
  imports Attempts Delivery Liveness Boot Threads_Once Threads_Effects Threads_Given Service Executor
begin

text \<open>
  OxideQ: a message queue server in Rust, verified by a shallow embedding.

  The program. Clients talk HTTP to a server (\<^verbatim>\<open>src/lib.rs\<close>) that keeps queues of
  messages and the tasks in flight in two concurrent maps (\<^verbatim>\<open>src/storage/memory.rs\<close>), logs
  every change to a file when it runs on its own (\<^verbatim>\<open>src/storage/wal\<close>), or replicates
  commands through the \<^verbatim>\<open>openraft\<close> library with a log in a \<^verbatim>\<open>sled\<close> database
  (\<^verbatim>\<open>src/replication\<close>). A background task returns tasks whose time is over, after five
  deliveries to a dead-letter queue. \<^verbatim>\<open>src/main.rs\<close> reads the environment and puts the
  parts together.

  Theories, from the bottom; each names the source files its definitions translate.
  \<^item> \<open>Ox_Prelude\<close>, \<open>Json\<close>, \<open>Ox_Machines\<close>: results with panics, finite maps and sums
    over them, streams of outside values; JSON as a parameter with its law; and the interfaces, as
    locales: \<open>machine\<close> (an invariant), \<open>refinement\<close>, \<open>accounted\<close> (nothing is lost but
    what is let out), \<open>channel\<close> (first in, first out), \<open>progressing\<close> (no way to get
    stuck), \<open>fairly_progressing\<close> (the end under every fair schedule), \<open>op_log\<close> (replaying a log of operations). Each is interpreted on the model where the model is defined.
  \<^item> \<open>Wal\<close>: log entries, appending with every failure point, reading back line by line.
  \<^item> \<open>Storage\<close>: the state and every operation of \<^verbatim>\<open>InMemoryStorage\<close>. \<open>Storage_Ops\<close>
    has one equation for each branch of each operation, \<open>Storage_Inv\<close> the calls of the trait as one
    machine with its invariant. \<open>Accounting\<close>: messages are conserved. \<open>Attempts\<close>: counters do
    not wrap. \<open>Delivery\<close>: order, redelivery and dead letters. \<open>Storage_Laws\<close>: batches, failures,
    expiry, heartbeats, statistics, snapshots.
  \<^item> \<open>Recovery\<close>, \<open>Durability\<close>: \<^verbatim>\<open>new_persistent\<close> and the refinement that makes the log
    a record of the storage: every operation commits the entries it writes, and the replay commits
    the same. Restarts are exact without failed writes, lose nothing with cleanly failed ones, and
    lose everything after a torn line.
  \<^item> \<open>Threads\<close>, \<open>Threads_Laws\<close>, \<open>Threads_Runs\<close>, \<open>Threads_Once\<close>: the operations cut at their accesses of the
    shared maps and of the log, run under every schedule, with the guards that are held across an
    \<^verbatim>\<open>await\<close> and with handlers that are dropped. The account of messages holds for all
    schedules, and no task is settled twice; a call that runs alone is the call of \<open>Storage\<close>.
    Three schedules show where concurrency loses a message, a fourth where a batch acknowledgement
    succeeds for a message that stays. \<open>Threads_Fifo\<close>: the guards exclude each other, so queues are
    first in, first out under concurrency. \<open>Threads_Effects\<close>: what concurrent calls do amounts to
    whole operations one after the other. \<open>Threads_Given\<close>: no task is delivered twice, and no message goes to a second client before it was put back.
    \<open>Threads_Crash\<close>: killed under load, the storage leaves a log with every accepted message. \<open>Executor\<close>: the calls on the worker threads of the
    runtime; with a worker for each call every fair schedule ends all calls, with one less the server can stop for good.
  \<^item> \<open>Replication\<close>, \<open>Log_Store\<close>: \<^verbatim>\<open>CombinedStorage\<close>: applying commands, snapshots, the
    replicated log and the vote in the database. The log refines a map from index to entry; replicas
    agree on commands other than deliveries, and come apart on those.
  \<^item> \<open>Http\<close>, \<open>Http_Laws\<close>: the routes, the password check and every handler in both modes.
    \<open>Server\<close>: the cleanup task and its interleaving with requests, as a step relation; a standalone
    server is a run of storage calls, so the laws of the storage carry over to it.
    \<open>Liveness\<close>: its cleanup stays alive, and every tick returns what is overdue.
    \<open>Service\<close>: the same server with its requests in parallel. A handler is one call of the storage and
    what its route makes of the reply, so a service is a schedule of \<open>Threads\<close> with a response for each
    call that has ended; the messages clients had confirmed with 200 are exactly those the server
    took in, and a restart after a crash misses no more of them than were acknowledged. Run one at a time, its requests are answered as \<open>Http\<close> answers them.
  \<^item> \<open>Config\<close>, \<open>Cluster\<close>, \<open>Boot\<close>: environment variables and TLS; the client of the consensus
    protocol, composed with the HTTP interface of the node it calls (every call is refused for want
    of a password); start-up as a list of checks, the shutdown signal, and a program that is killed between two
    requests and started again.

  Parameters, standing for code that is not part of the program. JSON of log entries is the record
  \<open>codec\<close> with \<open>codec_law\<close> (an entry written is read back, on one line that starts with a brace);
  JSON of other data is \<open>json\<close> with \<open>json_law\<close>; documents of batches are \<open>values\<close>. A concrete
  instance of each satisfies its law and is used in the witnesses. \<^verbatim>\<open>sled\<close> is two ordered maps
  on byte strings whose calls can fail; \<^verbatim>\<open>DashMap\<close> is a finite map with an arbitrary order of
  iteration (\<open>key_order\<close>). The consensus library, the extractors of the web framework, the PEM
  reader, the HTTP client and the constant-time comparison are functions in records. Identifiers,
  clock readings and outcomes of writes are streams; where it matters that identifiers do not
  repeat, \<open>unrepeated\<close> says so.

  Numbers keep their width: counters, timeouts, counts and log positions are words. There is no
  fuel: every loop of the program is structural recursion here, or a finite schedule, and that a
  call comes to its end is proved for the stepwise model.

  Not modelled. Of \<^verbatim>\<open>src/server/mod.rs\<close> only the choice of what is served is here: sockets,
  TLS handshakes, the HTTP transport and the draining of connections are the libraries'. The scheduler
  of \<^verbatim>\<open>tokio\<close> and the shards of \<^verbatim>\<open>DashMap\<close> are what their documentation says of them,
  with the number of workers and the assignment of keys as parameters. The
  consensus protocol itself is the library's: what is said about replicas starts from the same
  committed entries. In the models of a running server an append to the log is one step: it is
  whole or it fails, and a kill, or a handler that is dropped, in the middle of the writing of one
  line is not among their steps; what such a torn line does to the next start is in
  \<open>Durability\<close>. Memory exhaustion is not modelled beyond the capacity check of a vector, and an
  iteration over a concurrent map is one step.

  The properties, numbered C1 to C40, stand in the theories with a text each.
\<close>

end
